(* ===== verification/Conduit_Prelude.thy ===== *)
theory Conduit_Prelude
  imports Main "HOL-Library.Word" "HOL-Library.Sublist" "HOL-Library.Product_Lexorder"
begin

text \<open>
  Shared material of the development: the machine integers of the Rust code as words, the
  parts of the standard library that several crates call (saturating and checked arithmetic,
  \<open>Duration\<close>, ASCII case folding, \<open>str::trim\<close>, decimal printing), the leftmost-maximum
  search that is the reference for every ranked lookup, and the generic lemmas on lists and
  options that carry the component proofs.
\<close>

section \<open>Machine integers and durations\<close>

type_synonym u8 = "8 word"
type_synonym u16 = "16 word"
type_synonym u32 = "32 word"
type_synonym u64 = "64 word"
type_synonym usize = "64 word"

text \<open>\<open>T::saturating_add\<close>: the exact sum, or the largest value of the type.\<close>

definition saturating_add :: "'a::len word \<Rightarrow> 'a word \<Rightarrow> 'a word" where
  "saturating_add a b = (if unat a + unat b < 2 ^ LENGTH('a) then a + b else - 1)"

text \<open>\<open>T::checked_mul\<close> and \<open>T::checked_add\<close>: \<open>None\<close> on overflow.\<close>

definition checked_mul :: "'a::len word \<Rightarrow> 'a word \<Rightarrow> 'a word option" where
  "checked_mul a b = (if unat a * unat b < 2 ^ LENGTH('a) then Some (a * b) else None)"

definition checked_add :: "'a::len word \<Rightarrow> 'a word \<Rightarrow> 'a word option" where
  "checked_add a b = (if unat a + unat b < 2 ^ LENGTH('a) then Some (a + b) else None)"

text \<open>\<open>u64::try_from(n).unwrap_or(u64::MAX)\<close> for an unsigned \<open>n\<close>.\<close>

definition u64_or_max :: "nat \<Rightarrow> u64" where
  "u64_or_max n = (if n < 2 ^ 64 then of_nat n else - 1)"

text \<open>
  \<open>std::time::Duration\<close> is a whole number of nanoseconds, never negative; an \<open>Instant\<close> is
  the number of nanoseconds since an arbitrary origin, and \<open>Instant::elapsed\<close> saturates at
  zero as subtraction on \<open>nat\<close> does.
\<close>

type_synonym duration = nat
type_synonym instant = nat

definition from_secs :: "u64 \<Rightarrow> duration" where
  "from_secs s = unat s * 1000000000"

definition from_millis :: "u64 \<Rightarrow> duration" where
  "from_millis m = unat m * 1000000"

definition as_millis :: "duration \<Rightarrow> nat" where
  "as_millis d = d div 1000000"

definition as_micros :: "duration \<Rightarrow> nat" where
  "as_micros d = d div 1000"

section \<open>Strings\<close>

text \<open>
  A Rust \<open>String\<close> is a sequence of UTF-8 bytes and \<open>char\<close> is a byte here, so \<open>length\<close> is
  \<open>str::len\<close>. \<open>starts_with\<close>, \<open>strip_prefix\<close> and equality work bytewise in both.
\<close>

definition starts_with :: "string \<Rightarrow> string \<Rightarrow> bool" where
  "starts_with s p \<longleftrightarrow> prefix p s"

definition strip_prefix_str :: "string \<Rightarrow> string \<Rightarrow> string option" where
  "strip_prefix_str p s = (if prefix p s then Some (drop (length p) s) else None)"

definition is_ascii_uppercase :: "char \<Rightarrow> bool" where
  "is_ascii_uppercase c \<longleftrightarrow> 65 \<le> (of_char c :: nat) \<and> (of_char c :: nat) \<le> 90"

definition is_ascii_digit :: "char \<Rightarrow> bool" where
  "is_ascii_digit c \<longleftrightarrow> 48 \<le> (of_char c :: nat) \<and> (of_char c :: nat) \<le> 57"

definition ascii_lower_char :: "char \<Rightarrow> char" where
  "ascii_lower_char c = (if is_ascii_uppercase c then char_of ((of_char c :: nat) + 32) else c)"

definition to_ascii_lowercase :: "string \<Rightarrow> string" where
  "to_ascii_lowercase = map ascii_lower_char"

text \<open>
  \<open>str::trim\<close> removes Unicode white space at both ends. These are the UTF-8 encodings of the
  code points with the property White\_Space; UTF-8 is self-synchronising, so a leading or
  trailing occurrence of one of these byte sequences in a valid string is that code point.
\<close>

definition ws_seqs :: "nat list list" where
  "ws_seqs =
     [[9], [10], [11], [12], [13], [32], [194, 133], [194, 160], [225, 154, 128],
      [226, 128, 128], [226, 128, 129], [226, 128, 130], [226, 128, 131], [226, 128, 132],
      [226, 128, 133], [226, 128, 134], [226, 128, 135], [226, 128, 136], [226, 128, 137],
      [226, 128, 138], [226, 128, 168], [226, 128, 169], [226, 128, 175], [226, 129, 159],
      [227, 128, 128]]"

fun ws_strip :: "nat list list \<Rightarrow> nat list \<Rightarrow> nat list option" where
  "ws_strip [] s = None"
| "ws_strip (w # ws) s =
     (if w \<noteq> [] \<and> prefix w s then Some (drop (length w) s) else ws_strip ws s)"

lemma ws_strip_shorter: "ws_strip ws s = Some t \<Longrightarrow> length t < length s"
  by (induction ws) (auto split: if_splits simp: prefix_def)

function trim_left :: "nat list list \<Rightarrow> nat list \<Rightarrow> nat list" where
  "trim_left ws s = (case ws_strip ws s of None \<Rightarrow> s | Some t \<Rightarrow> trim_left ws t)"
  by pat_completeness auto
termination
  by (relation "measure (\<lambda>(ws, s). length s)") (auto dest: ws_strip_shorter)

declare trim_left.simps [simp del]

definition bytes_of :: "string \<Rightarrow> nat list" where
  "bytes_of s = map of_char s"

definition string_of :: "nat list \<Rightarrow> string" where
  "string_of bs = map char_of bs"

definition trim_start :: "string \<Rightarrow> string" where
  "trim_start s = string_of (trim_left ws_seqs (bytes_of s))"

definition trim_end :: "string \<Rightarrow> string" where
  "trim_end s = string_of (rev (trim_left (map rev ws_seqs) (rev (bytes_of s))))"

definition trim :: "string \<Rightarrow> string" where
  "trim s = trim_end (trim_start s)"

text \<open>Decimal printing of an unsigned integer, the \<open>Display\<close> instance the formatters use.\<close>

definition digit_char :: "nat \<Rightarrow> char" where
  "digit_char d = char_of (48 + d)"

fun show_nat :: "nat \<Rightarrow> string" where
  "show_nat n = (if n < 10 then [digit_char n] else show_nat (n div 10) @ [digit_char (n mod 10)])"

declare show_nat.simps [simp del]

section \<open>Ranked search\<close>

text \<open>
  The leftmost element of greatest rank: the reference for the lookups that index their
  candidates by specificity and fall back in declaration order.
\<close>

fun best :: "('a \<Rightarrow> 'k::linorder) \<Rightarrow> 'a list \<Rightarrow> 'a option" where
  "best k [] = None"
| "best k (x # xs) =
     (case best k xs of None \<Rightarrow> Some x | Some y \<Rightarrow> Some (if k y \<le> k x then x else y))"

named_theorems no_panic \<open>operations that return, whatever their arguments\<close>

section \<open>Generic lemmas\<close>

subsection \<open>Words\<close>

lemma unat_max_word: "unat (- 1 :: 'a::len word) = 2 ^ LENGTH('a) - 1"
  by (simp add: unsigned_minus_1_eq_mask mask_eq_exp_minus_1)

lemma unat_bound: "unat (a :: 'a::len word) < 2 ^ LENGTH('a)"
  by (rule unsigned_less)

lemma unat_le_max: "unat (a :: 'a::len word) \<le> 2 ^ LENGTH('a) - Suc 0"
  using unat_bound [of a] by linarith

lemma unat_saturating_add:
  "unat (saturating_add a b) = min (unat a + unat b) (2 ^ LENGTH('a) - 1)"
  for a b :: "'a::len word"
proof (cases "unat a + unat b < 2 ^ LENGTH('a)")
  case True
  then have "unat (a + b) = unat a + unat b"
    by (simp add: unat_word_ariths)
  with True show ?thesis by (simp add: saturating_add_def)
next
  case False
  then show ?thesis
    by (simp add: saturating_add_def unat_max_word)
qed

lemma saturating_add_ge1: "a \<le> saturating_add a b" for a b :: "'a::len word"
  by (simp add: word_le_nat_alt unat_saturating_add unat_le_max)

lemma saturating_add_ge2: "b \<le> saturating_add a b" for a b :: "'a::len word"
  by (simp add: word_le_nat_alt unat_saturating_add unat_le_max)

lemma unat_u64_or_max: "unat (u64_or_max n) = min n (2 ^ 64 - 1)"
proof (cases "n < 2 ^ 64")
  case True
  then show ?thesis by (simp add: u64_or_max_def unat_of_nat)
next
  case False
  have "unat (- 1 :: u64) = 2 ^ 64 - 1"
    using unat_max_word [where 'a = 64] by simp
  with False show ?thesis by (simp add: u64_or_max_def min_def)
qed

lemma u64_or_max_mono: "m \<le> n \<Longrightarrow> u64_or_max m \<le> u64_or_max n"
  unfolding word_le_nat_alt unat_u64_or_max by (rule min.mono) simp_all

lemma checked_mul_Some_iff:
  "checked_mul a b = Some c \<longleftrightarrow> unat a * unat b < 2 ^ LENGTH('a) \<and> c = a * b"
  for a b :: "'a::len word"
  by (auto simp: checked_mul_def)

lemma checked_mul_unat:
  "checked_mul a b = Some c \<Longrightarrow> unat c = unat a * unat b" for a b :: "'a::len word"
  by (auto simp: checked_mul_def unat_word_ariths split: if_splits)

lemma checked_add_unat:
  "checked_add a b = Some c \<Longrightarrow> unat c = unat a + unat b" for a b :: "'a::len word"
  by (auto simp: checked_add_def unat_word_ariths split: if_splits)

subsection \<open>Lists and options\<close>

lemma find_append:
  "List.find P (xs @ ys) = (case List.find P xs of None \<Rightarrow> List.find P ys | Some x \<Rightarrow> Some x)"
  by (induction xs) auto

lemma find_filter_hd:
  "List.find P xs = (case filter P xs of [] \<Rightarrow> None | x # _ \<Rightarrow> Some x)"
  by (induction xs) auto

lemma find_SomeD: "List.find P xs = Some x \<Longrightarrow> x \<in> set xs \<and> P x"
  by (auto simp: find_Some_iff)

lemma find_False: "List.find (\<lambda>x. False) xs = None"
  by (simp add: find_None_iff)

lemma find_filter: "List.find P (filter Q xs) = List.find (\<lambda>x. Q x \<and> P x) xs"
  by (induction xs) auto

lemma find_NoneD: "List.find P xs = None \<Longrightarrow> x \<in> set xs \<Longrightarrow> \<not> P x"
  by (auto simp: find_None_iff)

lemma find_cong_set:
  "(\<And>x. x \<in> set xs \<Longrightarrow> P x = Q x) \<Longrightarrow> List.find P xs = List.find Q xs"
  by (induction xs) auto

lemma find_filter_swap: "List.find P (filter Q xs) = List.find (\<lambda>x. Q x \<and> P x) xs"
  by (induction xs) auto

subsection \<open>Ranked search\<close>

lemma best_None_iff [simp]: "best k xs = None \<longleftrightarrow> xs = []"
  by (cases xs) (auto split: option.splits)

lemma best_SomeD:
  "best k xs = Some y \<Longrightarrow>
     y \<in> set xs \<and> (\<forall>x\<in>set xs. k x \<le> k y) \<and> List.find (\<lambda>x. k x = k y) xs = Some y"
proof (induction xs arbitrary: y)
  case (Cons x xs)
  show ?case
  proof (cases "best k xs")
    case None
    with Cons.prems show ?thesis by auto
  next
    case (Some z)
    with Cons.IH have z: "z \<in> set xs" "\<forall>x\<in>set xs. k x \<le> k z"
      "List.find (\<lambda>x. k x = k z) xs = Some z" by blast+
    show ?thesis
    proof (cases "k z \<le> k x")
      case True
      with Some Cons.prems z show ?thesis by fastforce
    next
      case False
      with Some Cons.prems have "y = z" by simp
      with False z show ?thesis by auto
    qed
  qed
qed simp

lemma best_SomeI:
  assumes "\<forall>x\<in>set xs. k x \<le> k y" and "List.find (\<lambda>x. k x = k y) xs = Some y"
  shows "best k xs = Some y"
proof -
  from assms(2) have "y \<in> set xs" by (auto dest: find_SomeD)
  then obtain z where z: "best k xs = Some z"
    by (cases "best k xs") auto
  from best_SomeD [OF z] have "z \<in> set xs" and "k y \<le> k z"
    and first: "List.find (\<lambda>x. k x = k z) xs = Some z"
    using \<open>y \<in> set xs\<close> by blast+
  with assms(1) have "k z = k y" by (blast intro: order.antisym)
  with first have "List.find (\<lambda>x. k x = k y) xs = Some z" by (simp only:)
  with assms(2) have "z = y" by (simp only: option.inject)
  with z show ?thesis by (simp only:)
qed

text \<open>The result depends only on the order of the elements within each rank.\<close>

lemma best_same_ranks:
  assumes same: "\<And>c. filter (\<lambda>x. k x = c) xs = filter (\<lambda>x. k x = c) ys"
  shows "best k xs = best k ys"
proof (cases "best k xs")
  case None
  then have "filter (\<lambda>x. k x = c) ys = []" for c
    using same [of c] by simp
  from this [of "k (hd ys)"] have "ys = []" by (cases ys) auto
  with None show ?thesis by simp
next
  case (Some z)
  note z = best_SomeD [OF Some]
  have sets: "set ys = set xs"
  proof -
    have "x \<in> set ys \<longleftrightarrow> x \<in> set xs" for x
      using arg_cong [OF same [of "k x"], of set] by auto
    then show ?thesis by blast
  qed
  have "List.find (\<lambda>x. k x = k z) ys = Some z"
    using z same [of "k z"] by (simp add: find_filter_hd)
  with z sets have "best k ys = Some z" by (intro best_SomeI) auto
  with Some show ?thesis by simp
qed

lemma best_descending:
  "sorted_wrt (\<lambda>x y. k y \<le> k x) xs \<Longrightarrow> best k xs = (case xs of [] \<Rightarrow> None | x # _ \<Rightarrow> Some x)"
  by (cases xs) (auto split: option.splits dest: best_SomeD)

text \<open>A class that outranks the rest is searched first.\<close>

lemma best_partition:
  assumes "\<And>x y. x \<in> set xs \<Longrightarrow> y \<in> set xs \<Longrightarrow> P x \<Longrightarrow> \<not> P y \<Longrightarrow> k y < k x"
  shows "best k xs =
    (case best k (filter P xs) of None \<Rightarrow> best k (filter (\<lambda>x. \<not> P x) xs) | Some x \<Rightarrow> Some x)"
proof (cases "best k (filter P xs)")
  case None
  then have "filter (\<lambda>x. \<not> P x) xs = xs" by (auto simp: filter_empty_conv filter_id_conv)
  with None show ?thesis by simp
next
  case (Some z)
  note z = best_SomeD [OF Some]
  have le: "k x \<le> k z" if "x \<in> set xs" for x
    using z that assms [of z x] by (cases "P x") auto
  have "List.find (\<lambda>x. k x = k z) xs = List.find (\<lambda>x. P x \<and> k x = k z) xs"
    using z assms [of z] by (intro find_cong_set) force
  also have "\<dots> = Some z" using z by (simp add: find_filter_swap)
  finally have "best k xs = Some z" using le by (intro best_SomeI) auto
  with Some show ?thesis by simp
qed

lemma best_rank_cong:
  assumes "\<And>x y. x \<in> set xs \<Longrightarrow> y \<in> set xs \<Longrightarrow> k x \<le> k y \<longleftrightarrow> k' x \<le> k' y"
  shows "best k xs = best k' xs"
  using assms
proof (induction xs)
  case (Cons x xs)
  then have "best k xs = best k' xs" by simp
  with Cons.prems show ?case by (auto split: option.split dest: best_SomeD)
qed simp

lemma concat_unique_key:
  "distinct (map fst xs) \<Longrightarrow>
   concat (map (\<lambda>(p, s). if p = q then f s else []) xs)
     = (case map_of xs q of None \<Rightarrow> [] | Some s \<Rightarrow> f s)"
proof (induction xs)
  case (Cons x xs)
  obtain p s where x: "x = (p, s)" by (cases x)
  show ?case
  proof (cases "p = q")
    case True
    then have "map_of xs q = None" using Cons.prems x by (auto simp: map_of_eq_None_iff)
    with True Cons x show ?thesis by simp
  next
    case False
    with Cons x show ?thesis by simp
  qed
qed simp

subsection \<open>Strings\<close>

lemma starts_with_append [simp]: "starts_with (p @ s) p"
  by (simp add: starts_with_def)

lemma starts_with_length: "starts_with s p \<Longrightarrow> length p \<le> length s"
  by (auto simp: starts_with_def prefix_length_le)

lemma starts_with_same_length:
  "starts_with s p \<Longrightarrow> starts_with s q \<Longrightarrow> length p = length q \<Longrightarrow> p = q"
  by (auto simp: starts_with_def prefix_def dest: append_eq_append_conv [THEN iffD1])

lemma ascii_lower_char_fixed: "\<not> is_ascii_uppercase c \<Longrightarrow> ascii_lower_char c = c"
  by (simp add: ascii_lower_char_def)

lemma ascii_lower_char_not_upper [simp]: "\<not> is_ascii_uppercase (ascii_lower_char c)"
proof (cases "is_ascii_uppercase c")
  case True
  then have "(of_char c :: nat) \<le> 90" and "65 \<le> (of_char c :: nat)"
    by (simp_all add: is_ascii_uppercase_def)
  then have "(of_char (char_of ((of_char c :: nat) + 32)) :: nat) = of_char c + 32"
    by simp
  with \<open>65 \<le> (of_char c :: nat)\<close> True show ?thesis
    by (simp add: ascii_lower_char_def is_ascii_uppercase_def)
next
  case False
  then show ?thesis by (simp add: ascii_lower_char_def)
qed

lemma to_ascii_lowercase_fixed:
  "\<forall>c\<in>set s. \<not> is_ascii_uppercase c \<Longrightarrow> to_ascii_lowercase s = s"
  by (simp add: to_ascii_lowercase_def map_idI ascii_lower_char_fixed)

lemma to_ascii_lowercase_idem [simp]:
  "to_ascii_lowercase (to_ascii_lowercase s) = to_ascii_lowercase s"
  by (rule to_ascii_lowercase_fixed) (auto simp: to_ascii_lowercase_def)

lemma to_ascii_lowercase_Nil_iff [simp]: "to_ascii_lowercase s = [] \<longleftrightarrow> s = []"
  by (simp add: to_ascii_lowercase_def)

lemma length_to_ascii_lowercase [simp]: "length (to_ascii_lowercase s) = length s"
  by (simp add: to_ascii_lowercase_def)

section \<open>Transition systems\<close>

text \<open>
  An inductive invariant of a step relation: it holds initially and every step keeps it, so
  it holds in every reachable state. The components with interleaved steps interpret this
  with their own relation and invariant.
\<close>

locale inductive_invariant =
  fixes init :: "'s \<Rightarrow> bool" and step :: "'s \<Rightarrow> 's \<Rightarrow> bool" and inv :: "'s \<Rightarrow> bool"
  assumes init_inv: "init s \<Longrightarrow> inv s"
    and step_inv: "inv s \<Longrightarrow> step s s' \<Longrightarrow> inv s'"
begin

lemma steps_inv: "step\<^sup>*\<^sup>* s s' \<Longrightarrow> inv s \<Longrightarrow> inv s'"
  by (induction rule: rtranclp_induct) (auto intro: step_inv)

lemma reachable_inv: "init s \<Longrightarrow> step\<^sup>*\<^sup>* s s' \<Longrightarrow> inv s'"
  by (blast intro: steps_inv init_inv)

end

text \<open>
  A stuttering simulation: seen through \<open>abs\<close>, every step of a concrete system from a state
  that satisfies its invariant is some steps, possibly none, of an abstract one.
\<close>

locale simulation = inductive_invariant init step inv
  for init :: "'s \<Rightarrow> bool" and step :: "'s \<Rightarrow> 's \<Rightarrow> bool" and inv :: "'s \<Rightarrow> bool" +
  fixes abs :: "'s \<Rightarrow> 'a" and astep :: "'a \<Rightarrow> 'a \<Rightarrow> bool"
  assumes step_sim: "inv s \<Longrightarrow> step s s' \<Longrightarrow> astep\<^sup>*\<^sup>* (abs s) (abs s')"
begin

lemma steps_sim: "step\<^sup>*\<^sup>* s s' \<Longrightarrow> inv s \<Longrightarrow> astep\<^sup>*\<^sup>* (abs s) (abs s')"
proof (induction rule: rtranclp_induct)
  case (step t u)
  then show ?case using step_sim [of t u] steps_inv [of s t] by (meson rtranclp_trans)
qed simp

lemma reachable_sim: "init s \<Longrightarrow> step\<^sup>*\<^sup>* s s' \<Longrightarrow> astep\<^sup>*\<^sup>* (abs s) (abs s')"
  by (blast intro: steps_sim init_inv)

end

end
