(* ===== verification/Conduit_Duration.thy ===== *)
theory Conduit_Duration
  imports Conduit_Prelude
begin

text \<open>
  \<^verbatim>\<open>conduit-config/src/duration.rs\<close> and \<^verbatim>\<open>workers.rs\<close>: the two hand-written field
  parsers of the configuration, duration strings and worker counts. The main results are
  the exact grammar the duration parser accepts with the value it returns, and the
  non-zero guarantee of worker counts.
\<close>

section \<open>Duration strings\<close>

datatype duration_str = DurationStr duration

definition dstr_new :: "duration \<Rightarrow> duration_str" where
  "dstr_new d = DurationStr d"

definition dstr_from_secs :: "u64 \<Rightarrow> duration_str" where
  "dstr_from_secs s = DurationStr (from_secs s)"

fun dstr_get :: "duration_str \<Rightarrow> duration" where
  "dstr_get (DurationStr d) = d"

datatype parse_error = Empty | MissingUnit | MissingNumber | Overflow | UnknownUnit string

text \<open>
  \<open>str::parse::<u64>\<close>: one checked multiplication and one checked addition per digit. A
  single leading plus sign is accepted by the standard library; an empty digit string is
  not.
\<close>

fun parse_u64_loop :: "u64 \<Rightarrow> string \<Rightarrow> u64 option" where
  "parse_u64_loop acc [] = Some acc"
| "parse_u64_loop acc (c # cs) =
     (if \<not> is_ascii_digit c then None
      else case checked_mul acc 10 of
        None \<Rightarrow> None
      | Some m \<Rightarrow> (case checked_add m (of_nat (of_char c - 48)) of
          None \<Rightarrow> None
        | Some a \<Rightarrow> parse_u64_loop a cs))"

definition parse_u64 :: "string \<Rightarrow> u64 option" where
  "parse_u64 s =
     (case s of
        [] \<Rightarrow> None
      | c # cs \<Rightarrow> if c = CHR ''+'' \<and> cs \<noteq> [] then parse_u64_loop 0 cs else parse_u64_loop 0 s)"

text \<open>
  \<open>parse\<close>: trim, split at the first character that is not an ASCII digit (the byte index
  \<open>str::find\<close> returns), parse the number, then the trimmed unit.
\<close>

definition parse :: "string \<Rightarrow> parse_error + duration" where
  "parse s0 =
     (let s = trim s0 in
      if s = [] then Inl Empty
      else if list_all is_ascii_digit s then Inl MissingUnit
      else
        let split = length (takeWhile is_ascii_digit s) in
        if split = 0 then Inl MissingNumber
        else
          case parse_u64 (take split s) of
            None \<Rightarrow> Inl Overflow
          | Some n \<Rightarrow>
              let u = trim (drop split s) in
              if u = ''ms'' then Inr (from_millis n)
              else
                case (if u = ''s'' then Some 1 else if u = ''m'' then Some 60
                      else if u = ''h'' then Some 3600 else None) of
                  None \<Rightarrow> Inl (UnknownUnit u)
                | Some mul \<Rightarrow>
                    (case checked_mul n mul of
                       None \<Rightarrow> Inl Overflow
                     | Some secs \<Rightarrow> Inr (from_secs secs)))"

definition visit_duration_str :: "string \<Rightarrow> parse_error + duration_str" where
  "visit_duration_str s = (case parse s of Inl e \<Rightarrow> Inl e | Inr d \<Rightarrow> Inr (DurationStr d))"

section \<open>Worker counts\<close>

datatype workers = Auto | Count usize

datatype workers_error = InvalidStr string | InvalidSigned int | InvalidUnsigned u64

definition workers_default :: workers where
  "workers_default = Auto"

definition nonzero_new :: "usize \<Rightarrow> usize option" where
  "nonzero_new n = (if n = 0 then None else Some n)"

definition workers_visit_str :: "string \<Rightarrow> workers_error + workers" where
  "workers_visit_str s = (if s = ''auto'' then Inr Auto else Inl (InvalidStr s))"

text \<open>\<open>usize::try_from(i64)\<close> fails exactly on negative values on a 64-bit target.\<close>

definition usize_try_from_i64 :: "64 word \<Rightarrow> usize option" where
  "usize_try_from_i64 n = (if sint n < 0 then None else Some n)"

definition workers_visit_i64 :: "64 word \<Rightarrow> workers_error + workers" where
  "workers_visit_i64 n =
     (if sint n \<le> 0 then Inl (InvalidSigned (sint n))
      else case usize_try_from_i64 n of
        None \<Rightarrow> Inl (InvalidSigned (sint n))
      | Some u \<Rightarrow> (case nonzero_new u of
          None \<Rightarrow> Inl (InvalidSigned (sint n))
        | Some c \<Rightarrow> Inr (Count c)))"

definition workers_visit_u64 :: "u64 \<Rightarrow> workers_error + workers" where
  "workers_visit_u64 n =
     (case nonzero_new n of
        None \<Rightarrow> Inl (InvalidUnsigned n)
      | Some c \<Rightarrow> Inr (Count c))"

text \<open>
  \<open>resolve_workers\<close> of the binary: \<open>available_parallelism\<close> is the operating system's answer,
  \<open>None\<close> when it cannot tell.
\<close>

definition resolve_workers :: "usize option \<Rightarrow> workers \<Rightarrow> usize" where
  "resolve_workers avail w =
     (case w of
        Auto \<Rightarrow> (case avail of None \<Rightarrow> 1 | Some n \<Rightarrow> n)
      | Count n \<Rightarrow> n)"

section \<open>Reference grammar\<close>

text \<open>The value of a digit string, unbounded.\<close>

definition digits_value :: "string \<Rightarrow> nat" where
  "digits_value s = foldl (\<lambda>a c. 10 * a + (of_char c - 48)) 0 s"

definition unit_nanos :: "string \<rightharpoonup> nat" where
  "unit_nanos = [''ms'' \<mapsto> 1000000, ''s'' \<mapsto> 1000000000, ''m'' \<mapsto> 60000000000,
                 ''h'' \<mapsto> 3600000000000]"

text \<open>A printed duration: number and unit with blanks before, between and after.\<close>

definition spaced :: "nat \<Rightarrow> nat \<Rightarrow> nat \<Rightarrow> u64 \<Rightarrow> string \<Rightarrow> string" where
  "spaced i j k n u =
     replicate i CHR '' '' @ show_nat (unat n) @ replicate j CHR '' '' @ u @ replicate k CHR '' ''"

section \<open>Lemmas\<close>

lemma dstr_get_new [simp]: "dstr_get (dstr_new d) = d"
  by (simp add: dstr_new_def)

lemma foldl_digits_ge: "a \<le> foldl (\<lambda>a c. 10 * a + (of_char c - 48)) a s" for a :: nat
proof (induction s arbitrary: a)
  case (Cons c s)
  have "a \<le> 10 * a + (of_char c - 48)" by simp
  also have "\<dots> \<le> foldl (\<lambda>a c. 10 * a + (of_char c - 48)) (10 * a + (of_char c - 48)) s"
    by (rule Cons.IH)
  finally show ?case by simp
qed simp

lemma unat_digit: "is_ascii_digit c \<Longrightarrow> unat (of_nat (of_char c - 48) :: u64) = of_char c - 48"
  by (subst unat_of_nat) (auto simp: is_ascii_digit_def)

lemma parse_u64_loop_digits:
  "\<forall>c\<in>set s. is_ascii_digit c \<Longrightarrow>
   parse_u64_loop acc s =
     (let v = foldl (\<lambda>a c. 10 * a + (of_char c - 48)) (unat acc) s in
      if v < 2 ^ 64 then Some (of_nat v) else None)"
proof (induction s arbitrary: acc)
  case Nil
  then show ?case using unat_bound [of acc] by simp
next
  case (Cons c s)
  let ?d = "of_char c - 48 :: nat" and ?f = "\<lambda>a c. 10 * a + (of_char c - 48) :: nat"
  have d: "unat (of_nat ?d :: u64) = ?d" using Cons.prems by (simp add: unat_digit)
  show ?case
  proof (cases "10 * unat acc + ?d < 2 ^ 64")
    case True
    let ?a = "acc * 10 + of_nat ?d"
    have mul: "checked_mul acc 10 = Some (acc * 10)" and m: "unat (acc * 10) = 10 * unat acc"
      using True by (auto simp: checked_mul_def unat_word_ariths)
    have add: "checked_add (acc * 10) (of_nat ?d) = Some ?a" and a: "unat ?a = 10 * unat acc + ?d"
      using True m d by (auto simp: checked_add_def unat_word_ariths)
    have "parse_u64_loop acc (c # s) = parse_u64_loop ?a s"
      using Cons.prems mul add by simp
    also have "\<dots> = (let v = foldl ?f (unat ?a) s in if v < 2 ^ 64 then Some (of_nat v) else None)"
      using Cons.prems by (intro Cons.IH) simp
    finally show ?thesis by (simp only: a foldl.simps)
  next
    case False
    have big: "\<not> foldl ?f (10 * unat acc + ?d) s < 2 ^ 64"
      using foldl_digits_ge [of "10 * unat acc + ?d" s] False by linarith
    have "parse_u64_loop acc (c # s) = None"
    proof (cases "checked_mul acc 10")
      case (Some m)
      then have "unat m = 10 * unat acc" by (auto dest: checked_mul_unat)
      with False d have "checked_add m (of_nat ?d) = None" by (simp add: checked_add_def)
      with Some show ?thesis by simp
    qed simp
    with big show ?thesis by (simp add: Let_def)
  qed
qed

lemma parse_u64_digits:
  assumes "s \<noteq> []" and "\<forall>c\<in>set s. is_ascii_digit c"
  shows "parse_u64 s =
    (if digits_value s < 2 ^ 64 then Some (of_nat (digits_value s)) else None)"
proof -
  obtain c cs where s: "s = c # cs" using assms(1) by (cases s) auto
  have "c \<noteq> CHR ''+''" using assms(2) s by (auto simp: is_ascii_digit_def)
  then have "parse_u64 s = parse_u64_loop 0 s" using s by (simp add: parse_u64_def)
  also have "\<dots> = (if digits_value s < 2 ^ 64 then Some (of_nat (digits_value s)) else None)"
    using parse_u64_loop_digits [OF assms(2), of 0] by (simp add: digits_value_def Let_def)
  finally show ?thesis .
qed

text \<open>What \<open>parse\<close> does once the trimmed string is split into number and unit.\<close>

lemma parse_split:
  assumes "trim s = ds @ rest" and "ds \<noteq> []" and "\<forall>c\<in>set ds. is_ascii_digit c"
    and "rest \<noteq> []" and "\<not> is_ascii_digit (hd rest)"
  shows "parse s =
    (if 2 ^ 64 \<le> digits_value ds then Inl Overflow
     else case unit_nanos (trim rest) of
       None \<Rightarrow> Inl (UnknownUnit (trim rest))
     | Some u \<Rightarrow>
         (if trim rest = ''ms'' \<or> digits_value ds * (u div 1000000000) < 2 ^ 64
          then Inr (digits_value ds * u) else Inl Overflow))"
proof -
  obtain r rs where rest: "rest = r # rs" using assms(4) by (cases rest) auto
  have tw: "takeWhile is_ascii_digit (trim s) = ds"
    using assms(1,3,5) rest by (simp add: takeWhile_append takeWhile_eq_all_conv)
  have nd: "\<not> list_all is_ascii_digit (trim s)"
    using assms(1,5) rest by (simp add: list_all_iff)
  have v: "unat (of_nat (digits_value ds) :: u64) = digits_value ds" if "digits_value ds < 2 ^ 64"
    using that by (simp add: unat_of_nat)
  show ?thesis
    using assms(1,2) tw nd parse_u64_digits [OF assms(2,3)] v
    by (auto simp: parse_def unit_nanos_def Let_def from_millis_def from_secs_def checked_mul_def
        unat_word_ariths)
qed

subsection \<open>Trimming and printing\<close>

definition plain_char :: "char \<Rightarrow> bool" where
  "plain_char c \<longleftrightarrow> 33 \<le> (of_char c :: nat) \<and> (of_char c :: nat) \<le> 126"

lemma plain_not_ws:
  "33 \<le> b \<Longrightarrow> b \<le> 126 \<Longrightarrow> trim_left ws_seqs (b # bs) = b # bs"
  "33 \<le> b \<Longrightarrow> b \<le> 126 \<Longrightarrow> trim_left (map rev ws_seqs) (b # bs) = b # bs"
  by (simp_all add: trim_left.simps [of _ "b # bs"] ws_seqs_def)

lemma trim_left_spaces:
  "trim_left ws_seqs (replicate n 32 @ s) = trim_left ws_seqs s"
  "trim_left (map rev ws_seqs) (replicate n 32 @ s) = trim_left (map rev ws_seqs) s"
  by (induction n) (simp_all add: trim_left.simps [of _ "32 # _"] ws_seqs_def)

lemma char_of_blank [simp]: "char_of (32 :: nat) = CHR '' ''"
  by code_simp

lemma bytes_of_string_of [simp]: "string_of (bytes_of s) = s"
  by (simp add: string_of_def bytes_of_def comp_def)

lemma bytes_of_simps [simp]:
  "bytes_of [] = []" "bytes_of (c # s) = of_char c # bytes_of s"
  "bytes_of (s @ t) = bytes_of s @ bytes_of t"
  "bytes_of (replicate n CHR '' '') = replicate n 32"
  by (simp_all add: bytes_of_def)

text \<open>A word of visible ASCII characters loses exactly the blanks around it.\<close>

lemma trim_word:
  assumes "s \<noteq> []" and "plain_char (hd s)" and "plain_char (last s)"
  shows "trim (replicate i CHR '' '' @ s @ replicate j CHR '' '') = s"
proof -
  obtain c t where s: "s = c # t" using assms(1) by (cases s) auto
  obtain u d where s': "s = u @ [d]" using assms(1) by (cases s rule: rev_cases) auto
  have "trim_start (replicate i CHR '' '' @ s @ replicate j CHR '' '') = s @ replicate j CHR '' ''"
    using assms(2) s by (simp add: trim_start_def trim_left_spaces plain_not_ws plain_char_def
        string_of_def bytes_of_def comp_def)
  moreover have "trim_end (s @ replicate j CHR '' '') = s"
    using assms(3) s' by (simp add: trim_end_def trim_left_spaces plain_not_ws plain_char_def
        string_of_def bytes_of_def comp_def rev_map)
  ultimately show ?thesis by (simp add: trim_def)
qed

lemma digit_char_digit: "d < 10 \<Longrightarrow> is_ascii_digit (digit_char d)"
  by (simp add: is_ascii_digit_def digit_char_def)

lemma digit_char_value: "d < 10 \<Longrightarrow> of_char (digit_char d) - 48 = d"
  by (simp add: digit_char_def)

lemma show_nat_digits: "\<forall>c\<in>set (show_nat n). is_ascii_digit c"
proof (induction n rule: show_nat.induct)
  case (1 n)
  then show ?case
    by (cases "n < 10") (auto simp: show_nat.simps [of n] digit_char_digit)
qed

lemma show_nat_nonempty [simp]: "show_nat n \<noteq> []"
  by (simp add: show_nat.simps [of n])

lemma digits_value_show_nat [simp]: "digits_value (show_nat n) = n"
proof (induction n rule: show_nat.induct)
  case (1 n)
  then show ?case
    by (cases "n < 10")
      (auto simp: show_nat.simps [of n] digits_value_def digit_char_value)
qed

lemma digit_plain: "is_ascii_digit c \<Longrightarrow> plain_char c"
  by (simp add: is_ascii_digit_def plain_char_def)

lemma workers_visit_nonzero:
  "workers_visit_u64 n = Inr (Count c) \<Longrightarrow> c \<noteq> 0"
  "workers_visit_i64 m = Inr (Count c) \<Longrightarrow> c \<noteq> 0"
  by (auto simp: workers_visit_u64_def workers_visit_i64_def nonzero_new_def
      split: if_splits option.splits)

section \<open>Properties\<close>

text \<open>
  C28. The duration parser accepts exactly the strings that, trimmed, are a non-empty run of
  ASCII digits followed by a unit \<open>ms\<close>, \<open>s\<close>, \<open>m\<close> or \<open>h\<close> (with white space between), whose
  number fits an \<open>u64\<close> and whose seconds fit an \<open>u64\<close>; the value it returns is the number
  times the unit, exact to the nanosecond.
\<close>

theorem parse_grammar:
  "parse s = Inr d \<longleftrightarrow>
     (\<exists>ds rest u. trim s = ds @ rest \<and> ds \<noteq> [] \<and> list_all is_ascii_digit ds
        \<and> rest \<noteq> [] \<and> \<not> is_ascii_digit (hd rest)
        \<and> unit_nanos (trim rest) = Some u \<and> d = digits_value ds * u
        \<and> digits_value ds < 2 ^ 64
        \<and> (trim rest = ''ms'' \<or> digits_value ds * (u div 1000000000) < 2 ^ 64))"
  (is "?l \<longleftrightarrow> ?r")
proof
  assume ?l
  let ?ds = "takeWhile is_ascii_digit (trim s)" and ?rest = "dropWhile is_ascii_digit (trim s)"
  have split: "trim s = ?ds @ ?rest" by simp
  have ds: "?ds \<noteq> []" and rest: "?rest \<noteq> []"
    using \<open>?l\<close> by (auto simp: parse_def Let_def list_all_iff dropWhile_eq_Nil_conv split: if_splits)
  have digits: "\<forall>c\<in>set ?ds. is_ascii_digit c" by (auto dest: set_takeWhileD)
  have hd: "\<not> is_ascii_digit (hd ?rest)" using rest by (rule hd_dropWhile)
  from \<open>?l\<close> parse_split [OF split ds digits rest hd] obtain u where
    "digits_value ?ds < 2 ^ 64" "unit_nanos (trim ?rest) = Some u" "d = digits_value ?ds * u"
    "trim ?rest = ''ms'' \<or> digits_value ?ds * (u div 1000000000) < 2 ^ 64"
    by (auto split: if_splits option.splits)
  with split ds digits rest hd show ?r unfolding list_all_iff by blast
next
  assume ?r
  then show ?l by (auto simp: parse_split list_all_iff)
qed

text \<open>
  C29. Printing an \<open>u64\<close> and one of the units, with any number of blanks before, between and
  after, parses back to that many milliseconds, seconds, minutes or hours; a number of
  minutes or hours whose seconds do not fit an \<open>u64\<close> is an \<open>Overflow\<close> error.
\<close>

theorem parse_print_roundtrip:
  "parse (spaced i j k n ''ms'') = Inr (from_millis n)
    \<and> parse (spaced i j k n ''s'') = Inr (from_secs n)
    \<and> parse (spaced i j k n ''m'') = (case checked_mul n 60 of None \<Rightarrow> Inl Overflow
                          | Some s \<Rightarrow> Inr (from_secs s))
    \<and> parse (spaced i j k n ''h'') = (case checked_mul n 3600 of None \<Rightarrow> Inl Overflow
                          | Some s \<Rightarrow> Inr (from_secs s))"
proof -
  have shape: "parse (spaced i j k n u) =
      (case unit_nanos u of
         None \<Rightarrow> Inl (UnknownUnit u)
       | Some m \<Rightarrow> (if u = ''ms'' \<or> unat n * (m div 1000000000) < 2 ^ 64
                   then Inr (unat n * m) else Inl Overflow))"
    if u: "u \<noteq> []" "plain_char (hd u)" "plain_char (last u)" "\<not> is_ascii_digit (hd u)" for u
  proof -
    let ?ds = "show_nat (unat n)" and ?rest = "replicate j CHR '' '' @ u"
    have "plain_char (hd ?ds)"
      using show_nat_digits [of "unat n"] by (auto intro!: digit_plain)
    then have "trim (spaced i j k n u) = ?ds @ ?rest"
      using trim_word [of "?ds @ ?rest" i k] u by (simp add: spaced_def)
    moreover have "trim ?rest = u" using trim_word [of u j 0] u by simp
    moreover have "\<not> is_ascii_digit (hd ?rest)"
      using u(4) by (cases j) (auto simp: is_ascii_digit_def)
    ultimately show ?thesis
      using parse_split [of "spaced i j k n u" ?ds ?rest] show_nat_digits [of "unat n"]
        unat_bound [of n] u(1)
      by (simp add: not_le split: option.split)
  qed
  show ?thesis
    using unat_bound [of n]
    by (simp add: shape plain_char_def is_ascii_digit_def unit_nanos_def from_millis_def
        from_secs_def checked_mul_def unat_word_ariths)
qed

text \<open>
  A worker count that deserialises, from the string form or from a signed or unsigned
  integer, is never zero, so the resolved number of workers is at least one whatever
  parallelism the platform reports (a \<open>NonZeroUsize\<close> when it reports any).
\<close>

theorem workers_positive:
  assumes "workers_visit_str s = Inr w \<or> workers_visit_i64 m = Inr w \<or> workers_visit_u64 n = Inr w"
    and "\<forall>a. avail = Some a \<longrightarrow> a \<noteq> 0"
  shows "1 \<le> resolve_workers avail w"
proof -
  have "w = Auto \<or> (\<exists>c. w = Count c \<and> c \<noteq> 0)"
    using assms(1) workers_visit_nonzero
    by (cases w) (auto simp: workers_visit_str_def split: if_splits)
  then show ?thesis
    using assms(2) by (auto simp: resolve_workers_def word_le_nat_alt Suc_le_eq unat_gt_0
        split: option.splits)
qed

theorem workers_positive_witness:
  "1 \<le> resolve_workers (Some 8) (Count 4) \<and> 1 \<le> resolve_workers None Auto"
  using workers_positive [of "''4''" "Count 4" 0 4 "Some 8"]
    workers_positive [of "''auto''" Auto 0 0 None]
  by (simp add: workers_visit_u64_def workers_visit_str_def nonzero_new_def)

end
