(* ===== verification/Conduit_Config.thy ===== *)
theory Conduit_Config
  imports Conduit_Duration
begin

text \<open>
  \<^verbatim>\<open>conduit-config/src/schema.rs\<close> and \<^verbatim>\<open>error.rs\<close>: the typed shape of the configuration
  document, one record per struct and one datatype per enum, with the serde defaults. The
  TOML reader is the \<open>toml\<close> crate; what serde's \<open>default\<close> attributes add is modelled by the
  \<open>de_\<close> functions, which take the optional fields of a parsed table. Paths are strings.
\<close>

section \<open>Socket addresses\<close>

text \<open>\<open>std::net::SocketAddr\<close>: IPv4 octets, or the eight IPv6 groups with the scope id.\<close>

datatype socket_addr =
    SocketAddrV4 u8 u8 u8 u8 u16
  | SocketAddrV6 "u16 list" u32 u16

text \<open>
  \<open>ToString\<close> of an address. IPv6: the first longest run of at least two zero groups is
  written \<open>::\<close>, an IPv4-mapped address ends in dotted form, and a non-zero scope follows a
  percent sign.
\<close>

definition hex_char :: "nat \<Rightarrow> char" where
  "hex_char d = (if d < 10 then char_of (48 + d) else char_of (87 + d))"

fun show_hex :: "nat \<Rightarrow> string" where
  "show_hex n = (if n < 16 then [hex_char n] else show_hex (n div 16) @ [hex_char (n mod 16)])"

declare show_hex.simps [simp del]

fun join_str :: "string \<Rightarrow> string list \<Rightarrow> string" where
  "join_str sep [] = []"
| "join_str sep [x] = x"
| "join_str sep (x # y # ys) = x @ sep @ join_str sep (y # ys)"

definition show_ipv4 :: "nat list \<Rightarrow> string" where
  "show_ipv4 octets = join_str ''.'' (map show_nat octets)"

text \<open>The longest run of zeros, as start and length; the pairs are the best and the current run.\<close>

fun zero_span :: "nat list \<Rightarrow> nat \<Rightarrow> nat \<times> nat \<Rightarrow> nat \<times> nat \<Rightarrow> nat \<times> nat" where
  "zero_span [] i longest current = longest"
| "zero_span (g # gs) i (ls, ll) (cs, cl) =
     (if g = 0 then
        (let cs = (if cl = 0 then i else cs); cl = cl + 1 in
         if ll < cl then zero_span gs (i + 1) (cs, cl) (cs, cl)
         else zero_span gs (i + 1) (ls, ll) (cs, cl))
      else zero_span gs (i + 1) (ls, ll) (0, 0))"

definition show_ipv6 :: "nat list \<Rightarrow> string" where
  "show_ipv6 gs =
     (if take 6 gs = [0, 0, 0, 0, 0, 65535] then
        ''::ffff:'' @ show_ipv4 (concat (map (\<lambda>g. [g div 256, g mod 256]) (drop 6 gs)))
      else (case zero_span gs 0 (0, 0) (0, 0) of
              (start, len) \<Rightarrow>
                if 1 < len then
                  join_str '':'' (map show_hex (take start gs)) @ ''::''
                  @ join_str '':'' (map show_hex (drop (start + len) gs))
                else join_str '':'' (map show_hex gs)))"

fun addr_to_string :: "socket_addr \<Rightarrow> string" where
  "addr_to_string (SocketAddrV4 a b c d port) =
     show_ipv4 (map unat [a, b, c, d]) @ '':'' @ show_nat (unat port)"
| "addr_to_string (SocketAddrV6 gs scope port) =
     ''['' @ show_ipv6 (map unat gs) @ (if scope = 0 then [] else ''%'' @ show_nat (unat scope))
     @ '']:'' @ show_nat (unat port)"

section \<open>Schema\<close>

datatype runtime_mode = Monoio | Tokio

definition runtime_mode_default :: runtime_mode where
  "runtime_mode_default = Monoio"

record server_config =
  sc_runtime :: runtime_mode
  sc_workers :: workers
  sc_cpu_affinity :: bool
  sc_listen_http :: "socket_addr list"
  sc_listen_https :: "socket_addr list"
  sc_listen_h3 :: "socket_addr list"
  sc_admin_listen :: socket_addr
  sc_metrics_listen :: socket_addr

datatype tls_min_version = V1_2 | V1_3

definition tls_min_version_default :: tls_min_version where
  "tls_min_version_default = V1_2"

record cert_spec =
  cs_sni :: string
  cs_cert :: string
  cs_key :: string
  cs_ocsp_response :: "string option"

record tls_config =
  tc_certs :: "cert_spec list"
  tc_min_version :: tls_min_version
  tc_alpn :: "string list"
  tc_session_tickets :: bool
  tc_ocsp_stapling :: bool
  tc_enable_0rtt :: bool

datatype upstream_protocol = Http1 | H2

datatype load_balancer = RoundRobin | LeastConn | P2c | ConsistentHash

definition load_balancer_default :: load_balancer where
  "load_balancer_default = RoundRobin"

record upstream_tls =
  ut_server_name :: "string option"
  ut_ca :: "string option"
  ut_client_cert :: "string option"
  ut_client_key :: "string option"
  ut_verify :: bool

record pool_limits =
  pl_max_idle_per_host :: u32
  pl_idle_timeout :: duration_str
  pl_max_lifetime :: duration_str

record health_check =
  hc_path :: string
  hc_interval :: duration_str
  hc_timeout :: duration_str
  hc_unhealthy_threshold :: u32
  hc_healthy_threshold :: u32

record upstream_cfg =
  uc_name :: string
  uc_addrs :: "socket_addr list"
  uc_protocol :: upstream_protocol
  uc_tls :: "upstream_tls option"
  uc_lb :: load_balancer
  uc_pool :: pool_limits
  uc_connect_timeout :: duration_str
  uc_health_check :: "health_check option"

record header_match =
  hm_name :: string
  hm_value :: string

record route_match =
  rm_host :: "string option"
  rm_path_prefix :: "string option"
  rm_path_exact :: "string option"
  rm_path_regex :: "string option"
  rm_headers :: "header_match list"

record timeouts =
  to_connect :: duration_str
  to_read :: duration_str
  to_write :: duration_str
  to_total :: duration_str

record retry_cfg =
  rc_attempts :: u32
  rc_on_status :: "u16 list"
  rc_on_connect_error :: bool

text \<open>\<open>toml::value::Table\<close>, which this crate keeps inert, is an opaque type.\<close>

typedecl toml_table

record filter_cfg =
  fc_kind :: string
  fc_params :: toml_table

record route_cfg =
  ro_match :: route_match
  ro_upstream :: string
  ro_timeouts :: timeouts
  ro_retry :: "retry_cfg option"
  ro_filters :: "filter_cfg list"

record config =
  cf_server :: server_config
  cf_tls :: "tls_config option"
  cf_upstreams :: "upstream_cfg list"
  cf_routes :: "route_cfg list"

section \<open>Defaults\<close>

definition default_alpn :: "string list" where
  "default_alpn = [''h3'', ''h2'', ''http/1.1'']"

definition default_connect_timeout :: duration_str where
  "default_connect_timeout = dstr_from_secs 2"

definition default_pool_max_idle :: u32 where
  "default_pool_max_idle = 64"

definition default_pool_idle_timeout :: duration_str where
  "default_pool_idle_timeout = dstr_from_secs 60"

definition default_pool_max_lifetime :: duration_str where
  "default_pool_max_lifetime = dstr_from_secs 600"

definition default_hc_path :: string where
  "default_hc_path = ''/healthz''"

definition default_hc_timeout :: duration_str where
  "default_hc_timeout = dstr_from_secs 2"

definition default_hc_unhealthy_threshold :: u32 where
  "default_hc_unhealthy_threshold = 3"

definition default_hc_healthy_threshold :: u32 where
  "default_hc_healthy_threshold = 1"

definition default_timeout_connect :: duration_str where
  "default_timeout_connect = dstr_from_secs 2"

definition default_timeout_read :: duration_str where
  "default_timeout_read = dstr_from_secs 30"

definition default_timeout_write :: duration_str where
  "default_timeout_write = dstr_from_secs 30"

definition default_timeout_total :: duration_str where
  "default_timeout_total = dstr_from_secs 60"

definition pool_limits_default :: pool_limits where
  "pool_limits_default =
     \<lparr>pl_max_idle_per_host = default_pool_max_idle,
      pl_idle_timeout = default_pool_idle_timeout,
      pl_max_lifetime = default_pool_max_lifetime\<rparr>"

definition timeouts_default :: timeouts where
  "timeouts_default =
     \<lparr>to_connect = default_timeout_connect,
      to_read = default_timeout_read,
      to_write = default_timeout_write,
      to_total = default_timeout_total\<rparr>"

text \<open>\<open>#[serde(default = f)]\<close>: a missing key takes the default.\<close>

definition or_default :: "'a \<Rightarrow> 'a option \<Rightarrow> 'a" where
  "or_default d x = (case x of None \<Rightarrow> d | Some v \<Rightarrow> v)"

definition de_server_config ::
  "runtime_mode option \<Rightarrow> workers option \<Rightarrow> bool option \<Rightarrow> socket_addr list option
   \<Rightarrow> socket_addr list option \<Rightarrow> socket_addr list option \<Rightarrow> socket_addr \<Rightarrow> socket_addr
   \<Rightarrow> server_config" where
  "de_server_config runtime workers cpu http https h3 admin metrics =
     \<lparr>sc_runtime = or_default runtime_mode_default runtime,
      sc_workers = or_default workers_default workers,
      sc_cpu_affinity = or_default True cpu,
      sc_listen_http = or_default [] http,
      sc_listen_https = or_default [] https,
      sc_listen_h3 = or_default [] h3,
      sc_admin_listen = admin,
      sc_metrics_listen = metrics\<rparr>"

definition de_tls_config ::
  "cert_spec list \<Rightarrow> tls_min_version option \<Rightarrow> string list option \<Rightarrow> bool option
   \<Rightarrow> bool option \<Rightarrow> bool option \<Rightarrow> tls_config" where
  "de_tls_config certs minv alpn tickets ocsp zrtt =
     \<lparr>tc_certs = certs,
      tc_min_version = or_default tls_min_version_default minv,
      tc_alpn = or_default default_alpn alpn,
      tc_session_tickets = or_default True tickets,
      tc_ocsp_stapling = or_default True ocsp,
      tc_enable_0rtt = or_default False zrtt\<rparr>"

definition de_upstream_tls ::
  "string option \<Rightarrow> string option \<Rightarrow> string option \<Rightarrow> string option \<Rightarrow> bool option
   \<Rightarrow> upstream_tls" where
  "de_upstream_tls sn ca cert key verify =
     \<lparr>ut_server_name = sn, ut_ca = ca, ut_client_cert = cert, ut_client_key = key,
      ut_verify = or_default True verify\<rparr>"

definition de_pool_limits ::
  "u32 option \<Rightarrow> duration_str option \<Rightarrow> duration_str option \<Rightarrow> pool_limits" where
  "de_pool_limits mi it ml =
     \<lparr>pl_max_idle_per_host = or_default default_pool_max_idle mi,
      pl_idle_timeout = or_default default_pool_idle_timeout it,
      pl_max_lifetime = or_default default_pool_max_lifetime ml\<rparr>"

definition de_health_check ::
  "string option \<Rightarrow> duration_str \<Rightarrow> duration_str option \<Rightarrow> u32 option \<Rightarrow> u32 option
   \<Rightarrow> health_check" where
  "de_health_check path interval timeout unhealthy healthy =
     \<lparr>hc_path = or_default default_hc_path path,
      hc_interval = interval,
      hc_timeout = or_default default_hc_timeout timeout,
      hc_unhealthy_threshold = or_default default_hc_unhealthy_threshold unhealthy,
      hc_healthy_threshold = or_default default_hc_healthy_threshold healthy\<rparr>"

definition de_upstream_cfg ::
  "string \<Rightarrow> socket_addr list \<Rightarrow> upstream_protocol \<Rightarrow> upstream_tls option
   \<Rightarrow> load_balancer option \<Rightarrow> pool_limits option \<Rightarrow> duration_str option
   \<Rightarrow> health_check option \<Rightarrow> upstream_cfg" where
  "de_upstream_cfg name addrs proto tls lb pool connect hc =
     \<lparr>uc_name = name, uc_addrs = addrs, uc_protocol = proto, uc_tls = tls,
      uc_lb = or_default load_balancer_default lb,
      uc_pool = or_default pool_limits_default pool,
      uc_connect_timeout = or_default default_connect_timeout connect,
      uc_health_check = hc\<rparr>"

definition de_timeouts ::
  "duration_str option \<Rightarrow> duration_str option \<Rightarrow> duration_str option \<Rightarrow> duration_str option
   \<Rightarrow> timeouts" where
  "de_timeouts c r w t =
     \<lparr>to_connect = or_default default_timeout_connect c,
      to_read = or_default default_timeout_read r,
      to_write = or_default default_timeout_write w,
      to_total = or_default default_timeout_total t\<rparr>"

definition de_retry_cfg :: "u32 \<Rightarrow> u16 list option \<Rightarrow> bool option \<Rightarrow> retry_cfg" where
  "de_retry_cfg attempts on_status on_connect =
     \<lparr>rc_attempts = attempts, rc_on_status = or_default [] on_status,
      rc_on_connect_error = or_default False on_connect\<rparr>"

definition de_route_cfg ::
  "route_match \<Rightarrow> string \<Rightarrow> timeouts option \<Rightarrow> retry_cfg option \<Rightarrow> filter_cfg list option
   \<Rightarrow> route_cfg" where
  "de_route_cfg m u t r fs =
     \<lparr>ro_match = m, ro_upstream = u, ro_timeouts = or_default timeouts_default t,
      ro_retry = r, ro_filters = or_default [] fs\<rparr>"

definition de_config ::
  "server_config \<Rightarrow> tls_config option \<Rightarrow> upstream_cfg list option \<Rightarrow> route_cfg list option
   \<Rightarrow> config" where
  "de_config server tls upstreams routes =
     \<lparr>cf_server = server, cf_tls = tls, cf_upstreams = or_default [] upstreams,
      cf_routes = or_default [] routes\<rparr>"

section \<open>Errors\<close>

text \<open>\<open>ConfigError\<close>. The wrapped I/O and TOML errors are their rendered text.\<close>

datatype config_error =
    Read string string
  | Toml string
  | UnknownUpstream nat string
  | UpstreamNoAddrs nat string
  | DuplicateUpstream string
  | NoRoutes
  | TlsRequired
  | TlsNoCerts
  | CertMissing string string
  | KeyMissing string string
  | RouteMatchEmpty nat
  | RoutePathConflict nat
  | RetryAttemptsZero nat
  | UpstreamMtlsMismatch string
  | UpstreamInsecureTlsNotOptedIn string
  | HealthCheckBadDuration string string

section \<open>Lemmas\<close>

lemma or_default_simps [simp]: "or_default d None = d" "or_default d (Some v) = v"
  by (simp_all add: or_default_def)

text \<open>
  The hand-written \<open>Default\<close> instances agree with what deserialising an empty table gives,
  so an omitted sub-table and an empty one mean the same.
\<close>

lemma default_instances_agree:
  "de_timeouts None None None None = timeouts_default"
  "de_pool_limits None None None = pool_limits_default"
  by (simp_all add: de_timeouts_def timeouts_default_def de_pool_limits_def pool_limits_default_def)

end
