(* ===== verification/Conduit_Http.thy ===== *)
theory Conduit_Http
  imports Conduit_Config
begin

text \<open>
  The vocabulary of \<open>http\<close>, \<open>hyper\<close> and \<open>regex\<close> that the crates pass around. Requests and
  URIs are records; the operations of the third-party crates are the fields of one record,
  \<open>crates\<close>, which every definition that calls them takes as an argument. \<open>crates_ok\<close>
  collects what their documentation promises and the code relies on; \<open>sample_crates\<close> is an
  instance that satisfies it, for the witnesses.
\<close>

section \<open>Requests\<close>

record uri =
  uri_scheme :: "string option"
  uri_authority :: "string option"
  uri_path_and_query :: "string option"

datatype http_version = HTTP_09 | HTTP_10 | HTTP_11 | HTTP_2 | HTTP_3

text \<open>
  A request body as \<open>Upstream::forward\<close> sees it: the exact size its hint reports, if any,
  and what collecting it yields (an error message or the bytes).
\<close>

record body_source =
  bs_size_exact :: "nat option"
  bs_collect :: "string + string"

record 'hm request =
  rq_method :: string
  rq_uri :: uri
  rq_version :: http_version
  rq_headers :: 'hm
  rq_body :: body_source

record ('hm, 'b) response =
  rs_status :: "16 word"
  rs_headers :: 'hm
  rs_body :: 'b

section \<open>Third-party operations\<close>

record ('re, 'hm) crates =
  regex_new :: "string \<Rightarrow> 're option"
  regex_is_match :: "'re \<Rightarrow> string \<Rightarrow> bool"
  header_name_try_from :: "string \<Rightarrow> string option"
  header_value_try_from :: "string \<Rightarrow> string option"
  header_get :: "'hm \<Rightarrow> string \<Rightarrow> string option"
  header_remove :: "string \<Rightarrow> 'hm \<Rightarrow> 'hm"
  header_map_of :: "(string \<times> string) list \<Rightarrow> 'hm"
  header_to_str :: "string \<Rightarrow> string option"
  uri_path :: "uri \<Rightarrow> string"
  uri_from_parts :: "uri \<Rightarrow> string + uri"
  authority_try_from :: "string \<Rightarrow> string option"

abbreviation HOST :: string where
  "HOST \<equiv> ''host''"

text \<open>
  Documented behaviour: removing a header name removes all its values and no others;
  \<open>Uri::from_parts\<close> accepts a complete set of parts and keeps them.
\<close>

definition crates_ok :: "('re, 'hm) crates \<Rightarrow> bool" where
  "crates_ok X \<longleftrightarrow>
     (\<forall>h n m. header_get X (header_remove X n h) m = (if m = n then None else header_get X h m))
     \<and> (\<forall>p. uri_scheme p \<noteq> None \<and> uri_authority p \<noteq> None \<and> uri_path_and_query p \<noteq> None
          \<longrightarrow> uri_from_parts X p = Inr p)"

section \<open>Status codes\<close>

text \<open>\<open>StatusCode\<close> wraps an \<open>u16\<close> between 100 and 999; the class tests divide by 100.\<close>

type_synonym status = u16

definition is_server_error :: "status \<Rightarrow> bool" where
  "is_server_error s \<longleftrightarrow> 500 \<le> s \<and> s < 600"

definition is_success :: "status \<Rightarrow> bool" where
  "is_success s \<longleftrightarrow> 200 \<le> s \<and> s < 300"

section \<open>A concrete instance\<close>

text \<open>
  Headers as an association list with lower-case names, the first value winning; a
  ``regular expression'' is a literal path prefix and the empty pattern does not compile.
\<close>

definition sample_crates :: "(string, (string \<times> string) list) crates" where
  "sample_crates =
     \<lparr>regex_new = (\<lambda>s. if s = [] then None else Some s),
      regex_is_match = (\<lambda>re path. starts_with path re),
      header_name_try_from = (\<lambda>s. if s = [] then None else Some (to_ascii_lowercase s)),
      header_value_try_from = Some,
      header_get = map_of,
      header_remove = (\<lambda>n h. filter (\<lambda>(k, v). k \<noteq> n) h),
      header_map_of = id,
      header_to_str = Some,
      uri_path = (\<lambda>u. case uri_path_and_query u of None \<Rightarrow> ''/''
                       | Some p \<Rightarrow> takeWhile (\<lambda>c. c \<noteq> CHR ''?'') p),
      uri_from_parts = (\<lambda>p. if uri_scheme p \<noteq> None \<and> uri_authority p \<noteq> None
                              \<and> uri_path_and_query p \<noteq> None
                            then Inr p else Inl ''invalid uri parts''),
      authority_try_from = Some\<rparr>"

text \<open>The document of the README's quick start, and variations the witnesses use.\<close>

definition sample_addr :: "u8 \<Rightarrow> socket_addr" where
  "sample_addr d = SocketAddrV4 10 0 0 d 8080"

definition sample_server :: server_config where
  "sample_server = de_server_config None None None (Some [SocketAddrV4 0 0 0 0 8080]) None None
     (SocketAddrV4 127 0 0 1 9090) (SocketAddrV4 127 0 0 1 9091)"

definition sample_upstream :: "string \<Rightarrow> upstream_cfg" where
  "sample_upstream name =
     de_upstream_cfg name [sample_addr 1, sample_addr 2] Http1 None None None None None"

definition sample_match :: "string option \<Rightarrow> string option \<Rightarrow> route_match" where
  "sample_match host pfx =
     \<lparr>rm_host = host, rm_path_prefix = pfx, rm_path_exact = None, rm_path_regex = None,
      rm_headers = []\<rparr>"

definition sample_route :: "route_match \<Rightarrow> string \<Rightarrow> route_cfg" where
  "sample_route m u = de_route_cfg m u None None None"

definition sample_config :: config where
  "sample_config =
     de_config sample_server None (Some [sample_upstream ''origin''])
       (Some [sample_route (sample_match (Some ''localhost'') (Some ''/'')) ''origin''])"

definition sample_request :: "(string \<times> string) list \<Rightarrow> string \<Rightarrow> (string \<times> string) list request" where
  "sample_request headers path =
     \<lparr>rq_method = ''GET'',
      rq_uri = \<lparr>uri_scheme = None, uri_authority = None, uri_path_and_query = Some path\<rparr>,
      rq_version = HTTP_11, rq_headers = headers,
      rq_body = \<lparr>bs_size_exact = Some 0, bs_collect = Inr []\<rparr>\<rparr>"

lemmas sample_defs = sample_crates_def sample_addr_def sample_server_def sample_upstream_def
  sample_match_def sample_route_def sample_config_def sample_request_def
  de_server_config_def de_upstream_cfg_def de_route_cfg_def de_config_def

lemma sample_crates_ok: "crates_ok sample_crates"
proof -
  have "map_of (filter (\<lambda>(k, v). k \<noteq> n) h) m = (if m = n then None else map_of h m)"
    for h :: "(string \<times> string) list" and n m
    by (induction h) auto
  then show ?thesis by (auto simp: crates_ok_def sample_crates_def)
qed

end
