(* ===== verification/Conduit_Validate.thy ===== *)
theory Conduit_Validate
  imports Conduit_Http
begin

text \<open>
  \<^verbatim>\<open>conduit-config/src/validate.rs\<close> and \<^verbatim>\<open>lib.rs\<close>: semantic validation and the entry points
  \<open>parse\<close> and \<open>load\<close>. The TOML deserialiser, the file system and the environment are
  arguments. The lemmas compare the sequential checks with a declarative description of a
  valid document and say what every error value reports.
\<close>

section \<open>Model\<close>

record validation_options =
  vo_allow_insecure_tls :: bool

text \<open>The checks of one upstream's \<open>[upstream.tls]\<close> block.\<close>

definition check_upstream_tls :: "validation_options \<Rightarrow> upstream_cfg \<Rightarrow> config_error + unit" where
  "check_upstream_tls opts u =
     (case uc_tls u of
        None \<Rightarrow> Inr ()
      | Some tls \<Rightarrow>
          if (ut_client_cert tls \<noteq> None) \<noteq> (ut_client_key tls \<noteq> None)
          then Inl (UpstreamMtlsMismatch (uc_name u))
          else if \<not> ut_verify tls \<and> \<not> vo_allow_insecure_tls opts
          then Inl (UpstreamInsecureTlsNotOptedIn (uc_name u))
          else Inr ())"

definition check_upstream_health :: "upstream_cfg \<Rightarrow> config_error + unit" where
  "check_upstream_health u =
     (case uc_health_check u of
        None \<Rightarrow> Inr ()
      | Some hc \<Rightarrow>
          if dstr_get (hc_interval hc) = 0
          then Inl (HealthCheckBadDuration (uc_name u) ''interval'')
          else if dstr_get (hc_timeout hc) = 0
          then Inl (HealthCheckBadDuration (uc_name u) ''timeout'')
          else Inr ())"

text \<open>The loop over \<open>cfg.upstreams\<close>; it returns the set of names it has seen.\<close>

fun check_upstreams ::
  "validation_options \<Rightarrow> nat \<Rightarrow> string set \<Rightarrow> upstream_cfg list \<Rightarrow> config_error + string set" where
  "check_upstreams opts i seen [] = Inr seen"
| "check_upstreams opts i seen (u # us) =
     (if uc_addrs u = [] then Inl (UpstreamNoAddrs i (uc_name u))
      else if uc_name u \<in> seen then Inl (DuplicateUpstream (uc_name u))
      else case check_upstream_tls opts u of
        Inl e \<Rightarrow> Inl e
      | Inr _ \<Rightarrow> (case check_upstream_health u of
          Inl e \<Rightarrow> Inl e
        | Inr _ \<Rightarrow> check_upstreams opts (Suc i) (insert (uc_name u) seen) us))"

text \<open>The loop over \<open>cfg.routes\<close>.\<close>

fun check_routes :: "nat \<Rightarrow> string set \<Rightarrow> route_cfg list \<Rightarrow> config_error + unit" where
  "check_routes i seen [] = Inr ()"
| "check_routes i seen (r # rs) =
     (let m = ro_match r;
          has_host = rm_host m \<noteq> None;
          has_path = rm_path_prefix m \<noteq> None \<or> rm_path_exact m \<noteq> None \<or> rm_path_regex m \<noteq> None
      in
      if ro_upstream r \<notin> seen then Inl (UnknownUpstream i (ro_upstream r))
      else if \<not> has_host \<and> \<not> has_path then Inl (RouteMatchEmpty i)
      else if rm_path_prefix m \<noteq> None \<and> rm_path_exact m \<noteq> None then Inl (RoutePathConflict i)
      else if (case ro_retry r of None \<Rightarrow> False | Some p \<Rightarrow> rc_attempts p = 0)
      then Inl (RetryAttemptsZero i)
      else check_routes (Suc i) seen rs)"

definition check_tls_section :: "config \<Rightarrow> config_error + unit" where
  "check_tls_section cfg =
     (let needs_tls = sc_listen_https (cf_server cfg) \<noteq> [] \<or> sc_listen_h3 (cf_server cfg) \<noteq> [] in
      case cf_tls cfg of
        None \<Rightarrow> if needs_tls then Inl TlsRequired else Inr ()
      | Some t \<Rightarrow> if tc_certs t = [] then Inl TlsNoCerts else Inr ())"

definition check_logic :: "config \<Rightarrow> validation_options \<Rightarrow> config_error + unit" where
  "check_logic cfg opts =
     (if cf_routes cfg = [] then Inl NoRoutes
      else case check_upstreams opts 0 {} (cf_upstreams cfg) of
        Inl e \<Rightarrow> Inl e
      | Inr seen \<Rightarrow> (case check_routes 0 seen (cf_routes cfg) of
          Inl e \<Rightarrow> Inl e
        | Inr _ \<Rightarrow> check_tls_section cfg))"

text \<open>\<open>Path::is_file\<close> is the first argument.\<close>

fun check_certs :: "(string \<Rightarrow> bool) \<Rightarrow> cert_spec list \<Rightarrow> config_error + unit" where
  "check_certs is_file [] = Inr ()"
| "check_certs is_file (c # cs) =
     (if \<not> is_file (cs_cert c) then Inl (CertMissing (cs_sni c) (cs_cert c))
      else if \<not> is_file (cs_key c) then Inl (KeyMissing (cs_sni c) (cs_key c))
      else check_certs is_file cs)"

definition check_filesystem :: "(string \<Rightarrow> bool) \<Rightarrow> config \<Rightarrow> config_error + unit" where
  "check_filesystem is_file cfg =
     (case cf_tls cfg of None \<Rightarrow> Inr () | Some tls \<Rightarrow> check_certs is_file (tc_certs tls))"

text \<open>\<open>check\<close>; \<open>env\<close> is the value of \<open>CONDUIT_ALLOW_INSECURE_TLS\<close>, if set.\<close>

definition check :: "string option \<Rightarrow> (string \<Rightarrow> bool) \<Rightarrow> config \<Rightarrow> config_error + unit" where
  "check env is_file cfg =
     (let opts = \<lparr>vo_allow_insecure_tls = (env = Some ''1'')\<rparr> in
      case check_logic cfg opts of
        Inl e \<Rightarrow> Inl e
      | Inr _ \<Rightarrow> check_filesystem is_file cfg)"

text \<open>The \<open>toml\<close> crate and \<open>fs::read_to_string\<close> are arguments, failing with a message.\<close>

definition parse_config ::
  "(string \<Rightarrow> string + config) \<Rightarrow> string option \<Rightarrow> (string \<Rightarrow> bool) \<Rightarrow> string
   \<Rightarrow> config_error + config" where
  "parse_config from_str env is_file text =
     (case from_str text of
        Inl e \<Rightarrow> Inl (Toml e)
      | Inr cfg \<Rightarrow> (case check env is_file cfg of Inl e \<Rightarrow> Inl e | Inr _ \<Rightarrow> Inr cfg))"

definition load_config ::
  "(string \<Rightarrow> string + string) \<Rightarrow> (string \<Rightarrow> string + config) \<Rightarrow> string option \<Rightarrow> (string \<Rightarrow> bool)
   \<Rightarrow> string \<Rightarrow> config_error + config" where
  "load_config read_to_string from_str env is_file path =
     (case read_to_string path of
        Inl e \<Rightarrow> Inl (Read path e)
      | Inr text \<Rightarrow> parse_config from_str env is_file text)"

section \<open>Declarative description\<close>

definition upstream_ok :: "validation_options \<Rightarrow> upstream_cfg \<Rightarrow> bool" where
  "upstream_ok opts u \<longleftrightarrow>
     uc_addrs u \<noteq> []
     \<and> (\<forall>t. uc_tls u = Some t \<longrightarrow>
          ((ut_client_cert t = None) = (ut_client_key t = None))
          \<and> (ut_verify t \<or> vo_allow_insecure_tls opts))
     \<and> (\<forall>hc. uc_health_check u = Some hc \<longrightarrow>
          0 < dstr_get (hc_interval hc) \<and> 0 < dstr_get (hc_timeout hc))"

definition route_ok :: "string set \<Rightarrow> route_cfg \<Rightarrow> bool" where
  "route_ok names r \<longleftrightarrow>
     ro_upstream r \<in> names
     \<and> (rm_host (ro_match r) \<noteq> None \<or> rm_path_prefix (ro_match r) \<noteq> None
        \<or> rm_path_exact (ro_match r) \<noteq> None \<or> rm_path_regex (ro_match r) \<noteq> None)
     \<and> (rm_path_prefix (ro_match r) = None \<or> rm_path_exact (ro_match r) = None)
     \<and> (\<forall>p. ro_retry r = Some p \<longrightarrow> rc_attempts p \<noteq> 0)"

definition upstream_names :: "config \<Rightarrow> string set" where
  "upstream_names cfg = set (map uc_name (cf_upstreams cfg))"

definition config_valid :: "validation_options \<Rightarrow> config \<Rightarrow> bool" where
  "config_valid opts cfg \<longleftrightarrow>
     cf_routes cfg \<noteq> []
     \<and> list_all (upstream_ok opts) (cf_upstreams cfg)
     \<and> distinct (map uc_name (cf_upstreams cfg))
     \<and> list_all (route_ok (upstream_names cfg)) (cf_routes cfg)
     \<and> (sc_listen_https (cf_server cfg) \<noteq> [] \<or> sc_listen_h3 (cf_server cfg) \<noteq> []
          \<longrightarrow> cf_tls cfg \<noteq> None)
     \<and> (\<forall>t. cf_tls cfg = Some t \<longrightarrow> tc_certs t \<noteq> [])"

text \<open>What each error value says about the document, the first fault in the code's order.\<close>

fun error_describes :: "validation_options \<Rightarrow> config \<Rightarrow> config_error \<Rightarrow> bool" where
  "error_describes opts cfg NoRoutes = (cf_routes cfg = [])"
| "error_describes opts cfg (UpstreamNoAddrs i n) =
     (i < length (cf_upstreams cfg) \<and> uc_name (cf_upstreams cfg ! i) = n
      \<and> uc_addrs (cf_upstreams cfg ! i) = []
      \<and> list_all (upstream_ok opts) (take i (cf_upstreams cfg)))"
| "error_describes opts cfg (DuplicateUpstream n) =
     (\<exists>i j. i < j \<and> j < length (cf_upstreams cfg) \<and> uc_name (cf_upstreams cfg ! i) = n
        \<and> uc_name (cf_upstreams cfg ! j) = n)"
| "error_describes opts cfg (UpstreamMtlsMismatch n) =
     (\<exists>u\<in>set (cf_upstreams cfg). uc_name u = n \<and> (\<exists>t. uc_tls u = Some t
        \<and> (ut_client_cert t = None) \<noteq> (ut_client_key t = None)))"
| "error_describes opts cfg (UpstreamInsecureTlsNotOptedIn n) =
     (\<not> vo_allow_insecure_tls opts \<and>
      (\<exists>u\<in>set (cf_upstreams cfg). uc_name u = n \<and> (\<exists>t. uc_tls u = Some t \<and> \<not> ut_verify t)))"
| "error_describes opts cfg (HealthCheckBadDuration n f) =
     (\<exists>u\<in>set (cf_upstreams cfg). uc_name u = n \<and> (\<exists>hc. uc_health_check u = Some hc
        \<and> (f = ''interval'' \<and> dstr_get (hc_interval hc) = 0
           \<or> f = ''timeout'' \<and> dstr_get (hc_timeout hc) = 0)))"
| "error_describes opts cfg (UnknownUpstream i n) =
     (i < length (cf_routes cfg) \<and> ro_upstream (cf_routes cfg ! i) = n
      \<and> n \<notin> upstream_names cfg
      \<and> list_all (route_ok (upstream_names cfg)) (take i (cf_routes cfg)))"
| "error_describes opts cfg (RouteMatchEmpty i) =
     (i < length (cf_routes cfg)
      \<and> rm_host (ro_match (cf_routes cfg ! i)) = None
      \<and> rm_path_prefix (ro_match (cf_routes cfg ! i)) = None
      \<and> rm_path_exact (ro_match (cf_routes cfg ! i)) = None
      \<and> rm_path_regex (ro_match (cf_routes cfg ! i)) = None
      \<and> list_all (route_ok (upstream_names cfg)) (take i (cf_routes cfg)))"
| "error_describes opts cfg (RoutePathConflict i) =
     (i < length (cf_routes cfg)
      \<and> rm_path_prefix (ro_match (cf_routes cfg ! i)) \<noteq> None
      \<and> rm_path_exact (ro_match (cf_routes cfg ! i)) \<noteq> None
      \<and> list_all (route_ok (upstream_names cfg)) (take i (cf_routes cfg)))"
| "error_describes opts cfg (RetryAttemptsZero i) =
     (i < length (cf_routes cfg)
      \<and> (\<exists>p. ro_retry (cf_routes cfg ! i) = Some p \<and> rc_attempts p = 0)
      \<and> list_all (route_ok (upstream_names cfg)) (take i (cf_routes cfg)))"
| "error_describes opts cfg TlsRequired =
     (cf_tls cfg = None
      \<and> (sc_listen_https (cf_server cfg) \<noteq> [] \<or> sc_listen_h3 (cf_server cfg) \<noteq> []))"
| "error_describes opts cfg TlsNoCerts = (\<exists>t. cf_tls cfg = Some t \<and> tc_certs t = [])"
| "error_describes opts cfg _ = False"

section \<open>Lemmas\<close>

lemma check_upstream_tls_health_ok:
  "check_upstream_tls opts u = Inr () \<and> check_upstream_health u = Inr () \<and> uc_addrs u \<noteq> []
   \<longleftrightarrow> upstream_ok opts u"
  by (auto simp: check_upstream_tls_def check_upstream_health_def upstream_ok_def
      split: option.splits)

lemma check_upstreams_Inr_iff:
  "check_upstreams opts i seen us = Inr out \<longleftrightarrow>
     list_all (upstream_ok opts) us \<and> distinct (map uc_name us)
     \<and> seen \<inter> set (map uc_name us) = {} \<and> out = seen \<union> set (map uc_name us)"
proof (induction us arbitrary: i seen)
  case (Cons u us)
  have "check_upstreams opts i seen (u # us) = Inr out \<longleftrightarrow>
      upstream_ok opts u \<and> uc_name u \<notin> seen
      \<and> check_upstreams opts (Suc i) (insert (uc_name u) seen) us = Inr out"
    using check_upstream_tls_health_ok [of opts u] by (auto split: sum.splits)
  then show ?case by (auto simp: Cons.IH)
qed auto

lemma check_routes_Inr_iff:
  "check_routes i seen rs = Inr () \<longleftrightarrow> list_all (route_ok seen) rs"
  by (induction rs arbitrary: i) (auto simp: route_ok_def Let_def split: option.splits)

lemma check_upstreams_ok: "check_upstreams opts 0 {} us = Inr out \<longleftrightarrow>
    list_all (upstream_ok opts) us \<and> distinct (map uc_name us) \<and> out = set (map uc_name us)"
  by (simp add: check_upstreams_Inr_iff)

lemma check_tls_section_Inr_iff:
  "check_tls_section cfg = Inr () \<longleftrightarrow>
     (sc_listen_https (cf_server cfg) \<noteq> [] \<or> sc_listen_h3 (cf_server cfg) \<noteq> []
        \<longrightarrow> cf_tls cfg \<noteq> None)
     \<and> (\<forall>t. cf_tls cfg = Some t \<longrightarrow> tc_certs t \<noteq> [])"
  by (auto simp: check_tls_section_def Let_def split: option.splits)

lemma check_certs_Inr_iff:
  "check_certs is_file cs = Inr () \<longleftrightarrow> list_all (\<lambda>c. is_file (cs_cert c) \<and> is_file (cs_key c)) cs"
  by (induction cs) auto

lemma check_logic_valid: "check_logic cfg opts = Inr () \<longleftrightarrow> config_valid opts cfg"
proof (cases "check_upstreams opts 0 {} (cf_upstreams cfg)")
  case (Inl e)
  then have "\<not> (list_all (upstream_ok opts) (cf_upstreams cfg)
      \<and> distinct (map uc_name (cf_upstreams cfg)))"
    using check_upstreams_ok [of opts "cf_upstreams cfg" "set (map uc_name (cf_upstreams cfg))"]
    by auto
  with Inl show ?thesis by (auto simp: check_logic_def config_valid_def)
next
  case (Inr seen)
  then have "list_all (upstream_ok opts) (cf_upstreams cfg)"
    and "distinct (map uc_name (cf_upstreams cfg))" and "seen = upstream_names cfg"
    by (auto simp: check_upstreams_ok upstream_names_def)
  with Inr show ?thesis
    using check_routes_Inr_iff [of 0 seen "cf_routes cfg"] check_tls_section_Inr_iff [of cfg]
    by (auto simp: check_logic_def config_valid_def split: sum.splits)
qed

text \<open>The loops report the first fault; the index counts from the loop's start.\<close>

lemma check_routes_Inl:
  assumes "check_routes i (upstream_names cfg) rs = Inl e" and "cf_routes cfg = pre @ rs"
    and "length pre = i" and "list_all (route_ok (upstream_names cfg)) pre"
  shows "error_describes opts cfg e"
  using assms
proof (induction rs arbitrary: i pre)
  case (Cons r rs)
  have r: "cf_routes cfg ! i = r" "i < length (cf_routes cfg)" "take i (cf_routes cfg) = pre"
    using Cons.prems(2,3) by auto
  show ?case
  proof (cases "route_ok (upstream_names cfg) r")
    case True
    then have "check_routes (Suc i) (upstream_names cfg) rs = Inl e"
      using Cons.prems(1) by (auto simp: route_ok_def Let_def split: if_splits option.splits)
    then show ?thesis
      using Cons.prems True by (intro Cons.IH [of "Suc i" "pre @ [r]"]) auto
  next
    case False
    then show ?thesis
      using Cons.prems(1,4) r
      by (auto simp: route_ok_def [of _ r] Let_def split: if_splits option.splits)
  qed
qed simp

lemma check_upstream_tls_Inl:
  "u \<in> set (cf_upstreams cfg) \<Longrightarrow> check_upstream_tls opts u = Inl e \<Longrightarrow> error_describes opts cfg e"
  by (fastforce simp: check_upstream_tls_def split: if_splits option.splits)

lemma check_upstream_health_Inl:
  "u \<in> set (cf_upstreams cfg) \<Longrightarrow> check_upstream_health u = Inl e \<Longrightarrow> error_describes opts cfg e"
  by (fastforce simp: check_upstream_health_def split: if_splits option.splits)

lemma check_upstreams_Inl:
  assumes "check_upstreams opts i (set (map uc_name pre)) us = Inl e"
    and "cf_upstreams cfg = pre @ us" and "length pre = i" and "list_all (upstream_ok opts) pre"
  shows "error_describes opts cfg e"
  using assms
proof (induction us arbitrary: i pre)
  case (Cons u us)
  have u: "cf_upstreams cfg ! i = u" "i < length (cf_upstreams cfg)"
    "take i (cf_upstreams cfg) = pre" "u \<in> set (cf_upstreams cfg)"
    using Cons.prems(2,3) by auto
  consider (addrs) "uc_addrs u = []" | (dup) "uc_addrs u \<noteq> []" "uc_name u \<in> set (map uc_name pre)"
    | (bad) "uc_addrs u \<noteq> []" "uc_name u \<notin> set (map uc_name pre)" "\<not> upstream_ok opts u"
    | (ok) "uc_name u \<notin> set (map uc_name pre)" "upstream_ok opts u"
    by blast
  then show ?case
  proof cases
    case addrs
    then show ?thesis using Cons.prems u by auto
  next
    case dup
    then obtain j where "j < length pre" "uc_name (pre ! j) = uc_name u"
      by (auto simp: in_set_conv_nth)
    then have "j < i" "uc_name (cf_upstreams cfg ! j) = uc_name u"
      using Cons.prems(2,3) by (auto simp: nth_append)
    moreover have "e = DuplicateUpstream (uc_name u)" using dup Cons.prems(1) by auto
    ultimately show ?thesis using u(1,2) by auto
  next
    case bad
    then have "check_upstream_tls opts u = Inl e \<or> check_upstream_health u = Inl e"
      using Cons.prems(1) check_upstream_tls_health_ok [of opts u] by (auto split: sum.splits)
    then show ?thesis
      using u(4) check_upstream_tls_Inl check_upstream_health_Inl by blast
  next
    case ok
    then have "check_upstreams opts (Suc i) (set (map uc_name (pre @ [u]))) us = Inl e"
      using Cons.prems(1) check_upstream_tls_health_ok [of opts u] by (auto split: sum.splits)
    then show ?thesis
      using Cons.prems ok by (intro Cons.IH [of "Suc i" "pre @ [u]"]) auto
  qed
qed simp

lemma check_logic_error:
  assumes "check_logic cfg opts = Inl e"
  shows "error_describes opts cfg e"
proof (cases "check_upstreams opts 0 {} (cf_upstreams cfg)")
  case (Inl e')
  with assms show ?thesis
    using check_upstreams_Inl [of opts 0 "[]" "cf_upstreams cfg" e' cfg]
    by (auto simp: check_logic_def split: if_splits)
next
  case (Inr seen)
  then have seen: "seen = upstream_names cfg" by (auto simp: check_upstreams_ok upstream_names_def)
  show ?thesis
  proof (cases "check_routes 0 seen (cf_routes cfg)")
    case (Inl e')
    with assms Inr seen show ?thesis
      using check_routes_Inl [of 0 cfg "cf_routes cfg" e' "[]" opts]
      by (auto simp: check_logic_def split: if_splits)
  next
    case Inr2: (Inr x)
    with assms Inr show ?thesis
      by (auto simp: check_logic_def check_tls_section_def Let_def split: if_splits option.splits)
  qed
qed

subsection \<open>Documents for the witnesses\<close>

definition stray_config :: config where
  "stray_config = sample_config\<lparr>cf_routes :=
     [sample_route (sample_match (Some ''a'') None) ''origin'',
      sample_route (sample_match (Some ''b'') None) ''orgin'']\<rparr>"

lemma stray_config_check:
  "check_logic stray_config \<lparr>vo_allow_insecure_tls = False\<rparr> = Inl (UnknownUpstream 1 ''orgin'')"
  by (simp add: stray_config_def check_logic_def check_upstream_tls_def check_upstream_health_def
      sample_defs)

definition tls_config_doc :: config where
  "tls_config_doc = sample_config\<lparr>cf_tls :=
     Some (de_tls_config
       [\<lparr>cs_sni = ''a.org'', cs_cert = ''a.pem'', cs_key = ''a.key'', cs_ocsp_response = None\<rparr>]
       None None None None None)\<rparr>"

lemma tls_config_doc_load:
  "load_config Inr (\<lambda>_. Inr tls_config_doc) None (\<lambda>f. f = ''a.pem'') ''conduit.toml''
     = Inl (KeyMissing ''a.org'' ''a.key'')"
  by (simp add: tls_config_doc_def load_config_def parse_config_def check_def check_filesystem_def
      check_logic_def check_upstream_tls_def check_upstream_health_def check_tls_section_def
      de_tls_config_def sample_defs)

section \<open>Properties\<close>


text \<open>
  Every error of logic validation describes a real fault of the document, at the index
  or name it reports, and an indexed error is the first fault of its loop.
\<close>

theorem check_logic_error_describes:
  assumes "check_logic cfg opts = Inl e"
  shows "error_describes opts cfg e"
  using assms by (rule check_logic_error)

theorem check_logic_error_describes_witness:
  "check_logic stray_config \<lparr>vo_allow_insecure_tls = False\<rparr> = Inl (UnknownUpstream 1 ''orgin'')
   \<and> ro_upstream (cf_routes stray_config ! 1) = ''orgin'' \<and> ''orgin'' \<notin> upstream_names stray_config"
  using check_logic_error_describes [OF stray_config_check] stray_config_check by simp

text \<open>
  \<open>load\<close> returns a configuration exactly when the file was read, the TOML reader
  accepted it, the document is valid under the environment's opt-in and every certificate
  and key file of the TLS section exists; and it reports a missing file only for a document
  whose logic is valid.
\<close>

theorem load_config_iff:
  "(load_config read_to_string from_str env is_file path = Inr cfg \<longleftrightarrow>
     (\<exists>text. read_to_string path = Inr text \<and> from_str text = Inr cfg)
     \<and> config_valid \<lparr>vo_allow_insecure_tls = (env = Some ''1'')\<rparr> cfg
     \<and> (case cf_tls cfg of None \<Rightarrow> True
        | Some t \<Rightarrow> list_all (\<lambda>c. is_file (cs_cert c) \<and> is_file (cs_key c)) (tc_certs t)))
   \<and> (load_config read_to_string from_str env is_file path = Inl (CertMissing sni file)
      \<or> load_config read_to_string from_str env is_file path = Inl (KeyMissing sni file) \<longrightarrow>
      \<not> is_file file \<and>
      (\<exists>text doc. read_to_string path = Inr text \<and> from_str text = Inr doc
         \<and> config_valid \<lparr>vo_allow_insecure_tls = (env = Some ''1'')\<rparr> doc))"
proof -
  let ?opts = "\<lparr>vo_allow_insecure_tls = (env = Some ''1'')\<rparr>"
  have fs: "check_filesystem is_file cfg = Inr () \<longleftrightarrow>
     (case cf_tls cfg of None \<Rightarrow> True
        | Some t \<Rightarrow> list_all (\<lambda>c. is_file (cs_cert c) \<and> is_file (cs_key c)) (tc_certs t))"
    by (auto simp: check_filesystem_def check_certs_Inr_iff split: option.splits)
  have certs: "check_certs is_file cs = Inl (CertMissing sni file)
      \<or> check_certs is_file cs = Inl (KeyMissing sni file) \<Longrightarrow> \<not> is_file file" for cs
    by (induction cs) (auto split: if_splits)
  have logic: "check_logic doc ?opts \<noteq> Inl (CertMissing sni file)"
    "check_logic doc ?opts \<noteq> Inl (KeyMissing sni file)" for doc
    using check_logic_error [of doc ?opts] by fastforce+
  show ?thesis
  proof (intro conjI impI)
    show "load_config read_to_string from_str env is_file path = Inr cfg \<longleftrightarrow>
     (\<exists>text. read_to_string path = Inr text \<and> from_str text = Inr cfg)
     \<and> config_valid ?opts cfg
     \<and> (case cf_tls cfg of None \<Rightarrow> True
        | Some t \<Rightarrow> list_all (\<lambda>c. is_file (cs_cert c) \<and> is_file (cs_key c)) (tc_certs t))"
      unfolding check_logic_valid [symmetric] fs [symmetric]
      by (auto simp: load_config_def parse_config_def check_def Let_def split: sum.splits)
  next
    assume err: "load_config read_to_string from_str env is_file path = Inl (CertMissing sni file)
      \<or> load_config read_to_string from_str env is_file path = Inl (KeyMissing sni file)"
    then obtain content doc where doc: "read_to_string path = Inr content" "from_str content = Inr doc"
      and "check env is_file doc = Inl (CertMissing sni file)
        \<or> check env is_file doc = Inl (KeyMissing sni file)"
      by (auto simp: load_config_def parse_config_def split: sum.splits)
    then have ok: "check_logic doc ?opts = Inr ()"
      and "check_filesystem is_file doc = Inl (CertMissing sni file)
        \<or> check_filesystem is_file doc = Inl (KeyMissing sni file)"
      using logic by (auto simp: check_def Let_def split: sum.splits)
    then show "\<not> is_file file"
      using certs by (auto simp: check_filesystem_def split: option.splits)
    from doc ok show "\<exists>text doc. read_to_string path = Inr text \<and> from_str text = Inr doc
         \<and> config_valid ?opts doc"
      by (auto simp: check_logic_valid)
  qed
qed

theorem load_config_iff_witness:
  "load_config Inr (\<lambda>_. Inr tls_config_doc) None (\<lambda>f. f = ''a.pem'') ''conduit.toml''
     = Inl (KeyMissing ''a.org'' ''a.key'')
   \<and> config_valid \<lparr>vo_allow_insecure_tls = False\<rparr> tls_config_doc"
  using load_config_iff [of Inr "\<lambda>_. Inr tls_config_doc" None "\<lambda>f. f = ''a.pem''" "''conduit.toml''"
      tls_config_doc "''a.org''" "''a.key''"] tls_config_doc_load
  by simp

end
