(* ===== verification/Conduit_Routing.thy ===== *)
theory Conduit_Routing
  imports Conduit_Http Conduit_Validate
begin

text \<open>
  \<^verbatim>\<open>conduit-lifecycle/src/table.rs\<close>, lines 29 to 306: routes, host buckets and the route
  table. \<open>table_from_config\<close> builds the index and \<open>table_find\<close> looks a request up; the
  reference is a linear scan that keeps the leftmost route of greatest specificity among
  those that match.
\<close>

section \<open>Model\<close>

datatype 're path_match = Any | Prefix string | Exact string | Regex 're

record 're route =
  r_host :: "string option"
  r_path :: "'re path_match"
  r_header_matches :: "(string \<times> string) list"
  r_upstream :: string
  r_total_timeout :: duration
  r_read_timeout :: duration

text \<open>\<open>Route::headers_match\<close>: every predicate finds its value; \<open>get\<close> returns the first.\<close>

fun header_predicates :: "('re, 'hm) crates \<Rightarrow> 'hm \<Rightarrow> (string \<times> string) list \<Rightarrow> bool" where
  "header_predicates X headers [] = True"
| "header_predicates X headers ((name, want) # ms) =
     (case header_get X headers name of
        Some got \<Rightarrow> if got = want then header_predicates X headers ms else False
      | None \<Rightarrow> False)"

definition headers_match :: "('re, 'hm) crates \<Rightarrow> 'hm \<Rightarrow> 're route \<Rightarrow> bool" where
  "headers_match X headers r = header_predicates X headers (r_header_matches r)"

text \<open>\<open>Route::from_config\<close>; a pattern that does not compile becomes \<open>Any\<close>.\<close>

definition path_from_config :: "('re, 'hm) crates \<Rightarrow> route_match \<Rightarrow> 're path_match" where
  "path_from_config X m =
     (case rm_path_exact m of
        Some s \<Rightarrow> Exact s
      | None \<Rightarrow> (case rm_path_prefix m of
          Some s \<Rightarrow> Prefix s
        | None \<Rightarrow> (case rm_path_regex m of
            Some s \<Rightarrow> (case regex_new X s of Some re \<Rightarrow> Regex re | None \<Rightarrow> Any)
          | None \<Rightarrow> Any)))"

definition header_matches_from_config ::
  "('re, 'hm) crates \<Rightarrow> header_match list \<Rightarrow> (string \<times> string) list" where
  "header_matches_from_config X hms =
     List.map_filter
       (\<lambda>hm. case header_name_try_from X (hm_name hm) of
                None \<Rightarrow> None
              | Some name \<Rightarrow> (case header_value_try_from X (hm_value hm) of
                  None \<Rightarrow> None
                | Some value \<Rightarrow> Some (name, value)))
       hms"

definition route_from_config :: "('re, 'hm) crates \<Rightarrow> route_cfg \<Rightarrow> 're route" where
  "route_from_config X cfg =
     \<lparr>r_host = rm_host (ro_match cfg),
      r_path = path_from_config X (ro_match cfg),
      r_header_matches = header_matches_from_config X (rm_headers (ro_match cfg)),
      r_upstream = ro_upstream cfg,
      r_total_timeout = dstr_get (to_total (ro_timeouts cfg)),
      r_read_timeout = dstr_get (to_read (ro_timeouts cfg))\<rparr>"

record 're host_bucket =
  hb_by_exact :: "string \<rightharpoonup> 're route list"
  hb_prefix_sorted :: "(string \<times> 're route list) list"
  hb_regex_routes :: "'re route list"
  hb_any :: "'re route list"

definition bucket_default :: "'re host_bucket" where
  "bucket_default =
     \<lparr>hb_by_exact = Map.empty, hb_prefix_sorted = [], hb_regex_routes = [], hb_any = []\<rparr>"

text \<open>Push onto the slot of this prefix, or open a new slot at the end.\<close>

fun prefix_push ::
  "string \<Rightarrow> 're route \<Rightarrow> (string \<times> 're route list) list \<Rightarrow> (string \<times> 're route list) list" where
  "prefix_push p r [] = [(p, [r])]"
| "prefix_push p r ((pp, slot) # rest) =
     (if pp = p then (pp, slot @ [r]) # rest else (pp, slot) # prefix_push p r rest)"

definition bucket_insert :: "'re host_bucket \<Rightarrow> 're route \<Rightarrow> 're host_bucket" where
  "bucket_insert b r =
     (case r_path r of
        Exact p \<Rightarrow>
          b\<lparr>hb_by_exact := (hb_by_exact b)
              (p \<mapsto> (case hb_by_exact b p of None \<Rightarrow> [] | Some slot \<Rightarrow> slot) @ [r])\<rparr>
      | Prefix p \<Rightarrow> b\<lparr>hb_prefix_sorted := prefix_push p r (hb_prefix_sorted b)\<rparr>
      | Regex _ \<Rightarrow> b\<lparr>hb_regex_routes := hb_regex_routes b @ [r]\<rparr>
      | Any \<Rightarrow> b\<lparr>hb_any := hb_any b @ [r]\<rparr>)"

text \<open>\<open>sort_by_key\<close> with the reversed length: a stable sort, longest prefix first.\<close>

definition bucket_finalise :: "'re host_bucket \<Rightarrow> 're host_bucket" where
  "bucket_finalise b =
     b\<lparr>hb_prefix_sorted := sort_key (\<lambda>(p, slot). - int (length p)) (hb_prefix_sorted b)\<rparr>"

fun prefix_scan ::
  "('re, 'hm) crates \<Rightarrow> string \<Rightarrow> 'hm \<Rightarrow> (string \<times> 're route list) list \<Rightarrow> 're route option" where
  "prefix_scan X path headers [] = None"
| "prefix_scan X path headers ((p, slot) # rest) =
     (if starts_with path p then
        (case List.find (headers_match X headers) slot of
           Some r \<Rightarrow> Some r
         | None \<Rightarrow> prefix_scan X path headers rest)
      else prefix_scan X path headers rest)"

fun regex_scan :: "('re, 'hm) crates \<Rightarrow> string \<Rightarrow> 'hm \<Rightarrow> 're route list \<Rightarrow> 're route option" where
  "regex_scan X path headers [] = None"
| "regex_scan X path headers (r # rest) =
     (case r_path r of
        Regex re \<Rightarrow>
          if regex_is_match X re path \<and> headers_match X headers r then Some r
          else regex_scan X path headers rest
      | _ \<Rightarrow> regex_scan X path headers rest)"

definition bucket_find ::
  "('re, 'hm) crates \<Rightarrow> 're host_bucket \<Rightarrow> string \<Rightarrow> 'hm \<Rightarrow> 're route option" where
  "bucket_find X b path headers =
     (case (case hb_by_exact b path of
              None \<Rightarrow> None
            | Some slot \<Rightarrow> List.find (headers_match X headers) slot) of
        Some r \<Rightarrow> Some r
      | None \<Rightarrow> (case prefix_scan X path headers (hb_prefix_sorted b) of
          Some r \<Rightarrow> Some r
        | None \<Rightarrow> (case regex_scan X path headers (hb_regex_routes b) of
            Some r \<Rightarrow> Some r
          | None \<Rightarrow> List.find (headers_match X headers) (hb_any b))))"

record 're route_table =
  rt_by_host :: "string \<rightharpoonup> 're host_bucket"
  rt_wildcard :: "'re host_bucket"
  rt_len :: nat

definition table_default :: "'re route_table" where
  "table_default = \<lparr>rt_by_host = Map.empty, rt_wildcard = bucket_default, rt_len = 0\<rparr>"

text \<open>The body of the first loop of \<open>RouteTable::from_config\<close>.\<close>

definition table_insert :: "'re route_table \<Rightarrow> 're route \<Rightarrow> 're route_table" where
  "table_insert t r =
     (let t = t\<lparr>rt_len := rt_len t + 1\<rparr> in
      case r_host r of
        Some h \<Rightarrow>
          let key = to_ascii_lowercase h;
              bucket = (case rt_by_host t key of None \<Rightarrow> bucket_default | Some b \<Rightarrow> b)
          in t\<lparr>rt_by_host := (rt_by_host t)(key \<mapsto> bucket_insert bucket r)\<rparr>
      | None \<Rightarrow> t\<lparr>rt_wildcard := bucket_insert (rt_wildcard t) r\<rparr>)"

definition table_finalise :: "'re route_table \<Rightarrow> 're route_table" where
  "table_finalise t =
     t\<lparr>rt_by_host := (\<lambda>k. map_option bucket_finalise (rt_by_host t k)),
       rt_wildcard := bucket_finalise (rt_wildcard t)\<rparr>"

definition table_from_config :: "('re, 'hm) crates \<Rightarrow> config \<Rightarrow> 're route_table" where
  "table_from_config X cfg =
     table_finalise
       (foldl table_insert table_default (map (route_from_config X) (cf_routes cfg)))"

definition lookup_bucket :: "'re route_table \<Rightarrow> string \<Rightarrow> 're host_bucket option" where
  "lookup_bucket t host =
     (if list_all (\<lambda>b. \<not> is_ascii_uppercase b) host then rt_by_host t host
      else rt_by_host t (to_ascii_lowercase host))"

definition table_find ::
  "('re, 'hm) crates \<Rightarrow> 're route_table \<Rightarrow> string option \<Rightarrow> string \<Rightarrow> 'hm \<Rightarrow> 're route option" where
  "table_find X t host path headers =
     (case (case host of
              None \<Rightarrow> None
            | Some h \<Rightarrow> (case lookup_bucket t h of
                None \<Rightarrow> None
              | Some bucket \<Rightarrow> bucket_find X bucket path headers)) of
        Some r \<Rightarrow> Some r
      | None \<Rightarrow> bucket_find X (rt_wildcard t) path headers)"

definition table_len :: "'re route_table \<Rightarrow> nat" where
  "table_len t = rt_len t"

definition table_is_empty :: "'re route_table \<Rightarrow> bool" where
  "table_is_empty t \<longleftrightarrow> rt_len t = 0"

section \<open>Reference: a linear scan by specificity\<close>

fun path_matches :: "('re, 'hm) crates \<Rightarrow> string \<Rightarrow> 're path_match \<Rightarrow> bool" where
  "path_matches X path Any = True"
| "path_matches X path (Prefix p) = starts_with path p"
| "path_matches X path (Exact p) = (path = p)"
| "path_matches X path (Regex re) = regex_is_match X re path"

definition host_matches :: "string option \<Rightarrow> 're route \<Rightarrow> bool" where
  "host_matches host r =
     (case r_host r of
        None \<Rightarrow> True
      | Some h \<Rightarrow> (case host of
          None \<Rightarrow> False
        | Some h' \<Rightarrow> to_ascii_lowercase h' = to_ascii_lowercase h))"

definition route_matches ::
  "('re, 'hm) crates \<Rightarrow> string option \<Rightarrow> string \<Rightarrow> 'hm \<Rightarrow> 're route \<Rightarrow> bool" where
  "route_matches X host path headers r \<longleftrightarrow>
     host_matches host r \<and> path_matches X path (r_path r) \<and> headers_match X headers r"

text \<open>Exact beats prefix beats regex beats any; a longer prefix beats a shorter one.\<close>

fun path_rank :: "'re path_match \<Rightarrow> nat \<times> nat" where
  "path_rank Any = (0, 0)"
| "path_rank (Regex re) = (1, 0)"
| "path_rank (Prefix p) = (2, length p)"
| "path_rank (Exact p) = (3, 0)"

definition route_rank :: "'re route \<Rightarrow> nat \<times> nat \<times> nat" where
  "route_rank r = (case r_host r of None \<Rightarrow> 0 | Some h \<Rightarrow> 1, path_rank (r_path r))"

definition linear_find ::
  "('re, 'hm) crates \<Rightarrow> 're route list \<Rightarrow> string option \<Rightarrow> string \<Rightarrow> 'hm \<Rightarrow> 're route option" where
  "linear_find X rs host path headers =
     best route_rank (filter (route_matches X host path headers) rs)"

text \<open>
  What a bucket holds of the routes inserted so far, in declaration order: the abstraction
  relation between the index and a route list.
\<close>

definition bucket_holds :: "'re host_bucket \<Rightarrow> 're route list \<Rightarrow> bool" where
  "bucket_holds b rs \<longleftrightarrow>
     (\<forall>p. (case hb_by_exact b p of None \<Rightarrow> [] | Some slot \<Rightarrow> slot)
            = filter (\<lambda>r. r_path r = Exact p) rs)
     \<and> distinct (map fst (hb_prefix_sorted b))
     \<and> (\<forall>p. (case map_of (hb_prefix_sorted b) p of None \<Rightarrow> [] | Some slot \<Rightarrow> slot)
            = filter (\<lambda>r. r_path r = Prefix p) rs)
     \<and> hb_regex_routes b = filter (\<lambda>r. \<exists>re. r_path r = Regex re) rs
     \<and> hb_any b = filter (\<lambda>r. r_path r = Any) rs"

text \<open>The candidates of a lookup in the order the bucket tries them.\<close>

definition prefix_candidates ::
  "('re, 'hm) crates \<Rightarrow> string \<Rightarrow> 'hm \<Rightarrow> (string \<times> 're route list) list \<Rightarrow> 're route list" where
  "prefix_candidates X path headers xs =
     concat (map (\<lambda>(p, slot). if starts_with path p then filter (headers_match X headers) slot
                             else []) xs)"

definition bucket_candidates ::
  "('re, 'hm) crates \<Rightarrow> 're host_bucket \<Rightarrow> string \<Rightarrow> 'hm \<Rightarrow> 're route list" where
  "bucket_candidates X b path headers =
     filter (headers_match X headers)
       (case hb_by_exact b path of None \<Rightarrow> [] | Some slot \<Rightarrow> slot)
     @ prefix_candidates X path headers (hb_prefix_sorted b)
     @ filter (\<lambda>r. path_matches X path (r_path r) \<and> headers_match X headers r) (hb_regex_routes b)
     @ filter (headers_match X headers) (hb_any b)"

text \<open>What the table holds of the routes inserted so far, host by host.\<close>

definition keyed :: "'re route list \<Rightarrow> string \<Rightarrow> 're route list" where
  "keyed rs k = filter (\<lambda>r. map_option to_ascii_lowercase (r_host r) = Some k) rs"

definition table_holds :: "'re route_table \<Rightarrow> 're route list \<Rightarrow> bool" where
  "table_holds t rs \<longleftrightarrow>
     (\<forall>k. case rt_by_host t k of
            None \<Rightarrow> keyed rs k = [] | Some b \<Rightarrow> bucket_holds b (keyed rs k))
     \<and> bucket_holds (rt_wildcard t) (filter (\<lambda>r. r_host r = None) rs)
     \<and> rt_len t = length rs"

section \<open>Lemmas\<close>

subsection \<open>One bucket\<close>

lemma prefix_push_fst:
  "set (map fst (prefix_push p r xs)) = insert p (set (map fst xs))"
  "distinct (map fst xs) \<Longrightarrow> distinct (map fst (prefix_push p r xs))"
proof -
  show keys: "set (map fst (prefix_push p r xs)) = insert p (set (map fst xs))" for xs
    by (induction xs rule: prefix_push.induct) auto
  show "distinct (map fst xs) \<Longrightarrow> distinct (map fst (prefix_push p r xs))"
    using keys by (induction p r xs rule: prefix_push.induct) auto
qed

lemma prefix_push_slots:
  "(case map_of (prefix_push p r xs) q of None \<Rightarrow> [] | Some slot \<Rightarrow> slot) =
     (case map_of xs q of None \<Rightarrow> [] | Some slot \<Rightarrow> slot) @ (if q = p then [r] else [])"
  by (induction p r xs rule: prefix_push.induct) auto

lemma bucket_holds_default: "bucket_holds bucket_default []"
  by (simp add: bucket_holds_def bucket_default_def)

lemma bucket_holds_insert: "bucket_holds b rs \<Longrightarrow> bucket_holds (bucket_insert b r) (rs @ [r])"
  by (cases "r_path r")
    (auto simp: bucket_holds_def bucket_insert_def prefix_push_fst prefix_push_slots)

lemma bucket_holds_finalise:
  assumes "bucket_holds b rs"
  shows "bucket_holds (bucket_finalise b) rs"
    and "sorted_wrt (\<lambda>x y. length (fst y) \<le> length (fst x))
           (hb_prefix_sorted (bucket_finalise b))"
proof -
  let ?k = "\<lambda>(p, slot). - int (length p)" and ?xs = "hb_prefix_sorted b"
  have d: "distinct (map fst ?xs)" using assms by (simp add: bucket_holds_def)
  have d': "distinct (map fst (sort_key ?k ?xs))"
    using d by (metis distinct_map distinct_sort set_sort)
  have "map_of (sort_key ?k ?xs) = map_of ?xs"
    using d d' by (intro map_of_inject_set [THEN iffD2]) auto
  with assms d' show "bucket_holds (bucket_finalise b) rs"
    by (simp add: bucket_holds_def bucket_finalise_def)
  have "sorted_wrt (\<lambda>x y. ?k x \<le> ?k y) (sort_key ?k ?xs)"
    using sorted_sort_key [of ?k ?xs] by (simp add: sorted_map)
  then show "sorted_wrt (\<lambda>x y. length (fst y) \<le> length (fst x))
      (hb_prefix_sorted (bucket_finalise b))"
    by (auto simp: bucket_finalise_def case_prod_beta elim: sorted_wrt_mono_rel [rotated])
qed

lemma case_hd_append:
  "(case xs @ ys of [] \<Rightarrow> None | x # _ \<Rightarrow> Some x) =
     (case (case xs of [] \<Rightarrow> None | x # _ \<Rightarrow> Some x) of
        None \<Rightarrow> (case ys of [] \<Rightarrow> None | y # _ \<Rightarrow> Some y) | Some x \<Rightarrow> Some x)"
  by (cases xs) auto

lemma prefix_scan_candidates:
  "prefix_scan X path headers xs =
     (case prefix_candidates X path headers xs of [] \<Rightarrow> None | r # _ \<Rightarrow> Some r)"
  by (induction X path headers xs rule: prefix_scan.induct)
    (auto simp: prefix_candidates_def find_filter_hd case_hd_append split: list.splits)

lemma regex_scan_find:
  "\<forall>r\<in>set rs. \<exists>re. r_path r = Regex re \<Longrightarrow>
   regex_scan X path headers rs =
     List.find (\<lambda>r. path_matches X path (r_path r) \<and> headers_match X headers r) rs"
  by (induction rs) auto

lemma bucket_find_candidates:
  assumes "bucket_holds b rs"
  shows "bucket_find X b path headers =
    (case bucket_candidates X b path headers of [] \<Rightarrow> None | r # _ \<Rightarrow> Some r)"
proof -
  have "\<forall>r\<in>set (hb_regex_routes b). \<exists>re. r_path r = Regex re"
    using assms by (auto simp: bucket_holds_def)
  then show ?thesis
    by (auto simp: bucket_find_def bucket_candidates_def case_hd_append prefix_scan_candidates
        regex_scan_find find_filter_hd split: option.splits list.splits)
qed

lemma prefix_candidates_class:
  assumes "bucket_holds b rs"
  shows "filter (\<lambda>r. path_rank (r_path r) = (2, l)) (prefix_candidates X path headers (hb_prefix_sorted b))
    = filter (\<lambda>r. path_rank (r_path r) = (2, l))
        (filter (\<lambda>r. path_matches X path (r_path r) \<and> headers_match X headers r) rs)"
proof -
  let ?xs = "hb_prefix_sorted b" and ?hm = "headers_match X headers" and ?p = "take l path"
  have d: "distinct (map fst ?xs)"
    and slots: "(case map_of ?xs p of None \<Rightarrow> [] | Some s \<Rightarrow> s)
       = filter (\<lambda>r. r_path r = Prefix p) rs" for p
    using assms by (simp_all add: bucket_holds_def)
  have slot: "\<forall>r\<in>set s. r_path r = Prefix p" if "(p, s) \<in> set ?xs" for p s
  proof -
    have "map_of ?xs p = Some s" using d that by simp
    with slots [of p] show ?thesis by auto
  qed
  have "filter (\<lambda>r. path_rank (r_path r) = (2, l)) (prefix_candidates X path headers ?xs) =
      concat (map (\<lambda>(p, s). if p = ?p then if l \<le> length path then filter ?hm s else [] else []) ?xs)"
    unfolding prefix_candidates_def filter_concat map_map
  proof (intro arg_cong [where f = concat] map_cong refl)
    fix x assume x_in: "x \<in> set ?xs"
    obtain p s where x: "x = (p, s)" by (cases x)
    with x_in have in_xs: "(p, s) \<in> set ?xs" by (simp only:)
    have "filter (\<lambda>r. path_rank (r_path r) = (2, l)) (filter ?hm s)
        = (if length p = l then filter ?hm s else [])"
      using slot [OF in_xs] by (auto simp: filter_empty_conv filter_id_conv simp del: filter_filter)
    moreover have "starts_with path p \<and> length p = l \<longleftrightarrow> p = ?p \<and> l \<le> length path"
      by (auto simp: starts_with_def prefix_def take_is_prefix)
        (metis append_take_drop_id)
    ultimately show "(filter (\<lambda>r. path_rank (r_path r) = (2, l))
          \<circ> (\<lambda>(p, slot). if starts_with path p then filter ?hm slot else [])) x =
        (case x of (p, s) \<Rightarrow> if p = ?p then if l \<le> length path then filter ?hm s else [] else [])"
      using x by (auto split: if_splits)
  qed
  also have "\<dots> = (if l \<le> length path then filter ?hm (filter (\<lambda>r. r_path r = Prefix ?p) rs) else [])"
    unfolding concat_unique_key [OF d, of ?p "\<lambda>s. if l \<le> length path then filter ?hm s else []"]
      slots [of ?p, symmetric]
    by (simp split: option.split)
  also have "\<dots> = filter (\<lambda>r. path_rank (r_path r) = (2, l))
        (filter (\<lambda>r. path_matches X path (r_path r) \<and> ?hm r) rs)"
  proof -
    have "path_rank m = (2, l) \<and> path_matches X path m \<longleftrightarrow> l \<le> length path \<and> m = Prefix ?p" for m
      by (cases m) (auto simp: starts_with_def prefix_length_le prefix_def intro!: exI [of _ "drop l path"])
    then show ?thesis by (auto intro!: filter_cong simp: empty_filter_conv)
  qed
  finally show ?thesis .
qed


lemma prefix_candidates_sorted:
  assumes "sorted_wrt (\<lambda>x y. length (fst y) \<le> length (fst x)) xs"
    and "\<And>p s r. (p, s) \<in> set xs \<Longrightarrow> r \<in> set s \<Longrightarrow> r_path r = Prefix p"
  shows "sorted_wrt (\<lambda>x y. path_rank (r_path y) \<le> path_rank (r_path x))
           (prefix_candidates X path headers xs)
    \<and> (\<forall>r\<in>set (prefix_candidates X path headers xs). \<exists>p s. (p, s) \<in> set xs \<and> r_path r = Prefix p)"
  using assms
proof (induction xs)
  case (Cons x xs)
  obtain p s where x: "x = (p, s)" by (cases x)
  let ?c = "prefix_candidates X path headers xs"
  from Cons have IH: "sorted_wrt (\<lambda>x y. path_rank (r_path y) \<le> path_rank (r_path x)) ?c"
    "\<forall>r\<in>set ?c. \<exists>p s. (p, s) \<in> set xs \<and> r_path r = Prefix p" by auto
  have slot: "\<forall>r\<in>set s. r_path r = Prefix p" using Cons.prems(2) x by auto
  then have "sorted_wrt (\<lambda>x y. path_rank (r_path y) \<le> path_rank (r_path x)) s"
    by (intro sorted_wrt_iff_nth_less [THEN iffD2]) simp
  then have "sorted_wrt (\<lambda>x y. path_rank (r_path y) \<le> path_rank (r_path x))
      (filter (headers_match X headers) s)" by (rule sorted_wrt_filter)
  moreover have "path_rank (r_path y) \<le> path_rank (r_path z)" if "z \<in> set s" "y \<in> set ?c" for z y
    using that IH(2) slot Cons.prems(1) x by fastforce
  ultimately have "sorted_wrt (\<lambda>x y. path_rank (r_path y) \<le> path_rank (r_path x))
      (filter (headers_match X headers) s @ ?c)"
    using IH by (auto simp: sorted_wrt_append)
  moreover have step: "prefix_candidates X path headers (x # xs) =
      (if starts_with path p then filter (headers_match X headers) s else []) @ ?c"
    by (simp add: prefix_candidates_def x)
  moreover have "\<forall>r\<in>set (prefix_candidates X path headers (x # xs)).
      \<exists>p s. (p, s) \<in> set (x # xs) \<and> r_path r = Prefix p"
    using IH(2) slot x unfolding step by (fastforce split: if_splits)
  ultimately show ?case using IH(1) by simp
qed (simp add: prefix_candidates_def)

lemma path_rank_eq:
  "path_rank m = (0, 0) \<longleftrightarrow> m = Any"
  "path_rank m = (Suc 0, 0) \<longleftrightarrow> (\<exists>re. m = Regex re)"
  "path_rank m = (3, 0) \<longleftrightarrow> (\<exists>p. m = Exact p)"
  by (cases m; simp)+

lemma path_rank_cases: "path_rank m = (a, l) \<Longrightarrow> a = 2 \<or> l = 0 \<and> (a = 0 \<or> a = Suc 0 \<or> a = 3)"
  by (cases m) auto

lemma filter_class:
  "\<forall>r\<in>set xs. f r = d \<Longrightarrow> filter (\<lambda>r. f r = c) xs = (if c = d then xs else [])"
  by (auto simp: filter_empty_conv filter_id_conv)

lemma bucket_holds_slot:
  assumes "bucket_holds b rs" and "(p, s) \<in> set (hb_prefix_sorted b)" and "r \<in> set s"
  shows "r_path r = Prefix p"
proof -
  from assms have "map_of (hb_prefix_sorted b) p = Some s" by (simp add: bucket_holds_def)
  then have "s = filter (\<lambda>r. r_path r = Prefix p) rs"
    using assms(1) unfolding bucket_holds_def by (metis option.simps(5))
  with assms(3) show ?thesis by simp
qed

text \<open>A bucket lookup is the leftmost match of greatest path rank among the routes held.\<close>

lemma bucket_find_best:
  assumes holds: "bucket_holds b rs"
    and sorted: "sorted_wrt (\<lambda>x y. length (fst y) \<le> length (fst x)) (hb_prefix_sorted b)"
  shows "bucket_find X b path headers =
    best (path_rank \<circ> r_path)
      (filter (\<lambda>r. path_matches X path (r_path r) \<and> headers_match X headers r) rs)"
proof -
  let ?hm = "headers_match X headers" and ?k = "\<lambda>r. path_rank (r_path r)"
  let ?ok = "\<lambda>r. path_matches X path (r_path r) \<and> ?hm r"
  let ?E = "filter ?hm (case hb_by_exact b path of None \<Rightarrow> [] | Some slot \<Rightarrow> slot)"
    and ?P = "prefix_candidates X path headers (hb_prefix_sorted b)"
    and ?R = "filter ?ok (hb_regex_routes b)" and ?A = "filter ?hm (hb_any b)"
  let ?L = "bucket_candidates X b path headers"
  have E: "?E = filter ?hm (filter (\<lambda>r. r_path r = Exact path) rs)"
    and R: "hb_regex_routes b = filter (\<lambda>r. \<exists>re. r_path r = Regex re) rs"
    and A: "hb_any b = filter (\<lambda>r. r_path r = Any) rs"
    using holds by (simp_all add: bucket_holds_def)
  have L: "?L = ?E @ ?P @ ?R @ ?A" by (simp add: bucket_candidates_def)
  have kE: "\<forall>r\<in>set ?E. ?k r = (3, 0)" unfolding E by auto
  have kR: "\<forall>r\<in>set ?R. ?k r = (1, 0)" unfolding R by auto
  have kA: "\<forall>r\<in>set ?A. ?k r = (0, 0)" unfolding A by auto
  note P = prefix_candidates_sorted [OF sorted bucket_holds_slot [OF holds], where X = X and path = path and headers = headers]
  have kP: "\<forall>r\<in>set ?P. fst (?k r) = 2" using P by fastforce
  have const: "sorted_wrt (\<lambda>x y. ?k y \<le> ?k x) xs" if "\<forall>r\<in>set xs. ?k r = c" for xs c
    using that by (intro sorted_wrt_iff_nth_less [THEN iffD2]) simp
  have "sorted_wrt (\<lambda>x y. ?k y \<le> ?k x) ?L"
    unfolding L sorted_wrt_append
    using P const [OF kE] const [OF kR] const [OF kA] kE kR kA kP
    by (auto simp: less_eq_prod_def prod_le_def)
  then have "bucket_find X b path headers = best ?k ?L"
    by (simp add: bucket_find_candidates [OF holds] best_descending)
  also have "\<dots> = best ?k (filter ?ok rs)"
  proof (rule best_same_ranks)
    fix c :: "nat \<times> nat"
    obtain m l where c: "c = (m, l)" by (cases c)
    have fP: "filter (\<lambda>r. ?k r = c) ?P = (if m = 2 then filter (\<lambda>r. ?k r = c) (filter ?ok rs) else [])"
      using prefix_candidates_class [OF holds, of l X path headers] kP c
      by (auto simp: filter_empty_conv)
    show "filter (\<lambda>r. ?k r = c) ?L = filter (\<lambda>r. ?k r = c) (filter ?ok rs)"
      unfolding L filter_append fP filter_class [OF kE] filter_class [OF kR] filter_class [OF kA]
      unfolding E R A filter_filter using c
      by (auto simp: path_rank_eq empty_filter_conv dest: path_rank_cases intro!: filter_cong)
  qed
  finally show ?thesis by (simp add: comp_def)
qed


subsection \<open>The table\<close>

lemma keyed_snoc:
  "keyed (rs @ [r]) k =
     keyed rs k @ (if map_option to_ascii_lowercase (r_host r) = Some k then [r] else [])"
  by (simp add: keyed_def)

lemma table_holds_insert:
  assumes "table_holds t rs"
  shows "table_holds (table_insert t r) (rs @ [r])"
proof (cases "r_host r")
  case None
  then have "table_insert t r =
      t\<lparr>rt_len := rt_len t + 1, rt_wildcard := bucket_insert (rt_wildcard t) r\<rparr>"
    by (simp add: table_insert_def)
  moreover have "keyed (rs @ [r]) = keyed rs" using None by (simp add: keyed_snoc fun_eq_iff)
  ultimately show ?thesis using assms None
    by (simp add: table_holds_def bucket_holds_insert cong: option.case_cong)
next
  case (Some h)
  let ?k = "to_ascii_lowercase h"
  have "bucket_holds (case rt_by_host t ?k of None \<Rightarrow> bucket_default | Some b \<Rightarrow> b) (keyed rs ?k)"
    using assms by (auto simp: table_holds_def bucket_holds_default split: option.splits
        dest: spec [of _ ?k])
  note new = bucket_holds_insert [OF this, of r]
  have "case rt_by_host (table_insert t r) k of
      None \<Rightarrow> keyed (rs @ [r]) k = [] | Some b \<Rightarrow> bucket_holds b (keyed (rs @ [r]) k)" for k
    using assms new Some
    by (cases "k = ?k")
      (auto simp: table_holds_def table_insert_def keyed_snoc Let_def cong: option.case_cong)
  with assms Some show ?thesis by (simp add: table_holds_def table_insert_def Let_def)
qed

lemma table_holds_foldl: "table_holds (foldl table_insert table_default rs) rs"
proof (induction rs rule: rev_induct)
  case Nil
  show ?case by (simp add: table_holds_def table_default_def keyed_def bucket_holds_default)
next
  case (snoc r rs)
  then show ?case by (simp add: table_holds_insert)
qed

lemma lookup_bucket_lower: "lookup_bucket t h = rt_by_host t (to_ascii_lowercase h)"
  by (simp add: lookup_bucket_def to_ascii_lowercase_fixed list_all_iff)

text \<open>The lookup in a finalised table, bucket by bucket.\<close>

lemma finalised_find:
  assumes "table_holds t rs"
  shows "(case lookup_bucket (table_finalise t) h of
            None \<Rightarrow> None | Some b \<Rightarrow> bucket_find X b path headers) =
         best (path_rank \<circ> r_path)
           (filter (\<lambda>r. path_matches X path (r_path r) \<and> headers_match X headers r)
              (keyed rs (to_ascii_lowercase h)))"
    and "bucket_find X (rt_wildcard (table_finalise t)) path headers =
         best (path_rank \<circ> r_path)
           (filter (\<lambda>r. path_matches X path (r_path r) \<and> headers_match X headers r)
              (filter (\<lambda>r. r_host r = None) rs))"
proof -
  have one: "bucket_find X (bucket_finalise b) path headers =
      best (path_rank \<circ> r_path)
        (filter (\<lambda>r. path_matches X path (r_path r) \<and> headers_match X headers r) rs')"
    if "bucket_holds b rs'" for b rs'
    using bucket_find_best [OF bucket_holds_finalise [OF that]] .
  show "bucket_find X (rt_wildcard (table_finalise t)) path headers =
      best (path_rank \<circ> r_path)
        (filter (\<lambda>r. path_matches X path (r_path r) \<and> headers_match X headers r)
           (filter (\<lambda>r. r_host r = None) rs))"
    using one [of "rt_wildcard t" "filter (\<lambda>r. r_host r = None) rs"] assms
    by (simp add: table_holds_def table_finalise_def)
  show "(case lookup_bucket (table_finalise t) h of
            None \<Rightarrow> None | Some b \<Rightarrow> bucket_find X b path headers) =
         best (path_rank \<circ> r_path)
           (filter (\<lambda>r. path_matches X path (r_path r) \<and> headers_match X headers r)
              (keyed rs (to_ascii_lowercase h)))"
  proof (cases "rt_by_host t (to_ascii_lowercase h)")
    case None
    then have "keyed rs (to_ascii_lowercase h) = []"
      using assms by (auto simp: table_holds_def dest!: spec [of _ "to_ascii_lowercase h"])
    with None show ?thesis by (simp add: lookup_bucket_lower table_finalise_def)
  next
    case (Some b)
    then have "bucket_holds b (keyed rs (to_ascii_lowercase h))"
      using assms by (auto simp: table_holds_def dest!: spec [of _ "to_ascii_lowercase h"])
    from one [OF this] Some show ?thesis by (simp add: lookup_bucket_lower table_finalise_def)
  qed
qed

lemma best_route_rank:
  assumes "\<And>r. r \<in> set rs \<Longrightarrow> (r_host r = None) = b"
  shows "best route_rank rs = best (path_rank \<circ> r_path) rs"
  using assms
  by (intro best_rank_cong) (auto simp: route_rank_def less_eq_prod_def split: option.splits)

lemma linear_find_partition:
  "linear_find X rs host path headers =
     (case (case host of None \<Rightarrow> None | Some h \<Rightarrow>
              best (path_rank \<circ> r_path)
                (filter (\<lambda>r. path_matches X path (r_path r) \<and> headers_match X headers r)
                   (keyed rs (to_ascii_lowercase h)))) of
        Some r \<Rightarrow> Some r
      | None \<Rightarrow> best (path_rank \<circ> r_path)
          (filter (\<lambda>r. path_matches X path (r_path r) \<and> headers_match X headers r)
             (filter (\<lambda>r. r_host r = None) rs)))"
proof -
  let ?ok = "\<lambda>r. path_matches X path (r_path r) \<and> headers_match X headers r"
  let ?ms = "filter (route_matches X host path headers) rs"
  have host: "filter (\<lambda>r. r_host r \<noteq> None) ?ms =
      (case host of None \<Rightarrow> [] | Some h \<Rightarrow> filter ?ok (keyed rs (to_ascii_lowercase h)))"
    by (auto simp: keyed_def route_matches_def host_matches_def filter_empty_conv
        split: option.splits intro!: filter_cong)
  have wild: "filter (\<lambda>r. \<not> r_host r \<noteq> None) ?ms = filter ?ok (filter (\<lambda>r. r_host r = None) rs)"
    by (auto simp: route_matches_def host_matches_def intro!: filter_cong)
  have "best route_rank ?ms =
      (case best route_rank (filter (\<lambda>r. r_host r \<noteq> None) ?ms) of
         None \<Rightarrow> best route_rank (filter (\<lambda>r. \<not> r_host r \<noteq> None) ?ms) | Some x \<Rightarrow> Some x)"
    by (rule best_partition) (auto simp: route_rank_def less_prod_def)
  also have "best route_rank (filter (\<lambda>r. r_host r \<noteq> None) ?ms) =
      best (path_rank \<circ> r_path) (filter (\<lambda>r. r_host r \<noteq> None) ?ms)"
    by (rule best_route_rank [of _ False]) auto
  also have "best route_rank (filter (\<lambda>r. \<not> r_host r \<noteq> None) ?ms) =
      best (path_rank \<circ> r_path) (filter (\<lambda>r. \<not> r_host r \<noteq> None) ?ms)"
    by (rule best_route_rank [of _ True]) auto
  finally show ?thesis
    unfolding linear_find_def host wild by (cases host) (simp_all add: comp_def)
qed

lemma finalised_table_find:
  "table_holds t rs \<Longrightarrow>
   table_find X (table_finalise t) host path headers = linear_find X rs host path headers"
  unfolding table_find_def linear_find_partition
  by (simp only: finalised_find split: option.split)

section \<open>Properties\<close>


text \<open>
  A lookup never invents a route, and misses only when nothing matches: the result is a
  configured route whose host, path and header predicates all hold of the request, and it is
  absent exactly when no configured route has that property.
\<close>

theorem table_find_sound_complete:
  "(case table_find X (table_from_config X cfg) host path headers of
      Some r \<Rightarrow> r \<in> route_from_config X ` set (cf_routes cfg)
                 \<and> route_matches X host path headers r
    | None \<Rightarrow> \<not> (\<exists>rc\<in>set (cf_routes cfg).
                     route_matches X host path headers (route_from_config X rc)))"
  unfolding table_from_config_def finalised_table_find [OF table_holds_foldl]
  by (auto simp: linear_find_def filter_empty_conv split: option.splits dest!: best_SomeD)

text \<open>
  \<open>len\<close> and \<open>is_empty\<close> count the configured routes, whatever bucket each landed in.
\<close>

theorem table_len_routes:
  "table_len (table_from_config X cfg) = length (cf_routes cfg)
   \<and> (table_is_empty (table_from_config X cfg) \<longleftrightarrow> cf_routes cfg = [])"
  using table_holds_foldl [of "map (route_from_config X) (cf_routes cfg)"]
  by (auto simp: table_len_def table_is_empty_def table_from_config_def table_finalise_def
      table_holds_def)

end
