(* ===== verification/Conduit_Breaker.thy ===== *)
theory Conduit_Breaker
  imports Conduit_Prelude
begin

text \<open>
  \<^verbatim>\<open>conduit-upstream/src/breaker.rs\<close>: the passive circuit breaker. The model has two
  layers. The sequential operations (\<open>breaker_check\<close>, \<open>breaker_snapshot\<close>, \<open>on_success\<close>,
  \<open>on_failure\<close>) take the instant at which they read the clock. Under them, \<open>atomic\<close> is the
  code of the two updates as single atomic instructions of a thread, and \<open>breaker_step\<close>
  interleaves any number of threads over one shared breaker (each atomic access takes effect
  in one global order; the source asks for \<open>Relaxed\<close> ordering, so reorderings that a weakly
  ordered machine may add between the two cells are outside this model).

  The reference is the history of outcomes: a breaker rejects exactly when the run of
  failures since the last success has reached the threshold and the last of them is younger
  than the cooldown.
\<close>

section \<open>Model\<close>

datatype decision = Allow | Reject

datatype breaker_state = Closed | Open | HalfOpen

record breaker_config =
  bc_threshold :: u32
  bc_cooldown :: duration

definition breaker_config_default :: breaker_config where
  "breaker_config_default = \<lparr>bc_threshold = 5, bc_cooldown = from_secs 30\<rparr>"

record breaker =
  b_threshold :: u32
  b_cooldown_ms :: u64
  b_anchor :: instant
  b_failures :: u32
  b_open_until_ms :: u64

definition breaker_new :: "instant \<Rightarrow> breaker_config \<Rightarrow> breaker" where
  "breaker_new now cfg =
     \<lparr>b_threshold = bc_threshold cfg,
      b_cooldown_ms = u64_or_max (as_millis (bc_cooldown cfg)),
      b_anchor = now,
      b_failures = 0,
      b_open_until_ms = 0\<rparr>"

definition now_ms :: "breaker \<Rightarrow> instant \<Rightarrow> u64" where
  "now_ms b now = u64_or_max (as_millis (now - b_anchor b))"

definition breaker_check :: "breaker \<Rightarrow> instant \<Rightarrow> decision" where
  "breaker_check b now =
     (if b_threshold b = 0 then Allow
      else if b_failures b < b_threshold b then Allow
      else (let open_until = b_open_until_ms b in
            if open_until = 0 \<or> open_until \<le> now_ms b now then Allow else Reject))"

definition breaker_snapshot :: "breaker \<Rightarrow> instant \<Rightarrow> breaker_state" where
  "breaker_snapshot b now =
     (if b_threshold b = 0 \<or> b_failures b < b_threshold b then Closed
      else (let open_until = b_open_until_ms b in
            if open_until = 0 \<or> open_until \<le> now_ms b now then HalfOpen else Open))"

definition on_success :: "breaker \<Rightarrow> breaker" where
  "on_success b =
     (if b_threshold b = 0 then b
      else b\<lparr>b_open_until_ms := 0\<rparr>\<lparr>b_failures := 0\<rparr>)"

text \<open>\<open>fetch_add\<close> wraps around; the local \<open>new\<close> saturates.\<close>

definition on_failure :: "instant \<Rightarrow> breaker \<Rightarrow> breaker" where
  "on_failure now b =
     (if b_threshold b = 0 then b
      else (let prev = b_failures b;
                b = b\<lparr>b_failures := prev + 1\<rparr>;
                new = saturating_add prev 1 in
            if new = b_threshold b then
              (let til = saturating_add (now_ms b now) (b_cooldown_ms b) in b\<lparr>b_open_until_ms := til\<rparr>)
            else if b_threshold b < new then
              (let til = saturating_add (now_ms b now) (b_cooldown_ms b) in b\<lparr>b_open_until_ms := til\<rparr>)
            else b))"

subsection \<open>Atomic instructions and threads\<close>

text \<open>
  Where a thread is inside an update: the next atomic access it will make, with the values
  it has in its locals.
\<close>

datatype pc =
    Idle
  | SuccessEntered
  | SuccessCleared
  | FailureEntered
  | FailureAdded u32
  | FailureStoring u64

definition begin_success :: "breaker \<Rightarrow> pc" where
  "begin_success b = (if b_threshold b = 0 then Idle else SuccessEntered)"

definition begin_failure :: "breaker \<Rightarrow> pc" where
  "begin_failure b = (if b_threshold b = 0 then Idle else FailureEntered)"

fun atomic :: "instant \<Rightarrow> pc \<Rightarrow> breaker \<Rightarrow> pc \<times> breaker" where
  "atomic now Idle b = (Idle, b)"
| "atomic now SuccessEntered b = (SuccessCleared, b\<lparr>b_open_until_ms := 0\<rparr>)"
| "atomic now SuccessCleared b = (Idle, b\<lparr>b_failures := 0\<rparr>)"
| "atomic now FailureEntered b = (FailureAdded (b_failures b), b\<lparr>b_failures := b_failures b + 1\<rparr>)"
| "atomic now (FailureAdded prev) b =
     (let new = saturating_add prev 1 in
      if new = b_threshold b then
        (FailureStoring (saturating_add (now_ms b now) (b_cooldown_ms b)), b)
      else if b_threshold b < new then
        (FailureStoring (saturating_add (now_ms b now) (b_cooldown_ms b)), b)
      else (Idle, b))"
| "atomic now (FailureStoring til) b = (Idle, b\<lparr>b_open_until_ms := til\<rparr>)"

record shared =
  sh_breaker :: breaker
  sh_now :: instant
  sh_pc :: "nat \<Rightarrow> pc"

inductive breaker_step :: "shared \<Rightarrow> shared \<Rightarrow> bool" where
  tick: "breaker_step s (s\<lparr>sh_now := sh_now s + d\<rparr>)"
| enter_success:
    "sh_pc s i = Idle \<Longrightarrow>
     breaker_step s (s\<lparr>sh_pc := (sh_pc s)(i := begin_success (sh_breaker s))\<rparr>)"
| enter_failure:
    "sh_pc s i = Idle \<Longrightarrow>
     breaker_step s (s\<lparr>sh_pc := (sh_pc s)(i := begin_failure (sh_breaker s))\<rparr>)"
| run:
    "atomic (sh_now s) (sh_pc s i) (sh_breaker s) = (p, b) \<Longrightarrow>
     breaker_step s (s\<lparr>sh_breaker := b, sh_pc := (sh_pc s)(i := p)\<rparr>)"

definition breaker_init :: "instant \<Rightarrow> breaker_config \<Rightarrow> shared" where
  "breaker_init now cfg =
     \<lparr>sh_breaker = breaker_new now cfg, sh_now = now, sh_pc = (\<lambda>_. Idle)\<rparr>"

section \<open>Reference: histories of outcomes\<close>

datatype outcome = Success | Failure instant

fun observe :: "breaker \<Rightarrow> outcome \<Rightarrow> breaker" where
  "observe b Success = on_success b"
| "observe b (Failure now) = on_failure now b"

text \<open>The length of the run of failures at the end of a history.\<close>

definition failure_run :: "outcome list \<Rightarrow> nat" where
  "failure_run es = length (takeWhile (\<lambda>e. e \<noteq> Success) (rev es))"

section \<open>Interface: a gate in front of a backend\<close>

text \<open>
  What the load balancer relies on: a success opens the gate at once, an open gate stays open
  as time passes, and a closed one opens again by itself. Outcomes are recorded with
  \<open>succeed\<close> and \<open>fail\<close>.
\<close>

locale backend_gate =
  fixes allows :: "'b \<Rightarrow> instant \<Rightarrow> bool"
    and succeed :: "'b \<Rightarrow> 'b"
    and fail :: "instant \<Rightarrow> 'b \<Rightarrow> 'b"
  assumes succeed_allows: "allows (succeed b) t"
    and allows_later: "allows b t \<Longrightarrow> t \<le> t' \<Longrightarrow> allows b t'"
    and recovers: "\<exists>t. allows b t"
begin

fun record_outcome :: "'b \<Rightarrow> outcome \<Rightarrow> 'b" where
  "record_outcome b Success = succeed b"
| "record_outcome b (Failure t) = fail t b"

lemma history_success_allows: "allows (foldl record_outcome b (es @ [Success])) t"
  by (simp add: succeed_allows)

lemma all_recover: "\<exists>t. \<forall>t'\<ge>t. \<forall>b\<in>set bs. allows b t'"
proof (induction bs)
  case (Cons b bs)
  then obtain t1 where t1: "\<forall>t'\<ge>t1. \<forall>b\<in>set bs. allows b t'" by blast
  from recovers obtain t2 where "allows b t2" by blast
  with t1 have "\<forall>t'\<ge>max t1 t2. \<forall>b\<in>set (b # bs). allows b t'"
    by (auto intro: allows_later [of b t2])
  then show ?case by blast
qed simp

end

section \<open>Lemmas\<close>

subsection \<open>Sequential behaviour\<close>

lemma now_ms_mono: "t \<le> t' \<Longrightarrow> now_ms b t \<le> now_ms b t'"
  by (simp add: now_ms_def as_millis_def u64_or_max_mono div_le_mono)

lemma now_ms_max: "now_ms b (b_anchor b + 2 ^ 64 * 1000000) = - 1"
  by (simp add: now_ms_def as_millis_def u64_or_max_def)

lemma breaker_fields [simp]:
  "b_threshold (on_success b) = b_threshold b"
  "b_threshold (on_failure t b) = b_threshold b"
  "b_cooldown_ms (on_success b) = b_cooldown_ms b"
  "b_cooldown_ms (on_failure t b) = b_cooldown_ms b"
  "b_anchor (on_success b) = b_anchor b"
  "b_anchor (on_failure t b) = b_anchor b"
  by (simp_all add: on_success_def on_failure_def Let_def)

lemma now_ms_fields [simp]:
  "now_ms (on_success b) = now_ms b"
  "now_ms (on_failure t b) = now_ms b"
  "now_ms (b\<lparr>b_failures := f\<rparr>) = now_ms b"
  "now_ms (b\<lparr>b_open_until_ms := u\<rparr>) = now_ms b"
  by (simp_all add: now_ms_def fun_eq_iff)

text \<open>The explicit zero test of the deadline is subsumed by the comparison.\<close>

lemma breaker_check_Reject_iff:
  "breaker_check b t = Reject \<longleftrightarrow>
     b_threshold b \<noteq> 0 \<and> b_threshold b \<le> b_failures b \<and> now_ms b t < b_open_until_ms b"
  by (auto simp: breaker_check_def Let_def not_le not_less)

lemma on_failure_over:
  assumes "b_threshold b \<noteq> 0" "saturating_add (b_failures b) 1 = f" "b_failures b + 1 = f"
    "b_threshold b < f"
  shows "breaker_snapshot (on_failure t b) t' =
    (if now_ms b t' < saturating_add (now_ms b t) (b_cooldown_ms b) then Open else HalfOpen)"
proof -
  let ?u = "saturating_add (now_ms b t) (b_cooldown_ms b)"
  have "on_failure t b = b\<lparr>b_failures := f, b_open_until_ms := ?u\<rparr>"
    using assms by (simp add: on_failure_def Let_def)
  moreover have "\<not> f < b_threshold b" using assms(4) by auto
  ultimately show ?thesis using assms(1) by (simp add: breaker_snapshot_def Let_def not_less)
qed

lemma breaker_snapshot_Open_iff: "breaker_snapshot b t = Open \<longleftrightarrow> breaker_check b t = Reject"
  by (auto simp: breaker_check_def breaker_snapshot_def Let_def)

interpretation gate: backend_gate "\<lambda>b t. breaker_check b t = Allow" on_success on_failure
proof
  fix b t t'
  show "breaker_check (on_success b) t = Allow"
    by (auto simp: breaker_check_def on_success_def Let_def)
  show "breaker_check b t = Allow \<Longrightarrow> t \<le> t' \<Longrightarrow> breaker_check b t' = Allow"
    using now_ms_mono [of t t' b] by (auto simp: breaker_check_def Let_def split: if_splits)
  have "b_open_until_ms b \<le> now_ms b (b_anchor b + 2 ^ 64 * 1000000)"
    unfolding now_ms_max by (rule word_order.extremum)
  then have "breaker_check b (b_anchor b + 2 ^ 64 * 1000000) = Allow"
    unfolding breaker_check_def Let_def by simp
  then show "\<exists>t. breaker_check b t = Allow" by blast
qed

subsection \<open>Histories\<close>

lemma gate_record_outcome: "gate.record_outcome = observe"
proof (intro ext)
  fix b e show "gate.record_outcome b e = observe b e" by (cases e) simp_all
qed

lemma failure_run_simps [simp]:
  "failure_run [] = 0"
  "failure_run (es @ [Success]) = 0"
  "failure_run (es @ [Failure t]) = Suc (failure_run es)"
  by (simp_all add: failure_run_def)

lemma failure_run_le: "failure_run es \<le> length es"
  unfolding failure_run_def by (metis length_rev length_takeWhile_le)

lemma observe_threshold: "b_threshold (foldl observe b es) = b_threshold b"
proof (induction es arbitrary: b)
  case (Cons e es)
  then show ?case by (cases e) simp_all
qed simp

text \<open>The counter and the deadline of a breaker that has seen a history.\<close>

lemma observe_history:
  fixes es cfg t0
  defines "b \<equiv> foldl observe (breaker_new t0 cfg) es"
  assumes "length es < 2 ^ 32" and "bc_threshold cfg \<noteq> 0"
  shows "b_threshold b = bc_threshold cfg" and "b_anchor b = t0"
    and "b_cooldown_ms b = u64_or_max (as_millis (bc_cooldown cfg))"
    and "unat (b_failures b) = failure_run es"
    and "failure_run es < unat (bc_threshold cfg) \<or>
         (\<exists>t. last es = Failure t \<and> es \<noteq> [] \<and>
              b_open_until_ms b = saturating_add (now_ms b t) (b_cooldown_ms b))"
proof -
  have "b_threshold b = bc_threshold cfg \<and> b_anchor b = t0
    \<and> b_cooldown_ms b = u64_or_max (as_millis (bc_cooldown cfg))
    \<and> unat (b_failures b) = failure_run es
    \<and> (failure_run es < unat (bc_threshold cfg) \<or>
       (\<exists>t. last es = Failure t \<and> es \<noteq> [] \<and>
            b_open_until_ms b = saturating_add (now_ms b t) (b_cooldown_ms b)))"
    using assms(2) unfolding b_def
  proof (induction es rule: rev_induct)
    case Nil
    then show ?case using assms(3) by (simp add: breaker_new_def unat_gt_0)
  next
    case (snoc e es)
    let ?b = "foldl observe (breaker_new t0 cfg) es"
    from snoc have IH: "b_threshold ?b = bc_threshold cfg" "b_anchor ?b = t0"
      "b_cooldown_ms ?b = u64_or_max (as_millis (bc_cooldown cfg))"
      "unat (b_failures ?b) = failure_run es" by simp_all
    show ?case
    proof (cases e)
      case Success
      with IH assms(3) show ?thesis by (simp add: on_success_def unat_gt_0)
    next
      case (Failure t)
      have small: "Suc (failure_run es) < 2 ^ 32"
        using failure_run_le [of es] snoc.prems by simp
      then have count: "unat (b_failures ?b + 1) = Suc (failure_run es)"
        and new: "saturating_add (b_failures ?b) 1 = b_failures ?b + 1"
        using IH(4) by (simp_all add: unat_word_ariths saturating_add_def)
      have "b_failures (on_failure t ?b) = b_failures ?b + 1"
        using IH(1) assms(3) by (simp add: on_failure_def Let_def)
      moreover have "Suc (failure_run es) < unat (bc_threshold cfg) \<or>
          b_open_until_ms (on_failure t ?b) = saturating_add (now_ms ?b t) (b_cooldown_ms ?b)"
        using IH(1) assms(3) count new
        by (auto simp: on_failure_def Let_def word_less_nat_alt not_less word_unat_eq_iff)
      ultimately show ?thesis using IH count Failure by auto
    qed
  qed
  then show "b_threshold b = bc_threshold cfg" and "b_anchor b = t0"
    and "b_cooldown_ms b = u64_or_max (as_millis (bc_cooldown cfg))"
    and "unat (b_failures b) = failure_run es"
    and "failure_run es < unat (bc_threshold cfg) \<or>
         (\<exists>t. last es = Failure t \<and> es \<noteq> [] \<and>
              b_open_until_ms b = saturating_add (now_ms b t) (b_cooldown_ms b))"
    by blast+
qed

lemma deadline_reached:
  "u64_or_max a < saturating_add (u64_or_max c) (u64_or_max d) \<longleftrightarrow> a < c + d \<and> a < 2 ^ 64 - 1"
proof -
  have m: "min x (2 ^ 64 - 1) < min (min y (2 ^ 64 - 1) + min z (2 ^ 64 - 1)) (2 ^ 64 - 1)
      \<longleftrightarrow> x < y + z \<and> x < 2 ^ 64 - 1" for x y z :: nat
    by (auto simp: min_def)
  show ?thesis
    unfolding word_less_nat_alt unat_saturating_add unat_u64_or_max
    using m [of a c d] by simp
qed

subsection \<open>Interleavings\<close>

inductive_cases breaker_stepE: "breaker_step s s'"

text \<open>
  Uninterrupted, the atomic instructions are the sequential operations: two instructions for
  a success, three for a failure.
\<close>

lemma atomic_on_success:
  "(\<lambda>(p, b). snd (atomic t' p b)) (atomic t (begin_success b) b) = on_success b"
  by (simp add: begin_success_def on_success_def)

lemma atomic_on_failure:
  "(\<lambda>(p, b). (\<lambda>(p, b). snd (atomic t'' p b)) (atomic t p b)) (atomic t' (begin_failure b) b)
     = on_failure t b"
  by (simp add: begin_failure_def on_failure_def Let_def)

text \<open>A thread that will still repair the pair of cells: a pending reset or deadline.\<close>

fun repairs :: "u32 \<Rightarrow> pc \<Rightarrow> bool" where
  "repairs th SuccessCleared = True"
| "repairs th (FailureAdded prev) = (th \<le> saturating_add prev 1)"
| "repairs th (FailureStoring til) = True"
| "repairs th p = False"

definition armed_inv :: "shared \<Rightarrow> bool" where
  "armed_inv s \<longleftrightarrow>
     b_cooldown_ms (sh_breaker s) \<noteq> 0
     \<and> (\<forall>i til. sh_pc s i = FailureStoring til \<longrightarrow> til \<noteq> 0)
     \<and> (b_threshold (sh_breaker s) \<le> b_failures (sh_breaker s)
          \<and> b_threshold (sh_breaker s) \<noteq> 0 \<and> b_open_until_ms (sh_breaker s) = 0
        \<longrightarrow> (\<exists>i. repairs (b_threshold (sh_breaker s)) (sh_pc s i)))"


lemma deadline_nonzero:
  "b_cooldown_ms b \<noteq> 0 \<Longrightarrow> saturating_add (now_ms b t) (b_cooldown_ms b) \<noteq> 0"
  using saturating_add_ge2 [of "b_cooldown_ms b" "now_ms b t"] by auto

lemma add_reaches: "th \<le> f + 1 \<Longrightarrow> th \<le> saturating_add f 1" for f th :: u32
  by (simp add: saturating_add_def)

lemma atomic_cooldown [simp]:
  "atomic t p b = (p', b') \<Longrightarrow> b_cooldown_ms b' = b_cooldown_ms b"
  "atomic t p b = (p', b') \<Longrightarrow> b_threshold b' = b_threshold b"
  by (cases p; auto simp: Let_def split: if_splits)+

text \<open>Whatever one instruction breaks, its own thread repairs later.\<close>

lemma atomic_arms:
  assumes "atomic t p b = (p', b')" and "b_cooldown_ms b \<noteq> 0"
    and "\<And>til. p = FailureStoring til \<Longrightarrow> til \<noteq> 0"
    and "b_threshold b' \<le> b_failures b'" "b_threshold b' \<noteq> 0" "b_open_until_ms b' = 0"
  shows "repairs (b_threshold b) p' \<or>
    (b_threshold b \<le> b_failures b \<and> b_open_until_ms b = 0 \<and> \<not> repairs (b_threshold b) p)"
proof (cases p)
  case FailureEntered
  with assms show ?thesis by (auto intro: add_reaches)
next
  case (FailureAdded prev)
  then have "b' = b" and "p' = Idle \<longrightarrow> saturating_add prev 1 < b_threshold b"
    and "p' \<noteq> Idle \<longrightarrow> repairs (b_threshold b) p'"
    using assms(1) by (auto simp: Let_def not_less split: if_splits)
  then show ?thesis using assms FailureAdded by (auto simp: not_le)
qed (use assms in auto)

lemma armed_inv_step: "armed_inv s \<Longrightarrow> breaker_step s s' \<Longrightarrow> armed_inv s'"
proof (erule breaker_stepE)
  fix i assume inv: "armed_inv s" and idle: "sh_pc s i = Idle"
  show "s' = s\<lparr>sh_pc := (sh_pc s)(i := begin_success (sh_breaker s))\<rparr> \<Longrightarrow> armed_inv s'"
    using inv idle by (auto simp: armed_inv_def begin_success_def) (metis repairs.simps(4))+
  show "s' = s\<lparr>sh_pc := (sh_pc s)(i := begin_failure (sh_breaker s))\<rparr> \<Longrightarrow> armed_inv s'"
    using inv idle by (auto simp: armed_inv_def begin_failure_def) (metis repairs.simps(4))+
next
  fix d assume "armed_inv s" and "s' = s\<lparr>sh_now := sh_now s + d\<rparr>"
  then show "armed_inv s'" by (simp add: armed_inv_def)
next
  fix i p b
  assume inv: "armed_inv s" and s': "s' = s\<lparr>sh_breaker := b, sh_pc := (sh_pc s)(i := p)\<rparr>"
    and run: "atomic (sh_now s) (sh_pc s i) (sh_breaker s) = (p, b)"
  have stored: "p = FailureStoring til \<Longrightarrow> til \<noteq> 0" for til
    using run inv by (cases "sh_pc s i")
      (auto simp: armed_inv_def Let_def deadline_nonzero split: if_splits)
  have "\<exists>j. repairs (b_threshold b) (((sh_pc s)(i := p)) j)"
    if "b_threshold b \<le> b_failures b" "b_threshold b \<noteq> 0" "b_open_until_ms b = 0"
  proof -
    from inv have "repairs (b_threshold b) p \<or>
       (b_threshold b \<le> b_failures (sh_breaker s) \<and> b_open_until_ms (sh_breaker s) = 0
        \<and> \<not> repairs (b_threshold b) (sh_pc s i))"
      using atomic_arms [OF run _ _ that] run by (auto simp: armed_inv_def)
    then show ?thesis
      using inv run that by (auto simp: armed_inv_def)
  qed
  with inv run stored s' show "armed_inv s'" by (auto simp: armed_inv_def)
qed

interpretation armed: inductive_invariant
  "\<lambda>s. \<exists>t cfg. as_millis (bc_cooldown cfg) \<noteq> 0 \<and> s = breaker_init t cfg" breaker_step armed_inv
proof
  fix s assume "\<exists>t cfg. as_millis (bc_cooldown cfg) \<noteq> 0 \<and> s = breaker_init t cfg"
  then show "armed_inv s"
    by (auto simp: armed_inv_def breaker_init_def breaker_new_def unat_eq_0 [symmetric]
        unat_u64_or_max)
qed (rule armed_inv_step)

section \<open>Properties\<close>

text \<open>
  C21. A breaker rejects exactly when it should: after any history of fewer than
  \<open>2 ^ 32\<close> outcomes, a check is rejected if and only if the breaker is enabled, the run of
  failures since the last success has reached the threshold, and the last failure is younger
  than the cooldown (in whole milliseconds since the breaker was built).
\<close>

theorem breaker_history:
  assumes "length es < 2 ^ 32"
  shows "breaker_check (foldl observe (breaker_new t0 cfg) es) now = Reject \<longleftrightarrow>
    bc_threshold cfg \<noteq> 0 \<and> unat (bc_threshold cfg) \<le> failure_run es
    \<and> (\<exists>t. last es = Failure t
         \<and> as_millis (now - t0) < as_millis (t - t0) + as_millis (bc_cooldown cfg))
    \<and> as_millis (now - t0) < 2 ^ 64 - 1"
proof (cases "bc_threshold cfg = 0")
  case True
  then show ?thesis by (simp add: breaker_check_Reject_iff breaker_new_def observe_threshold)
next
  case False
  let ?b = "foldl observe (breaker_new t0 cfg) es"
  note h = observe_history [OF assms False, of t0]
  have now: "now_ms ?b x = u64_or_max (as_millis (x - t0))" for x
    by (simp add: now_ms_def h(2))
  show ?thesis
  proof (cases "failure_run es < unat (bc_threshold cfg)")
    case True
    then show ?thesis by (simp add: breaker_check_Reject_iff h word_le_nat_alt)
  next
    case run: False
    with h(5) obtain t where t: "last es = Failure t"
      and til: "b_open_until_ms ?b = saturating_add (now_ms ?b t) (b_cooldown_ms ?b)" by blast
    show ?thesis
      unfolding breaker_check_Reject_iff til h(1) now h(3) deadline_reached
      using run False t h(4) by (auto simp: word_le_nat_alt)
  qed
qed

lemma breaker_history_witness:
  "breaker_check (foldl observe (breaker_new 0 \<lparr>bc_threshold = 2, bc_cooldown = 5000000\<rparr>)
     [Failure 0, Success, Failure 1000000, Failure 2000000]) 3000000 = Reject"
  by (subst breaker_history) (simp_all add: as_millis_def failure_run_def)


text \<open>Thread 0 records the one failure that trips a breaker of threshold 1.\<close>

definition tripped_once :: shared where
  "tripped_once =
     \<lparr>sh_breaker = \<lparr>b_threshold = 1, b_cooldown_ms = 5, b_anchor = 0, b_failures = 1,
                     b_open_until_ms = 5\<rparr>, sh_now = 0, sh_pc = (\<lambda>_. Idle)\<rparr>"

lemma tripped_once_reachable:
  "breaker_step\<^sup>*\<^sup>* (breaker_init 0 \<lparr>bc_threshold = 1, bc_cooldown = 5000000\<rparr>) tripped_once"
proof -
  let ?b = "\<lambda>f u. \<lparr>b_threshold = 1, b_cooldown_ms = 5, b_anchor = 0, b_failures = f,
                   b_open_until_ms = u\<rparr>"
  let ?s = "\<lambda>f u p. \<lparr>sh_breaker = ?b f u, sh_now = 0, sh_pc = (\<lambda>_. Idle)(0 := p)\<rparr>"
  have init: "breaker_init 0 \<lparr>bc_threshold = 1, bc_cooldown = 5000000\<rparr> = ?s 0 0 Idle"
    by (simp add: breaker_init_def breaker_new_def u64_or_max_def as_millis_def fun_eq_iff)
  have run: "breaker_step (?s f u p) (?s f' u' p')"
    if "atomic 0 p (?b f u) = (p', ?b f' u')" for f u p f' u' p'
    using breaker_step.run [of "?s f u p" 0 p' "?b f' u'"] that by simp
  have "breaker_step (?s 0 0 Idle) (?s 0 0 FailureEntered)"
    using breaker_step.enter_failure [of "?s 0 0 Idle" 0] by (simp add: begin_failure_def)
  moreover have "breaker_step (?s 0 0 FailureEntered) (?s 1 0 (FailureAdded 0))"
    by (rule run) simp
  moreover have "breaker_step (?s 1 0 (FailureAdded 0)) (?s 1 0 (FailureStoring 5))"
    by (rule run) (simp add: saturating_add_def now_ms_def u64_or_max_def as_millis_def)
  moreover have "breaker_step (?s 1 0 (FailureStoring 5)) (?s 1 5 Idle)"
    by (rule run) simp
  moreover have "?s 1 5 Idle = tripped_once"
    by (simp add: tripped_once_def fun_eq_iff)
  ultimately show ?thesis unfolding init
    by (metis (no_types, lifting) rtranclp.rtrancl_into_rtrancl rtranclp.rtrancl_refl)
qed


text \<open>
  The half-open state is a probe: a tripped breaker whose cooldown has elapsed admits a
  request; if that succeeds the breaker is closed at every later check, and if it fails the
  breaker is open again for a full cooldown counted from that failure, as long as the failure
  counter has not reached its last value.
\<close>

theorem half_open_probe:
  assumes "breaker_snapshot b t = HalfOpen" and "b_failures b \<noteq> - 1"
  shows "breaker_check b t = Allow
    \<and> (\<forall>t'. breaker_snapshot (on_success b) t' = Closed)
    \<and> (\<forall>t'. breaker_snapshot (on_failure t b) t' =
            (if now_ms b t' < saturating_add (now_ms b t) (b_cooldown_ms b)
             then Open else HalfOpen))"
proof -
  from assms(1) have th: "b_threshold b \<noteq> 0" "b_threshold b \<le> b_failures b"
    and open_til: "b_open_until_ms b = 0 \<or> b_open_until_ms b \<le> now_ms b t"
    by (auto simp: breaker_snapshot_def Let_def not_less split: if_splits)
  have "unat (b_failures b) + 1 < 2 ^ 32"
  proof -
    have "unat (- 1 :: u32) = 4294967295" using unat_max_word [where 'a = 32] by simp
    then have "unat (b_failures b) \<noteq> 4294967295" using assms(2) by (metis word_unat_eq_iff)
    with unat_bound [of "b_failures b"] show ?thesis by simp
  qed
  then have new: "saturating_add (b_failures b) 1 = b_failures b + 1"
    and gt: "b_failures b < b_failures b + 1"
    by (simp_all add: saturating_add_def word_less_nat_alt unat_word_ariths)
  have over: "b_threshold b < b_failures b + 1" using th(2) gt by (rule le_less_trans)
  from on_failure_over [OF th(1) new refl over]
  have "breaker_snapshot (on_failure t b) t' =
      (if now_ms b t' < saturating_add (now_ms b t) (b_cooldown_ms b) then Open else HalfOpen)" for t'
    by blast
  moreover have "breaker_check b t = Allow" using open_til by (auto simp: breaker_check_def Let_def)
  moreover have "breaker_snapshot (on_success b) t' = Closed" for t'
    using th(1) by (simp add: breaker_snapshot_def on_success_def word_neq_0_conv)
  ultimately show ?thesis by blast
qed

lemma half_open_probe_witness:
  "breaker_snapshot (on_failure 9000000 (sh_breaker tripped_once)) 13000000 = Open"
  using half_open_probe [of "sh_breaker tripped_once" 9000000]
  by (simp add: tripped_once_def breaker_snapshot_def now_ms_def u64_or_max_def as_millis_def
      saturating_add_def)

text \<open>
  The failure counter is 32 bits wide and \<open>fetch_add\<close> wraps: the failure recorded at the
  last value of the counter closes an enabled breaker, although every outcome it has seen was
  a failure.
\<close>

theorem failure_counter_wraps:
  assumes "b_threshold b \<noteq> 0" and "b_failures b = - 1"
  shows "b_failures (on_failure t b) = 0 \<and> breaker_check (on_failure t b) t' = Allow"
proof -
  have "b_failures (on_failure t b) = 0"
    using assms by (simp add: on_failure_def Let_def)
  moreover have "0 < b_threshold b" using assms(1) by (simp add: word_neq_0_conv)
  ultimately show ?thesis by (simp add: breaker_check_def)
qed

lemma failure_counter_wraps_witness:
  "breaker_check (on_failure 0 ((sh_breaker tripped_once)\<lparr>b_failures := - 1\<rparr>)) 1 = Allow"
  using failure_counter_wraps [of "(sh_breaker tripped_once)\<lparr>b_failures := - 1\<rparr>" 0 1]
  by (simp add: tripped_once_def)

end
