(* ===== verification/Conduit_Pool.thy ===== *)
theory Conduit_Pool
  imports Conduit_Http Conduit_Breaker
begin

text \<open>
  \<^verbatim>\<open>conduit-upstream/src/retry.rs\<close> and the first part of \<^verbatim>\<open>conduit-upstream/src/lib.rs\<close>: the
  retry policy, the TLS options of an upstream, the \<open>Upstream\<close> struct with its constructors,
  the round-robin selection \<open>pick_addr\<close> and the aggregate breaker state.

  Files, PEM and \<open>rustls\<close> are the fields of the argument \<open>tls_crates\<close>. A panic (a failed
  \<open>expect\<close>, an index out of range) is the value \<open>None\<close> of an outer option. Every breaker check
  reads the clock, so an operation that checks several takes the sequence of instants.
\<close>

section \<open>Retry policy\<close>

datatype retry_decision = Stop | Retry

record retry_policy =
  rp_attempts :: u32
  rp_on_status :: "u16 list"
  rp_on_connect_error :: bool

definition retry_default :: retry_policy where
  "retry_default = \<lparr>rp_attempts = 0, rp_on_status = [], rp_on_connect_error = False\<rparr>"

definition retry_none :: retry_policy where
  "retry_none = retry_default"

definition retry_from_config :: "retry_cfg \<Rightarrow> retry_policy" where
  "retry_from_config cfg =
     \<lparr>rp_attempts = rc_attempts cfg, rp_on_status = rc_on_status cfg,
      rp_on_connect_error = rc_on_connect_error cfg\<rparr>"

definition decide_status :: "retry_policy \<Rightarrow> status \<Rightarrow> u32 \<Rightarrow> retry_decision" where
  "decide_status p status attempt =
     (if \<not> List.member (rp_on_status p) status then Stop
      else if rp_attempts p \<le> attempt + 1 then Stop
      else Retry)"

section \<open>TLS options\<close>

record upstream_tls_options =
  uo_ca :: "string option"
  uo_client_cert :: "string option"
  uo_client_key :: "string option"
  uo_verify :: bool

text \<open>The wrapped I/O and \<open>rustls\<close> errors are their rendered text.\<close>

datatype tls_load_error =
    ReadFile string string
  | EmptyPem string
  | Rustls string
  | MismatchedClientCert

record ('cert, 'key, 'roots) tls_crates =
  fs_read :: "string \<Rightarrow> string + string"
  cert_pem_iter :: "string \<Rightarrow> (string + 'cert) list"
  key_from_pem :: "string \<Rightarrow> string + 'key"
  roots_empty :: 'roots
  roots_add :: "'cert \<Rightarrow> 'roots \<Rightarrow> string + 'roots"
  roots_webpki :: "'roots \<Rightarrow> 'roots"
  client_auth_cert :: "'cert list \<Rightarrow> 'key \<Rightarrow> string + unit"

datatype verifier = StandardVerifier | InsecureVerifier

text \<open>
  What the verifiers answer during a handshake: the permissive one accepts every certificate and
  every signature, the standard one (an argument) is \<open>rustls\<close>'s own.
\<close>

definition verify_server_cert ::
  "('cert \<Rightarrow> string \<Rightarrow> string + unit) \<Rightarrow> verifier \<Rightarrow> 'cert \<Rightarrow> string \<Rightarrow> string + unit" where
  "verify_server_cert webpki v end_entity server_name =
     (case v of InsecureVerifier \<Rightarrow> Inr () | StandardVerifier \<Rightarrow> webpki end_entity server_name)"

definition verify_tls12_signature ::
  "(string \<Rightarrow> 'cert \<Rightarrow> 'dss \<Rightarrow> string + unit) \<Rightarrow> verifier \<Rightarrow> string \<Rightarrow> 'cert \<Rightarrow> 'dss \<Rightarrow> string + unit" where
  "verify_tls12_signature webpki v message cert dss =
     (case v of InsecureVerifier \<Rightarrow> Inr () | StandardVerifier \<Rightarrow> webpki message cert dss)"

definition verify_tls13_signature ::
  "(string \<Rightarrow> 'cert \<Rightarrow> 'dss \<Rightarrow> string + unit) \<Rightarrow> verifier \<Rightarrow> string \<Rightarrow> 'cert \<Rightarrow> 'dss \<Rightarrow> string + unit" where
  "verify_tls13_signature webpki v message cert dss =
     (case v of InsecureVerifier \<Rightarrow> Inr () | StandardVerifier \<Rightarrow> webpki message cert dss)"

record ('cert, 'key, 'roots) client_config =
  cc_roots :: 'roots
  cc_client_auth :: "('cert list \<times> 'key) option"
  cc_verifier :: verifier

text \<open>The loop over the CA bundle: every certificate of the file is added, in order.\<close>

fun add_roots ::
  "('cert, 'key, 'roots) tls_crates \<Rightarrow> string \<Rightarrow> (string + 'cert) list \<Rightarrow> 'roots \<Rightarrow> nat
   \<Rightarrow> tls_load_error + 'roots \<times> nat" where
  "add_roots Y path [] roots added = Inr (roots, added)"
| "add_roots Y path (Inl e # cs) roots added = Inl (ReadFile path e)"
| "add_roots Y path (Inr cert # cs) roots added =
     (case roots_add Y cert roots of
        Inl e \<Rightarrow> Inl (Rustls e)
      | Inr roots' \<Rightarrow> add_roots Y path cs roots' (added + 1))"

fun collect_chain :: "string \<Rightarrow> (string + 'cert) list \<Rightarrow> 'cert list \<Rightarrow> tls_load_error + 'cert list" where
  "collect_chain path [] chain = Inr chain"
| "collect_chain path (Inl e # cs) chain = Inl (ReadFile path e)"
| "collect_chain path (Inr c # cs) chain = collect_chain path cs (chain @ [c])"

definition load_roots ::
  "('cert, 'key, 'roots) tls_crates \<Rightarrow> upstream_tls_options \<Rightarrow> tls_load_error + 'roots" where
  "load_roots Y opts =
     (case uo_ca opts of
        Some path \<Rightarrow>
          (case fs_read Y path of
             Inl e \<Rightarrow> Inl (ReadFile path e)
           | Inr bytes \<Rightarrow>
               (case add_roots Y path (cert_pem_iter Y bytes) (roots_empty Y) 0 of
                  Inl e \<Rightarrow> Inl e
                | Inr (roots, added) \<Rightarrow> if added = 0 then Inl (EmptyPem path) else Inr roots))
      | None \<Rightarrow> Inr (roots_webpki Y (roots_empty Y)))"

definition load_client_auth ::
  "('cert, 'key, 'roots) tls_crates \<Rightarrow> upstream_tls_options
   \<Rightarrow> tls_load_error + ('cert list \<times> 'key) option" where
  "load_client_auth Y opts =
     (case (uo_client_cert opts, uo_client_key opts) of
        (Some cert_path, Some key_path) \<Rightarrow>
          (case fs_read Y cert_path of
             Inl e \<Rightarrow> Inl (ReadFile cert_path e)
           | Inr cert_bytes \<Rightarrow>
               (case collect_chain cert_path (cert_pem_iter Y cert_bytes) [] of
                  Inl e \<Rightarrow> Inl e
                | Inr chain \<Rightarrow>
                    if chain = [] then Inl (EmptyPem cert_path)
                    else (case fs_read Y key_path of
                            Inl e \<Rightarrow> Inl (ReadFile key_path e)
                          | Inr key_bytes \<Rightarrow>
                              (case key_from_pem Y key_bytes of
                                 Inl e \<Rightarrow> Inl (ReadFile key_path e)
                               | Inr key \<Rightarrow> Inr (Some (chain, key))))))
      | (None, None) \<Rightarrow> Inr None
      | _ \<Rightarrow> Inl MismatchedClientCert)"

definition build_client_config ::
  "('cert, 'key, 'roots) tls_crates \<Rightarrow> upstream_tls_options
   \<Rightarrow> tls_load_error + ('cert, 'key, 'roots) client_config" where
  "build_client_config Y opts =
     (case load_roots Y opts of
        Inl e \<Rightarrow> Inl e
      | Inr roots \<Rightarrow>
          (case load_client_auth Y opts of
             Inl e \<Rightarrow> Inl e
           | Inr client_auth \<Rightarrow>
               (case (case client_auth of
                        Some (chain, key) \<Rightarrow>
                          (case client_auth_cert Y chain key of
                             Inl e \<Rightarrow> Inl (Rustls e)
                           | Inr _ \<Rightarrow> Inr (Some (chain, key)))
                      | None \<Rightarrow> Inr None) of
                  Inl e \<Rightarrow> Inl e
                | Inr auth \<Rightarrow>
                    Inr \<lparr>cc_roots = roots, cc_client_auth = auth,
                         cc_verifier = (if uo_verify opts then StandardVerifier
                                        else InsecureVerifier)\<rparr>)))"

text \<open>
  The connector a client dials with: the TCP connect timeout and the TLS configuration. It
  serves \<open>http\<close> and \<open>https\<close> URIs and offers HTTP/1.1 and HTTP/2 in both cases.
\<close>

record ('cert, 'key, 'roots) connector =
  cn_connect_timeout :: "duration option"
  cn_tls :: "('cert, 'key, 'roots) client_config"

definition build_https_connector ::
  "('cert, 'key, 'roots) tls_crates \<Rightarrow> duration option \<Rightarrow> upstream_tls_options option
   \<Rightarrow> tls_load_error + ('cert, 'key, 'roots) connector" where
  "build_https_connector Y connect_timeout tls =
     (case tls of
        None \<Rightarrow>
          Inr \<lparr>cn_connect_timeout = connect_timeout,
               cn_tls = \<lparr>cc_roots = roots_webpki Y (roots_empty Y), cc_client_auth = None,
                         cc_verifier = StandardVerifier\<rparr>\<rparr>
      | Some opts \<Rightarrow>
          (case build_client_config Y opts of
             Inl e \<Rightarrow> Inl e
           | Inr client_cfg \<Rightarrow>
               Inr \<lparr>cn_connect_timeout = connect_timeout, cn_tls = client_cfg\<rparr>))"

section \<open>Upstream\<close>

record 'cl upstream =
  u_client :: 'cl
  u_retry :: retry_policy
  u_addrs :: "socket_addr list"
  u_authorities :: "string list"
  u_next :: usize
  u_breakers :: "breaker list"

text \<open>\<open>Authority::from_maybe_shared(..).expect(..)\<close> for every address.\<close>

fun build_authorities ::
  "('re, 'hm) crates \<Rightarrow> socket_addr list \<Rightarrow> string list option" where
  "build_authorities X [] = Some []"
| "build_authorities X (a # as) =
     (case authority_try_from X (addr_to_string a) of
        None \<Rightarrow> None
      | Some au \<Rightarrow> map_option ((#) au) (build_authorities X as))"

definition with_tls ::
  "('re, 'hm) crates \<Rightarrow> ('cert, 'key, 'roots) tls_crates
   \<Rightarrow> (nat \<Rightarrow> instant) \<Rightarrow> retry_policy \<Rightarrow> socket_addr list \<Rightarrow> breaker_config
   \<Rightarrow> duration option \<Rightarrow> upstream_tls_options option
   \<Rightarrow> (tls_load_error + ('cert, 'key, 'roots) connector upstream) option" where
  "with_tls X Y clk retry addrs breaker connect_timeout tls =
     (case build_https_connector Y connect_timeout tls of
        Inl e \<Rightarrow> Some (Inl e)
      | Inr connector \<Rightarrow>
          (let breakers = map (\<lambda>i. breaker_new (clk i) breaker) [0..<length addrs] in
           case build_authorities X addrs of
             None \<Rightarrow> None
           | Some authorities \<Rightarrow>
               Some (Inr \<lparr>u_client = connector, u_retry = retry, u_addrs = addrs,
                          u_authorities = authorities, u_next = 0, u_breakers = breakers\<rparr>)))"

definition with_options ::
  "('re, 'hm) crates \<Rightarrow> ('cert, 'key, 'roots) tls_crates
   \<Rightarrow> (nat \<Rightarrow> instant) \<Rightarrow> retry_policy \<Rightarrow> socket_addr list \<Rightarrow> breaker_config
   \<Rightarrow> duration option \<Rightarrow> ('cert, 'key, 'roots) connector upstream option" where
  "with_options X Y clk retry addrs breaker connect_timeout =
     (case with_tls X Y clk retry addrs breaker connect_timeout None of
        Some (Inr u) \<Rightarrow> Some u
      | _ \<Rightarrow> None)"

definition with_breaker ::
  "('re, 'hm) crates \<Rightarrow> ('cert, 'key, 'roots) tls_crates
   \<Rightarrow> (nat \<Rightarrow> instant) \<Rightarrow> retry_policy \<Rightarrow> socket_addr list \<Rightarrow> breaker_config
   \<Rightarrow> ('cert, 'key, 'roots) connector upstream option" where
  "with_breaker X Y clk retry addrs breaker =
     with_options X Y clk retry addrs breaker None"

definition with_addrs ::
  "('re, 'hm) crates \<Rightarrow> ('cert, 'key, 'roots) tls_crates
   \<Rightarrow> (nat \<Rightarrow> instant) \<Rightarrow> retry_policy \<Rightarrow> socket_addr list
   \<Rightarrow> ('cert, 'key, 'roots) connector upstream option" where
  "with_addrs X Y clk retry addrs =
     with_breaker X Y clk retry addrs breaker_config_default"

definition upstream_new ::
  "('re, 'hm) crates \<Rightarrow> ('cert, 'key, 'roots) tls_crates
   \<Rightarrow> (nat \<Rightarrow> instant) \<Rightarrow> retry_policy \<Rightarrow> ('cert, 'key, 'roots) connector upstream option" where
  "upstream_new X Y clk retry = with_addrs X Y clk retry []"

text \<open>
  The scan of \<open>pick_addr\<close>: \<open>offset\<close> counts up to the number of addresses, \<open>left\<close> positions
  remain. The index is computed in \<open>usize\<close>; the counter wraps.
\<close>

fun pick_scan ::
  "(nat \<Rightarrow> instant) \<Rightarrow> 'cl upstream \<Rightarrow> usize \<Rightarrow> nat \<Rightarrow> nat \<Rightarrow> (socket_addr \<times> nat) option option" where
  "pick_scan clk u start offset 0 = Some None"
| "pick_scan clk u start offset (Suc left) =
     (let len = length (u_addrs u);
          idx = unat ((start + of_nat offset) mod of_nat len) in
      if idx < length (u_breakers u) then
        (case breaker_check (u_breakers u ! idx) (clk offset) of
           Allow \<Rightarrow> if idx < length (u_addrs u) then Some (Some (u_addrs u ! idx, idx)) else None
         | Reject \<Rightarrow> pick_scan clk u start (offset + 1) left)
      else None)"

definition pick_addr ::
  "(nat \<Rightarrow> instant) \<Rightarrow> 'cl upstream \<Rightarrow> ('cl upstream \<times> (socket_addr \<times> nat) option) option" where
  "pick_addr clk u =
     (if u_addrs u = [] then Some (u, None)
      else (let start = u_next u;
                u = u\<lparr>u_next := start + 1\<rparr>;
                len = length (u_addrs u) in
            map_option (\<lambda>r. (u, r)) (pick_scan clk u start 0 len)))"

text \<open>The counting loop of \<open>breaker_state\<close>: closed and open breakers, each read at its instant.\<close>

fun count_states :: "(nat \<Rightarrow> instant) \<Rightarrow> nat \<Rightarrow> breaker list \<Rightarrow> nat \<times> nat \<Rightarrow> nat \<times> nat" where
  "count_states clk i [] acc = acc"
| "count_states clk i (b # bs) (closed, opn) =
     count_states clk (i + 1) bs
       (case breaker_snapshot b (clk i) of
          Closed \<Rightarrow> (closed + 1, opn)
        | Open \<Rightarrow> (closed, opn + 1)
        | HalfOpen \<Rightarrow> (closed, opn))"

definition breaker_state_of :: "(nat \<Rightarrow> instant) \<Rightarrow> 'cl upstream \<Rightarrow> breaker_state" where
  "breaker_state_of clk u =
     (if u_breakers u = [] then Closed
      else (case count_states clk 0 (u_breakers u) (0, 0) of
              (closed, opn) \<Rightarrow>
                if closed = length (u_breakers u) then Closed
                else if opn = length (u_breakers u) then Open
                else HalfOpen))"

text \<open>What the constructors establish: the three arrays run in parallel.\<close>

definition upstream_wf :: "'cl upstream \<Rightarrow> bool" where
  "upstream_wf u \<longleftrightarrow>
     length (u_authorities u) = length (u_addrs u) \<and> length (u_breakers u) = length (u_addrs u)
     \<and> length (u_addrs u) < 2 ^ 64"


text \<open>The backend a scan tries at an offset.\<close>

definition slot :: "'cl upstream \<Rightarrow> usize \<Rightarrow> nat \<Rightarrow> nat" where
  "slot u start k = unat ((start + of_nat k) mod of_nat (length (u_addrs u)))"

text \<open>Successive picks, one clock per pick; the indices chosen.\<close>

fun pick_many :: "(nat \<Rightarrow> instant) list \<Rightarrow> 'cl upstream \<Rightarrow> nat option list option" where
  "pick_many [] u = Some []"
| "pick_many (clk # clks) u =
     (case pick_addr clk u of
        None \<Rightarrow> None
      | Some (u', r) \<Rightarrow> map_option ((#) (map_option snd r)) (pick_many clks u'))"

section \<open>Lemmas\<close>

subsection \<open>Selection\<close>

lemma slot_less: "u_addrs u \<noteq> [] \<Longrightarrow> length (u_addrs u) < 2 ^ 64 \<Longrightarrow> slot u start k < length (u_addrs u)"
  by (simp add: slot_def unat_mod unat_of_nat)

lemma slot_no_wrap:
  assumes "unat start + k < 2 ^ 64" and "length (u_addrs u) < 2 ^ 64"
  shows "slot u start k = (unat start + k) mod length (u_addrs u)"
  using assms by (simp add: slot_def unat_mod unat_of_nat unat_word_ariths)

lemma slots_cover:
  assumes "unat start + length (u_addrs u) \<le> 2 ^ 64" and "length (u_addrs u) < 2 ^ 64"
    and "i < length (u_addrs u)"
  shows "\<exists>k<length (u_addrs u). slot u start k = i"
proof -
  let ?n = "length (u_addrs u)"
  define k where "k = (i + ?n - unat start mod ?n) mod ?n"
  have n: "0 < ?n" using assms(3) by linarith
  then have m: "unat start mod ?n < ?n" by (rule mod_less_divisor)
  have "(unat start + k) mod ?n = (unat start mod ?n + (i + ?n - unat start mod ?n)) mod ?n"
    by (simp add: k_def mod_simps)
  also have "\<dots> = (i + ?n) mod ?n" using m by simp
  also have "\<dots> = i" using assms(3) by simp
  finally have "(unat start + k) mod ?n = i" .
  moreover have "k < ?n" using n by (simp add: k_def)
  ultimately show ?thesis using slot_no_wrap [of start k u] assms by fastforce
qed

lemma pick_scan_find:
  assumes "upstream_wf u" and "u_addrs u \<noteq> []"
  shows "pick_scan clk u start off left =
    Some (map_option (\<lambda>k. (u_addrs u ! slot u start k, slot u start k))
      (List.find (\<lambda>k. breaker_check (u_breakers u ! slot u start k) (clk k) = Allow)
         [off..<off + left]))"
proof (induction left arbitrary: off)
  case (Suc left)
  have "slot u start off < length (u_addrs u)"
    using assms by (simp add: slot_less upstream_wf_def)
  then show ?case
    using assms(1) Suc.IH [of "off + 1"]
    by (simp add: upstream_wf_def Let_def slot_def [symmetric] upt_conv_Cons del: upt_Suc
        split: decision.split)
qed simp

lemma pick_addr_find:
  assumes "upstream_wf u" and "u_addrs u \<noteq> []"
  shows "pick_addr clk u =
    Some (u\<lparr>u_next := u_next u + 1\<rparr>,
      map_option (\<lambda>k. (u_addrs u ! slot u (u_next u) k, slot u (u_next u) k))
        (List.find (\<lambda>k. breaker_check (u_breakers u ! slot u (u_next u) k) (clk k) = Allow)
           [0..<length (u_addrs u)]))"
proof -
  let ?u = "u\<lparr>u_next := u_next u + 1\<rparr>"
  have "upstream_wf ?u" and "slot ?u = slot u"
    using assms(1) by (simp_all add: upstream_wf_def slot_def fun_eq_iff)
  with assms(2) pick_scan_find [of ?u clk "u_next u" 0 "length (u_addrs u)"]
  show ?thesis by (simp add: pick_addr_def Let_def)
qed

lemma decision_not [simp]: "d \<noteq> Allow \<longleftrightarrow> d = Reject" "d \<noteq> Reject \<longleftrightarrow> d = Allow"
  by (cases d; simp)+

lemma pick_addr_wf:
  "upstream_wf u \<Longrightarrow> pick_addr clk u = Some (u', r) \<Longrightarrow>
   upstream_wf u' \<and> u_breakers u' = u_breakers u \<and> u_addrs u' = u_addrs u
   \<and> u_authorities u' = u_authorities u \<and> u_retry u' = u_retry u \<and> u_client u' = u_client u"
  by (cases "u_addrs u = []") (auto simp: pick_addr_def upstream_wf_def Let_def)

lemma pick_addr_index:
  "upstream_wf u \<Longrightarrow> u_addrs u \<noteq> [] \<Longrightarrow> pick_addr clk u = Some (u', Some (addr, i)) \<Longrightarrow>
   i < length (u_addrs u) \<and> addr = u_addrs u ! i"
  using slot_less [of u "u_next u"] by (auto simp: pick_addr_find upstream_wf_def)

subsection \<open>Construction\<close>

lemma build_authorities_length: "build_authorities X as = Some aus \<Longrightarrow> length aus = length as"
  by (induction as arbitrary: aus) (auto split: option.splits)

lemma build_authorities_nth:
  "build_authorities X as = Some aus \<Longrightarrow> i < length as \<Longrightarrow>
   authority_try_from X (addr_to_string (as ! i)) = Some (aus ! i)"
  by (induction as arbitrary: aus i) (auto simp: nth_Cons split: option.splits nat.split)

lemma count_states_bound:
  "count_states clk i bs (c, n) = (c', n') \<Longrightarrow>
   c' = c + length (filter (\<lambda>k. breaker_snapshot (bs ! k) (clk (i + k)) = Closed) [0..<length bs])
   \<and> n' = n + length (filter (\<lambda>k. breaker_snapshot (bs ! k) (clk (i + k)) = Open) [0..<length bs])"
proof (induction bs arbitrary: i c n)
  case (Cons b bs)
  have shift: "length (filter (\<lambda>k. P ((b # bs) ! k) (i + k)) [0..<Suc (length bs)]) =
      (if P b i then 1 else 0) + length (filter (\<lambda>k. P (bs ! k) (i + 1 + k)) [0..<length bs])"
    for P
    by (simp add: upt_conv_Cons map_Suc_upt [symmetric] filter_map comp_def del: upt_Suc)
  show ?case
    using Cons.prems Cons.IH [of "i + 1"]
    unfolding length_Cons shift [of "\<lambda>b k. breaker_snapshot b (clk k) = Closed"]
      shift [of "\<lambda>b k. breaker_snapshot b (clk k) = Open"]
    by (cases "breaker_snapshot b (clk i)") (force simp del: upt_Suc)+
qed simp

lemma length_filter_upt_all: "length (filter P [0..<n]) = n \<longleftrightarrow> (\<forall>k<n. P k)"
  using length_filter_less [of _ "[0..<n]" P] by (force simp: filter_id_conv)


text \<open>
  Verification is off exactly when the document says so: a client configuration accepts a peer
  that \<open>rustls\<close> rejects only if it was built with \<open>verify = false\<close>, and then it accepts every peer.
\<close>

lemma client_config_verifies:
  assumes "build_client_config Y opts = Inr cfg"
  shows "verify_server_cert webpki (cc_verifier cfg) cert name =
      (if uo_verify opts then webpki cert name else Inr ())"
    and "verify_tls12_signature sig12 (cc_verifier cfg) msg cert dss =
      (if uo_verify opts then sig12 msg cert dss else Inr ())"
    and "verify_tls13_signature sig13 (cc_verifier cfg) msg cert dss =
      (if uo_verify opts then sig13 msg cert dss else Inr ())"
  using assms
  by (auto simp: build_client_config_def verify_server_cert_def verify_tls12_signature_def
      verify_tls13_signature_def split: sum.splits option.splits if_splits)

lemma connector_verifies:
  assumes "build_https_connector Y connect_timeout tls = Inr c"
  shows "verify_server_cert webpki (cc_verifier (cn_tls c)) cert name =
    (case tls of Some opts \<Rightarrow> if uo_verify opts then webpki cert name else Inr () | None \<Rightarrow> webpki cert name)"
proof (cases tls)
  case None
  then show ?thesis using assms by (auto simp: build_https_connector_def verify_server_cert_def)
next
  case (Some opts)
  then obtain cfg where "build_client_config Y opts = Inr cfg" "cn_tls c = cfg"
    using assms by (auto simp: build_https_connector_def split: sum.splits)
  with Some show ?thesis by (simp add: client_config_verifies)
qed

subsection \<open>A pool for the witnesses\<close>

definition sample_tls_crates :: "(string, string, string list) tls_crates" where
  "sample_tls_crates =
     \<lparr>fs_read = (\<lambda>p. if p = ''ca.pem'' then Inr ''CA'' else Inl ''not found''),
      cert_pem_iter = (\<lambda>bytes. [Inr bytes]), key_from_pem = Inr, roots_empty = [],
      roots_add = (\<lambda>c rs. Inr (c # rs)), roots_webpki = (\<lambda>rs. ''webpki'' # rs),
      client_auth_cert = (\<lambda>chain key. Inr ())\<rparr>"

definition open_breaker :: breaker where
  "open_breaker = \<lparr>b_threshold = 1, b_cooldown_ms = 5, b_anchor = 0, b_failures = 1, b_open_until_ms = 5\<rparr>"

definition closed_breaker :: breaker where
  "closed_breaker = \<lparr>b_threshold = 1, b_cooldown_ms = 5, b_anchor = 0, b_failures = 0, b_open_until_ms = 0\<rparr>"

definition sample_pool :: "usize \<Rightarrow> breaker list \<Rightarrow> unit upstream" where
  "sample_pool next bs =
     \<lparr>u_client = (), u_retry = retry_none, u_addrs = map (sample_addr \<circ> of_nat) [0..<length bs],
      u_authorities = map (addr_to_string \<circ> sample_addr \<circ> of_nat) [0..<length bs],
      u_next = next, u_breakers = bs\<rparr>"

lemmas sample_pool_simps = sample_pool_def open_breaker_def closed_breaker_def upstream_wf_def

section \<open>Properties\<close>

text \<open>
  C22. \<open>pick_addr\<close> on a pool whose arrays run in parallel never panics and advances the counter
  by one. It returns the first backend in rotation order whose breaker allows at the instant
  it was checked, together with that backend's own index and address; it returns none only if
  every position it tried was rejected.
\<close>

theorem pick_addr_first_allowed:
  assumes "upstream_wf u" and "u_addrs u \<noteq> []"
  shows "\<exists>r. pick_addr clk u = Some (u\<lparr>u_next := u_next u + 1\<rparr>, r)
    \<and> (case r of
         Some (addr, i) \<Rightarrow>
           i < length (u_addrs u) \<and> addr = u_addrs u ! i
           \<and> (\<exists>k<length (u_addrs u). i = slot u (u_next u) k
                \<and> breaker_check (u_breakers u ! i) (clk k) = Allow
                \<and> (\<forall>j<k. breaker_check (u_breakers u ! slot u (u_next u) j) (clk j) = Reject))
       | None \<Rightarrow>
           (\<forall>k<length (u_addrs u).
              breaker_check (u_breakers u ! slot u (u_next u) k) (clk k) = Reject))"
proof (cases "List.find (\<lambda>k. breaker_check (u_breakers u ! slot u (u_next u) k) (clk k) = Allow)
         [0..<length (u_addrs u)]")
  case None
  then have "\<forall>k<length (u_addrs u).
      breaker_check (u_breakers u ! slot u (u_next u) k) (clk k) = Reject"
    by (simp add: find_None_iff)
  with None assms show ?thesis by (simp add: pick_addr_find)
next
  case (Some k)
  then have "k < length (u_addrs u)"
    and "breaker_check (u_breakers u ! slot u (u_next u) k) (clk k) = Allow"
    and "\<forall>j<k. breaker_check (u_breakers u ! slot u (u_next u) j) (clk j) = Reject"
    by (auto simp: find_Some_iff)
  with Some assms show ?thesis
    by (auto simp: pick_addr_find slot_less upstream_wf_def)
qed

lemma pick_addr_first_allowed_witness:
  "\<exists>r. pick_addr (\<lambda>_. 0) (sample_pool 1 [closed_breaker, open_breaker]) =
      Some ((sample_pool 1 [closed_breaker, open_breaker])\<lparr>u_next := 2\<rparr>, r)"
  using pick_addr_first_allowed [of "sample_pool 1 [closed_breaker, open_breaker]" "\<lambda>_. 0"]
  by (auto simp: sample_pool_simps)

text \<open>
  As long as the counter is not about to wrap, a pool with one usable backend is usable:
  at any instant the pick fails exactly when the breakers of all backends reject.
\<close>

theorem pick_addr_fails_iff_all_open:
  assumes "upstream_wf u" and "u_addrs u \<noteq> []"
    and "unat (u_next u) + length (u_addrs u) \<le> 2 ^ 64"
  shows "pick_addr (\<lambda>_. now) u = Some (u\<lparr>u_next := u_next u + 1\<rparr>, None) \<longleftrightarrow>
    (\<forall>b\<in>set (u_breakers u). breaker_check b now = Reject)"
proof -
  have "(\<forall>k<length (u_addrs u). breaker_check (u_breakers u ! slot u (u_next u) k) now = Reject)
      \<longleftrightarrow> (\<forall>i<length (u_addrs u). breaker_check (u_breakers u ! i) now = Reject)"
    using slots_cover [of "u_next u" u] slot_less [of u "u_next u"] assms
    unfolding upstream_wf_def by metis
  with assms show ?thesis
    by (simp add: pick_addr_find find_None_iff upstream_wf_def all_set_conv_all_nth)
qed

lemma pick_addr_fails_iff_all_open_witness:
  "pick_addr (\<lambda>_. 0) (sample_pool 7 [open_breaker, closed_breaker, open_breaker]) \<noteq>
     Some ((sample_pool 7 [open_breaker, closed_breaker, open_breaker])\<lparr>u_next := 8\<rparr>, None)"
  using pick_addr_fails_iff_all_open [of "sample_pool 7 [open_breaker, closed_breaker, open_breaker]" 0]
  by (simp add: sample_pool_simps breaker_check_def)

text \<open>
  At the wrap of the counter that fails: the index is taken modulo the pool size after the
  64-bit addition has wrapped, so with three backends the scan that starts at the last value
  of the counter tries backends 0, 0 and 1 and reports that all are open although backend 2
  is closed.
\<close>

theorem pick_addr_wrap_skips_backend:
  "pick_addr (\<lambda>_. 0) (sample_pool (- 1) [open_breaker, open_breaker, closed_breaker]) =
     Some (sample_pool 0 [open_breaker, open_breaker, closed_breaker], None)
   \<and> breaker_check closed_breaker 0 = Allow"
proof -
  let ?u = "sample_pool (- 1) [open_breaker, open_breaker, closed_breaker]"
  have m: "unat (- 1 :: usize) = 18446744073709551615"
    using unat_max_word [where 'a = 64] by simp
  have "length (u_addrs ?u) = 3" by (simp add: sample_pool_def)
  then have s: "slot ?u (- 1) 0 = 0" "slot ?u (- 1) 1 = 0" "slot ?u (- 1) 2 = 1"
    by (simp_all add: slot_def unat_mod m)
  have open_now: "breaker_check open_breaker 0 = Reject" "breaker_check closed_breaker 0 = Allow"
    by (simp_all add: open_breaker_def closed_breaker_def breaker_check_def now_ms_def u64_or_max_def as_millis_def)
  have wf: "upstream_wf ?u" and ne: "u_addrs ?u \<noteq> []"
    by (simp_all add: upstream_wf_def sample_pool_def)
  have three: "[0..<length (u_addrs ?u)] = [0, 1, 2]" by (simp add: sample_pool_def upt_rec)
  have "List.find (\<lambda>k. breaker_check (u_breakers ?u ! slot ?u (u_next ?u) k) 0 = Allow)
      [0..<length (u_addrs ?u)] = None"
    unfolding three using s open_now by (simp add: sample_pool_def)
  then show ?thesis using open_now by (simp add: pick_addr_find [OF wf ne]) (simp add: sample_pool_def)
qed

text \<open>
  Round robin is fair: while no breaker rejects and the counter does not wrap, successive
  picks take the backends in cyclic order, so any run of as many picks as there are backends
  uses each backend exactly once.
\<close>

theorem round_robin_cycles:
  assumes "upstream_wf u" and "u_addrs u \<noteq> []"
    and "\<forall>b\<in>set (u_breakers u). \<forall>t. breaker_check b t = Allow"
    and "unat (u_next u) + length clks \<le> 2 ^ 64"
  shows "pick_many clks u =
      Some (map (\<lambda>j. Some ((unat (u_next u) + j) mod length (u_addrs u))) [0..<length clks])"
  using assms
proof (induction clks arbitrary: u)
  case (Cons clk clks)
  let ?n = "length (u_addrs u)" and ?u = "u\<lparr>u_next := u_next u + 1\<rparr>"
  have pos: "0 < ?n" and bound: "?n < 2 ^ 64" using Cons.prems by (simp_all add: upstream_wf_def)
  have "slot u (u_next u) 0 < ?n" using Cons.prems bound by (simp add: slot_less)
  then have "breaker_check (u_breakers u ! slot u (u_next u) 0) (clk 0) = Allow"
    using Cons.prems(1,3) by (simp add: upstream_wf_def)
  then have pick: "pick_addr clk u = Some (?u, Some (u_addrs u ! slot u (u_next u) 0, slot u (u_next u) 0))"
    using Cons.prems pos by (simp add: pick_addr_find upt_conv_Cons)
  have slot0: "slot u (u_next u) 0 = unat (u_next u) mod ?n"
    using slot_no_wrap [of "u_next u" 0 u] bound unat_bound [of "u_next u"] by simp
  show ?case
  proof (cases "clks = []")
    case True
    with pick slot0 show ?thesis by simp
  next
    case False
    then have "unat (u_next u) + 1 < 2 ^ 64" using Cons.prems(4) by (cases clks) simp_all
    then have nxt: "unat (u_next u + 1) = unat (u_next u) + 1" by (simp add: unat_word_ariths)
    have "pick_many clks ?u =
        Some (map (\<lambda>j. Some ((unat (u_next u) + 1 + j) mod ?n)) [0..<length clks])"
      using Cons.IH [of ?u] Cons.prems nxt by (simp add: upstream_wf_def)
    with pick slot0 show ?thesis
      by (simp add: upt_conv_Cons map_Suc_upt [symmetric] comp_def del: upt_Suc)
  qed
qed simp

lemma round_robin_cycles_witness:
  "pick_many [\<lambda>_. 0, \<lambda>_. 0, \<lambda>_. 0] (sample_pool 4 [closed_breaker, closed_breaker]) = Some [Some 0, Some 1, Some 0]"
  using round_robin_cycles [of "sample_pool 4 [closed_breaker, closed_breaker]" "[\<lambda>_. 0, \<lambda>_. 0, \<lambda>_. 0]"]
  by (simp add: sample_pool_simps breaker_check_def upt_rec flip: numeral_2_eq_2
      del: pick_many.simps)

text \<open>
  No pool stays unusable by itself: for every non-empty pool there is an instant from
  which every pick succeeds, whatever the breakers have seen, as long as no new failure is
  recorded.
\<close>

theorem pool_recovers:
  assumes "upstream_wf u" and "u_addrs u \<noteq> []"
  shows "\<exists>t. \<forall>clk. (\<forall>k. t \<le> clk k) \<longrightarrow>
    (\<exists>addr i. pick_addr clk u = Some (u\<lparr>u_next := u_next u + 1\<rparr>, Some (addr, i)))"
proof -
  obtain t where t: "\<forall>t'\<ge>t. \<forall>b\<in>set (u_breakers u). breaker_check b t' = Allow"
    using gate.all_recover [of "u_breakers u"] by blast
  have "slot u (u_next u) 0 < length (u_breakers u)"
    using assms slot_less [of u "u_next u" 0] by (simp add: upstream_wf_def)
  then have "breaker_check (u_breakers u ! slot u (u_next u) 0) t' = Allow" if "t \<le> t'" for t'
    using t that by simp
  then show ?thesis
    using assms by (intro exI [of _ t]) (simp add: pick_addr_find upt_conv_Cons)
qed

lemma pool_recovers_witness:
  "\<exists>t. \<forall>clk. (\<forall>k. t \<le> clk k) \<longrightarrow>
    (\<exists>addr i. pick_addr clk (sample_pool 0 [open_breaker]) = Some (sample_pool 1 [open_breaker], Some (addr, i)))"
  using pool_recovers [of "sample_pool 0 [open_breaker]"] by (simp add: sample_pool_simps)

text \<open>
  The aggregate state of an upstream with backends is \<open>Closed\<close> exactly when every breaker
  was closed when it was read, and \<open>Open\<close> exactly when every one was open.
\<close>

theorem breaker_state_aggregates:
  "(u_breakers u = [] \<longrightarrow> breaker_state_of clk u = Closed)
   \<and> (u_breakers u \<noteq> [] \<longrightarrow>
        (breaker_state_of clk u = Closed \<longleftrightarrow>
           (\<forall>k<length (u_breakers u). breaker_snapshot (u_breakers u ! k) (clk k) = Closed))
        \<and> (breaker_state_of clk u = Open \<longleftrightarrow>
           (\<forall>k<length (u_breakers u). breaker_snapshot (u_breakers u ! k) (clk k) = Open)))"
proof -
  obtain c n where counts: "count_states clk 0 (u_breakers u) (0, 0) = (c, n)"
    by (cases "count_states clk 0 (u_breakers u) (0, 0)")
  have "c = length (u_breakers u) \<longleftrightarrow>
      (\<forall>k<length (u_breakers u). breaker_snapshot (u_breakers u ! k) (clk k) = Closed)"
    and "n = length (u_breakers u) \<longleftrightarrow>
      (\<forall>k<length (u_breakers u). breaker_snapshot (u_breakers u ! k) (clk k) = Open)"
    using count_states_bound [OF counts] by (simp_all add: length_filter_upt_all)
  then show ?thesis
    by (auto simp: breaker_state_of_def counts dest!: spec [of _ 0])
qed

lemma breaker_state_aggregates_witness:
  "breaker_state_of (\<lambda>_. 0) (sample_pool 0 [open_breaker, open_breaker]) = Open"
proof -
  have "breaker_snapshot open_breaker 0 = Open"
    by (simp add: open_breaker_def breaker_snapshot_def now_ms_def u64_or_max_def as_millis_def)
  then show ?thesis
    using breaker_state_aggregates [of "sample_pool 0 [open_breaker, open_breaker]" "\<lambda>_. 0"]
    by (simp add: sample_pool_def All_less_Suc)
qed

end
