(* ===== verification/Conduit_Body.thy ===== *)
theory Conduit_Body
  imports Conduit_Http
begin

text \<open>
  \<^verbatim>\<open>conduit-proto/src/body.rs\<close> and \<^verbatim>\<open>cancel.rs\<close>: the in-memory body and the cancellation
  token. The \<open>http_body::Body\<close> trait is the locale \<open>body_stream\<close>: a poll function with the two
  hints, and what the hints promise about the frames that follow. \<open>drain\<close> reads a body to its
  end; \<open>VecBody\<close> is an instance, and so is every body another component wraps around one.
\<close>

section \<open>Model\<close>

datatype 'a poll = Pending | Ready 'a

datatype 'hm frame = Data string | Trailers 'hm

type_synonym ('hm, 'e) polled = "('e + 'hm frame) option poll"

subsection \<open>VecBody\<close>

record 'hm vec_body =
  vb_chunks :: "string list"
  vb_trailers :: "'hm option"

definition vec_empty :: "'hm vec_body" where
  "vec_empty = \<lparr>vb_chunks = [], vb_trailers = None\<rparr>"

definition vec_from_chunks :: "string list \<Rightarrow> 'hm vec_body" where
  "vec_from_chunks chunks = \<lparr>vb_chunks = chunks, vb_trailers = None\<rparr>"

definition vec_from_bytes :: "string \<Rightarrow> 'hm vec_body" where
  "vec_from_bytes bytes =
     (if bytes = [] then vec_empty else \<lparr>vb_chunks = [bytes], vb_trailers = None\<rparr>)"

definition vec_with_trailers :: "'hm vec_body \<Rightarrow> 'hm \<Rightarrow> 'hm vec_body" where
  "vec_with_trailers b trailers = b\<lparr>vb_trailers := Some trailers\<rparr>"

definition vec_remaining :: "'hm vec_body \<Rightarrow> nat" where
  "vec_remaining b = sum_list (map length (vb_chunks b))"

text \<open>The error type is \<open>Infallible\<close>: no \<open>Inl\<close> is ever produced, at any error type.\<close>

definition vec_poll_frame :: "instant \<Rightarrow> 'hm vec_body \<Rightarrow> 'hm vec_body \<times> ('hm, 'e) polled" where
  "vec_poll_frame now b =
     (case vb_chunks b of
        chunk # rest \<Rightarrow> (b\<lparr>vb_chunks := rest\<rparr>, Ready (Some (Inr (Data chunk))))
      | [] \<Rightarrow> (case vb_trailers b of
          Some trailers \<Rightarrow> (b\<lparr>vb_trailers := None\<rparr>, Ready (Some (Inr (Trailers trailers))))
        | None \<Rightarrow> (b, Ready None)))"

definition vec_is_end_stream :: "'hm vec_body \<Rightarrow> bool" where
  "vec_is_end_stream b \<longleftrightarrow> vb_chunks b = [] \<and> vb_trailers b = None"

definition vec_size_hint :: "'hm vec_body \<Rightarrow> nat option" where
  "vec_size_hint b = Some (vec_remaining b)"

subsection \<open>Cancellation\<close>

text \<open>Clones share one flag: a token is the address of a cell in a store of flags.\<close>

datatype cancellation = Cancellation nat

datatype cancellation_error = Cancelled

definition cancellation_new :: "bool list \<Rightarrow> bool list \<times> cancellation" where
  "cancellation_new flags = (flags @ [False], Cancellation (length flags))"

fun is_cancelled :: "bool list \<Rightarrow> cancellation \<Rightarrow> bool" where
  "is_cancelled flags (Cancellation a) = (a < length flags \<and> flags ! a)"

fun cancel :: "cancellation \<Rightarrow> bool list \<Rightarrow> bool list" where
  "cancel (Cancellation a) flags = flags[a := True]"

definition cancel_check :: "bool list \<Rightarrow> cancellation \<Rightarrow> cancellation_error + unit" where
  "cancel_check flags c = (if is_cancelled flags c then Inl Cancelled else Inr ())"

section \<open>The body contract\<close>

text \<open>
  \<open>drain\<close> polls at the given instants until the body ends or fails, collecting the data; the
  result is \<open>None\<close> when the instants run out first. It is \<open>BodyExt::collect\<close> followed by
  \<open>to_bytes\<close>, under a scheduler that polls at those instants.
\<close>

fun drain ::
  "(instant \<Rightarrow> 's \<Rightarrow> 's \<times> ('hm, 'e) polled) \<Rightarrow> instant list \<Rightarrow> 's \<Rightarrow> string \<Rightarrow> ('e + string) option" where
  "drain poll [] s acc = None"
| "drain poll (t # ts) s acc =
     (case poll t s of
        (s', Pending) \<Rightarrow> drain poll ts s' acc
      | (s', Ready None) \<Rightarrow> Some (Inr acc)
      | (s', Ready (Some (Inl e))) \<Rightarrow> Some (Inl e)
      | (s', Ready (Some (Inr (Data d)))) \<Rightarrow> drain poll ts s' (acc @ d)
      | (s', Ready (Some (Inr (Trailers _)))) \<Rightarrow> drain poll ts s' acc)"

text \<open>The bytes a polled frame carries.\<close>

fun frame_data :: "('hm, 'e) polled \<Rightarrow> string" where
  "frame_data (Ready (Some (Inr (Data d)))) = d"
| "frame_data _ = []"

locale body_stream =
  fixes poll_frame :: "instant \<Rightarrow> 's \<Rightarrow> 's \<times> ('hm, 'e) polled"
    and end_stream :: "'s \<Rightarrow> bool"
    and size_exact :: "'s \<Rightarrow> nat option"
  assumes end_stream_ready: "end_stream s \<Longrightarrow> snd (poll_frame t s) = Ready None"
    and size_exact_poll:
      "size_exact s = Some n \<Longrightarrow> poll_frame t s = (s', r) \<Longrightarrow>
       length (frame_data r) \<le> n \<and> size_exact s' = Some (n - length (frame_data r))"
    and size_exact_end: "size_exact s = Some n \<Longrightarrow> snd (poll_frame t s) = Ready None \<Longrightarrow> n = 0"
begin

lemma drain_length:
  "size_exact s = Some n \<Longrightarrow> drain poll_frame ts s acc = Some (Inr bytes) \<Longrightarrow>
   length bytes = length acc + n"
proof (induction ts arbitrary: s n acc)
  case (Cons t ts)
  obtain s' r where poll: "poll_frame t s = (s', r)" by (cases "poll_frame t s")
  note size = size_exact_poll [OF Cons.prems(1) poll]
  show ?case
  proof (cases r)
    case Pending
    with Cons.IH [of s' n acc] Cons.prems(2) poll size show ?thesis by simp
  next
    case (Ready item)
    show ?thesis
    proof (cases item)
      case None
      with Ready poll size_exact_end [OF Cons.prems(1), of t] Cons.prems(2) show ?thesis by simp
    next
      case (Some x)
      show ?thesis
      proof (cases x)
        case (Inl e)
        with Some Ready poll Cons.prems(2) show ?thesis by simp
      next
        case (Inr f)
        with Some Ready poll size Cons.prems(2) Cons.IH [of s'] show ?thesis
          by (cases f) force+
      qed
    qed
  qed
qed simp

text \<open>A body that reports the exact size zero collects to no bytes, whenever it collects.\<close>

lemma size_zero_collects_empty:
  "size_exact s = Some 0 \<Longrightarrow> drain poll_frame ts s [] = Some (Inr bytes) \<Longrightarrow> bytes = []"
  using drain_length [of s 0 ts "[]" bytes] by simp

lemma end_stream_collects_empty: "end_stream s \<Longrightarrow> drain poll_frame (t # ts) s acc = Some (Inr acc)"
  using end_stream_ready [of s t] by (cases "poll_frame t s") simp

end

section \<open>Lemmas\<close>

interpretation vec: body_stream vec_poll_frame vec_is_end_stream vec_size_hint
proof
  fix s s' :: "'hm vec_body" and n t and r :: "('hm, 'e) polled"
  show "vec_is_end_stream s \<Longrightarrow> snd (vec_poll_frame t s) = (Ready None :: ('hm, 'e) polled)"
    by (simp add: vec_is_end_stream_def vec_poll_frame_def)
  show "vec_size_hint s = Some n \<Longrightarrow> vec_poll_frame t s = (s', r) \<Longrightarrow>
      length (frame_data r) \<le> n \<and> vec_size_hint s' = Some (n - length (frame_data r))"
    by (auto simp: vec_size_hint_def vec_remaining_def vec_poll_frame_def
        split: list.splits option.splits)
  show "vec_size_hint s = Some n \<Longrightarrow> snd (vec_poll_frame t s) = (Ready None :: ('hm, 'e) polled) \<Longrightarrow> n = 0"
    by (auto simp: vec_size_hint_def vec_remaining_def vec_poll_frame_def
        split: list.splits option.splits)
qed

lemma vec_drain_chunks:
  assumes "length (vb_chunks b) + 1 < length ts"
  shows "drain vec_poll_frame ts b acc = Some (Inr (acc @ concat (vb_chunks b)))"
  using assms
proof (induction ts arbitrary: b acc)
  case (Cons t ts)
  show ?case
  proof (cases "vb_chunks b")
    case Nil
    with Cons.prems obtain t' ts' where "ts = t' # ts'" by (cases ts) auto
    with Nil show ?thesis by (cases "vb_trailers b") (simp_all add: vec_poll_frame_def)
  next
    case (Cons c cs)
    with Cons.IH [of "b\<lparr>vb_chunks := cs\<rparr>" "acc @ c"] Cons.prems show ?thesis
      by (simp add: vec_poll_frame_def)
  qed
qed simp

section \<open>Properties\<close>

text \<open>
  Reading an in-memory body to its end returns exactly the bytes it was built from, in
  order, and takes at most one poll per chunk plus two (trailers and end): enough polls always
  finish, and the number of bytes is the size hint given before the first poll.
\<close>

theorem vec_body_roundtrip:
  fixes hs :: 'hm and chunks :: "string list"
  defines "body \<equiv> vec_from_chunks chunks :: 'hm vec_body"
  assumes "length chunks + 2 \<le> length ts"
  shows "drain vec_poll_frame ts body [] = (Some (Inr (concat chunks)) :: ('e + string) option)
    \<and> drain vec_poll_frame ts (vec_with_trailers body hs) []
        = (Some (Inr (concat chunks)) :: ('e + string) option)
    \<and> vec_size_hint body = Some (length (concat chunks))"
  unfolding body_def
  using assms
  by (simp add: vec_drain_chunks vec_from_chunks_def vec_with_trailers_def vec_size_hint_def
      vec_remaining_def length_concat)

lemma vec_body_roundtrip_witness:
  "drain vec_poll_frame [0, 1, 2, 3] (vec_from_chunks [''he'', ''llo''] :: unit vec_body) [] =
     (Some (Inr ''hello'') :: (unit + string) option)"
  using vec_body_roundtrip [where 'e = unit and chunks = "[''he'', ''llo'']"
      and ts = "[0, 1, 2, 3]" and hs = "()"]
  by (simp del: drain.simps)

text \<open>
  Cancellation is shared, monotonic and private to a token: cancelling a token is seen by
  every clone of it, nothing that is done to other tokens (creating or cancelling them) undoes
  or causes it, and cancelling twice is the same as once.
\<close>

theorem cancellation_shared_monotonic:
  assumes "a < length flags"
  shows "cancel_check (cancel (Cancellation a) flags) (Cancellation a) = Inl Cancelled
    \<and> cancel (Cancellation a) (cancel (Cancellation a) flags) = cancel (Cancellation a) flags
    \<and> (\<forall>b. b \<noteq> a \<longrightarrow> is_cancelled (cancel (Cancellation b) flags) (Cancellation a)
                        = is_cancelled flags (Cancellation a))
    \<and> is_cancelled (fst (cancellation_new flags)) (Cancellation a) = is_cancelled flags (Cancellation a)
    \<and> (case cancellation_new flags of (flags', c) \<Rightarrow> cancel_check flags' c = Inr ())"
  using assms by (auto simp: cancel_check_def cancellation_new_def nth_append)

lemma cancellation_shared_monotonic_witness:
  "cancel_check (cancel (Cancellation 0) [False, False]) (Cancellation 0) = Inl Cancelled"
  using cancellation_shared_monotonic [of 0 "[False, False]"] by simp

end
