(* ===== verification/Conduit_Timed.thy ===== *)
theory Conduit_Timed
  imports Conduit_Body
begin

text \<open>
  \<^verbatim>\<open>conduit-upstream/src/timed.rs\<close>: the read-timeout wrapper around the upstream's response
  body. The inner body is any body; \<open>tokio::time::Sleep\<close> is the argument \<open>fired\<close>, which says
  whether a timer armed for a deadline is ready at an instant.
\<close>

section \<open>Model\<close>

record 's timed_body =
  tb_inner :: 's
  tb_timeout :: duration
  tb_sleep :: "instant option"

definition timed_new :: "'s \<Rightarrow> duration \<Rightarrow> 's timed_body" where
  "timed_new inner timeout = \<lparr>tb_inner = inner, tb_timeout = timeout, tb_sleep = None\<rparr>"

datatype 'e timed_error = Inner 'e | ReadTimeout duration

definition timed_poll_frame ::
  "(instant \<Rightarrow> instant \<Rightarrow> bool) \<Rightarrow> (instant \<Rightarrow> 's \<Rightarrow> 's \<times> ('hm, 'e) polled)
   \<Rightarrow> instant \<Rightarrow> 's timed_body \<Rightarrow> 's timed_body \<times> ('hm, 'e timed_error) polled" where
  "timed_poll_frame fired poll now me =
     (let me = (case tb_sleep me of
                  None \<Rightarrow> me\<lparr>tb_sleep := Some (now + tb_timeout me)\<rparr>
                | Some _ \<Rightarrow> me) in
      case poll now (tb_inner me) of
        (inner, Ready opt) \<Rightarrow>
          (me\<lparr>tb_inner := inner, tb_sleep := None\<rparr>, Ready (map_option (map_sum Inner id) opt))
      | (inner, Pending) \<Rightarrow>
          (let me = me\<lparr>tb_inner := inner\<rparr> in
           case tb_sleep me of
             Some deadline \<Rightarrow>
               if fired deadline now
               then (me\<lparr>tb_sleep := None\<rparr>, Ready (Some (Inl (ReadTimeout (tb_timeout me)))))
               else (me, Pending)
           | None \<Rightarrow> (me, Pending)))"

definition timed_is_end_stream :: "('s \<Rightarrow> bool) \<Rightarrow> 's timed_body \<Rightarrow> bool" where
  "timed_is_end_stream end_stream me = end_stream (tb_inner me)"

definition timed_size_hint :: "('s \<Rightarrow> nat option) \<Rightarrow> 's timed_body \<Rightarrow> nat option" where
  "timed_size_hint size_hint me = size_hint (tb_inner me)"

text \<open>
  Documented behaviour of \<open>Sleep\<close>: it is not ready before its deadline, and, with a
  granularity of a millisecond, it is ready a millisecond after it.
\<close>

definition timer_ok :: "(instant \<Rightarrow> instant \<Rightarrow> bool) \<Rightarrow> bool" where
  "timer_ok fired \<longleftrightarrow>
     (\<forall>d now. fired d now \<longrightarrow> d \<le> now) \<and> (\<forall>d now. d + 1000000 \<le> now \<longrightarrow> fired d now)"

text \<open>Polls at successive instants until the wrapper is ready: the wait for one frame.\<close>

fun next_frame ::
  "(instant \<Rightarrow> instant \<Rightarrow> bool) \<Rightarrow> (instant \<Rightarrow> 's \<Rightarrow> 's \<times> ('hm, 'e) polled)
   \<Rightarrow> instant list \<Rightarrow> 's timed_body
   \<Rightarrow> (instant \<times> ('e timed_error + 'hm frame) option) option" where
  "next_frame fired poll [] me = None"
| "next_frame fired poll (t # ts) me =
     (case timed_poll_frame fired poll t me of
        (me', Ready item) \<Rightarrow> Some (t, item)
      | (me', Pending) \<Rightarrow> next_frame fired poll ts me')"

text \<open>The same wait on the inner body alone.\<close>

fun inner_frame ::
  "(instant \<Rightarrow> 's \<Rightarrow> 's \<times> ('hm, 'e) polled) \<Rightarrow> instant list \<Rightarrow> 's
   \<Rightarrow> (instant \<times> ('e + 'hm frame) option) option" where
  "inner_frame poll [] s = None"
| "inner_frame poll (t # ts) s =
     (case poll t s of (s', Ready item) \<Rightarrow> Some (t, item) | (s', Pending) \<Rightarrow> inner_frame poll ts s')"

section \<open>The wrapper keeps the body contract\<close>

lemma frame_data_timed: "frame_data (Ready (map_option (map_sum Inner id) opt)) = frame_data (Ready opt)"
  by (cases "Ready opt" rule: frame_data.cases) auto

locale timed_inner = body_stream
begin

sublocale timed: body_stream "timed_poll_frame fired poll_frame"
  "timed_is_end_stream end_stream" "timed_size_hint size_exact" for fired
proof
  fix s s' n t r
  show "timed_is_end_stream end_stream s \<Longrightarrow> snd (timed_poll_frame fired poll_frame t s) = Ready None"
    using end_stream_ready [of "tb_inner s" t]
    by (cases "poll_frame t (tb_inner s)")
      (auto simp: timed_is_end_stream_def timed_poll_frame_def Let_def split: option.splits)
  show "timed_size_hint size_exact s = Some n \<Longrightarrow>
      snd (timed_poll_frame fired poll_frame t s) = Ready None \<Longrightarrow> n = 0"
    using size_exact_end [of "tb_inner s" n t]
    by (cases "poll_frame t (tb_inner s)")
      (auto simp: timed_size_hint_def timed_poll_frame_def Let_def
        split: option.splits poll.splits if_splits)
  show "timed_size_hint size_exact s = Some n \<Longrightarrow>
      timed_poll_frame fired poll_frame t s = (s', r) \<Longrightarrow>
      length (frame_data r) \<le> n \<and> timed_size_hint size_exact s' = Some (n - length (frame_data r))"
    using size_exact_poll [of "tb_inner s" n t]
    by (cases "poll_frame t (tb_inner s)")
      (auto simp: timed_size_hint_def timed_poll_frame_def Let_def frame_data_timed
        split: option.splits poll.splits if_splits)
qed

end

interpretation vec_timed: timed_inner vec_poll_frame vec_is_end_stream vec_size_hint
  by unfold_locales


section \<open>Lemmas\<close>

lemma timed_poll_ready:
  "poll t (tb_inner me) = (s', Ready item) \<Longrightarrow>
   timed_poll_frame fired poll t me =
     (me\<lparr>tb_inner := s', tb_sleep := None\<rparr>, Ready (map_option (map_sum Inner id) item))"
  by (simp add: timed_poll_frame_def Let_def split: option.splits)

lemma timed_poll_pending:
  "poll t (tb_inner me) = (s', Pending) \<Longrightarrow>
   timed_poll_frame fired poll t me =
     (let d = (case tb_sleep me of None \<Rightarrow> t + tb_timeout me | Some d \<Rightarrow> d) in
      if fired d t
      then (me\<lparr>tb_inner := s', tb_sleep := None\<rparr>, Ready (Some (Inl (ReadTimeout (tb_timeout me)))))
      else (me\<lparr>tb_inner := s', tb_sleep := Some d\<rparr>, Pending))"
  by (auto simp: timed_poll_frame_def Let_def split: option.splits)

text \<open>A wait that is armed for \<open>d\<close>: the inner frame if it comes first, else the timeout.\<close>

lemma next_frame_armed:
  assumes "tb_sleep me = Some d"
  shows "next_frame fired poll ts me =
    (let waits = takeWhile (\<lambda>t. \<not> fired d t) ts in
     case inner_frame poll (waits @ (case dropWhile (\<lambda>t. \<not> fired d t) ts of [] \<Rightarrow> [] | t # _ \<Rightarrow> [t]))
            (tb_inner me) of
       Some (t, item) \<Rightarrow> Some (t, map_option (map_sum Inner id) item)
     | None \<Rightarrow> (case dropWhile (\<lambda>t. \<not> fired d t) ts of
                  [] \<Rightarrow> None | t # _ \<Rightarrow> Some (t, Some (Inl (ReadTimeout (tb_timeout me))))))"
  using assms
proof (induction ts arbitrary: me)
  case (Cons t ts)
  obtain s' r where poll: "poll t (tb_inner me) = (s', r)" by (cases "poll t (tb_inner me)")
  show ?case
  proof (cases r)
    case (Ready item)
    with poll show ?thesis by (simp add: timed_poll_ready)
  next
    case Pending
    let ?me = "me\<lparr>tb_inner := s', tb_sleep := Some d\<rparr>"
    have "next_frame fired poll (t # ts) me =
        (if fired d t then Some (t, Some (Inl (ReadTimeout (tb_timeout me))))
         else next_frame fired poll ts ?me)"
      using Pending poll Cons.prems by (simp add: timed_poll_pending)
    with Cons.IH [of ?me] Pending poll show ?thesis
      by (simp add: Let_def cong: option.case_cong list.case_cong)
  qed
qed simp

lemma next_frame_fresh:
  assumes "tb_sleep me = None"
  shows "next_frame fired poll (t # ts) me =
    next_frame fired poll (t # ts) (me\<lparr>tb_sleep := Some (t + tb_timeout me)\<rparr>)"
proof -
  obtain s' r where poll: "poll t (tb_inner me) = (s', r)" by (cases "poll t (tb_inner me)")
  with assms show ?thesis
    by (cases r) (simp_all add: timed_poll_ready timed_poll_pending Let_def)
qed

lemma inner_frame_instant: "inner_frame poll ts s = Some (t, item) \<Longrightarrow> t \<in> set ts"
  by (induction ts arbitrary: s) (auto split: prod.splits poll.splits)

section \<open>Properties\<close>

text \<open>
  C30. The read timeout is a per-frame deadline. For a wrapper that has just been built, or has
  just returned a frame, whose next poll is at \<open>t0\<close>: if any later poll comes a millisecond
  after \<open>t0\<close> plus the timeout, the wait ends by that poll; it ends with the timeout error only
  at least the timeout after \<open>t0\<close>, and only if the inner body was pending at every poll up to
  then; otherwise it ends with exactly the item the inner body alone would have returned.
\<close>

theorem read_timeout_per_frame:
  assumes "timer_ok fired" and "tb_sleep me = None"
  shows "(\<forall>late\<in>set ts. t0 + tb_timeout me + 1000000 \<le> late \<longrightarrow>
            next_frame fired poll (t0 # ts) me \<noteq> None)
    \<and> (\<forall>t d. next_frame fired poll (t0 # ts) me = Some (t, Some (Inl (ReadTimeout d))) \<longrightarrow>
            d = tb_timeout me \<and> t0 + tb_timeout me \<le> t
            \<and> inner_frame poll (takeWhile (\<lambda>u. \<not> fired (t0 + tb_timeout me) u) (t0 # ts) @ [t])
                (tb_inner me) = None)
    \<and> (\<forall>t item. next_frame fired poll (t0 # ts) me = Some (t, item)
            \<and> (\<nexists>d. item = Some (Inl (ReadTimeout d))) \<longrightarrow>
          (\<exists>us item'. inner_frame poll us (tb_inner me) = Some (t, item')
                       \<and> (\<exists>vs. t0 # ts = us @ vs) \<and> item = map_option (map_sum Inner id) item'))"
proof -
  define d where "d = t0 + tb_timeout me"
  define D where "D = dropWhile (\<lambda>u. \<not> fired d u) (t0 # ts)"
  define W where "W = takeWhile (\<lambda>u. \<not> fired d u) (t0 # ts)"
  define us where "us = W @ (case D of [] \<Rightarrow> [] | t # _ \<Rightarrow> [t])"
  define inner where "inner = inner_frame poll us (tb_inner me)"
  have nf: "next_frame fired poll (t0 # ts) me =
      (case inner of
         Some (t, item) \<Rightarrow> Some (t, map_option (map_sum Inner id) item)
       | None \<Rightarrow> (case D of [] \<Rightarrow> None | t # _ \<Rightarrow> Some (t, Some (Inl (ReadTimeout (tb_timeout me))))))"
    unfolding next_frame_fresh [OF assms(2)] inner_def us_def W_def D_def d_def
    by (subst next_frame_armed [where d = "t0 + tb_timeout me"])
      (simp_all add: Let_def cong: option.case_cong list.case_cong)
  have "t0 # ts = W @ D" by (simp only: W_def D_def takeWhile_dropWhile_id)
  then have split: "\<exists>vs. t0 # ts = us @ vs" by (cases D) (auto simp: us_def)
  have "next_frame fired poll (t0 # ts) me \<noteq> None" if "late \<in> set ts" "d + 1000000 \<le> late" for late
  proof -
    have "fired d late" using assms(1) that(2) by (simp add: timer_ok_def)
    then have "D \<noteq> []" using that(1) by (auto simp: D_def)
    then show ?thesis unfolding nf by (cases inner; cases D) auto
  qed
  moreover have "d' = tb_timeout me \<and> d \<le> t \<and> inner_frame poll (W @ [t]) (tb_inner me) = None"
    if "next_frame fired poll (t0 # ts) me = Some (t, Some (Inl (ReadTimeout d')))" for t d'
  proof -
    from that obtain vs where D: "D = t # vs" and none: "inner = None" and d': "d' = tb_timeout me"
      unfolding nf by (cases inner; cases D) (auto simp: map_sum_def split: sum.splits)
    have "fired d t" using D unfolding D_def by (metis dropWhile_eq_Cons_conv)
    with assms(1) D none d' show ?thesis by (simp add: timer_ok_def inner_def us_def)
  qed
  moreover have "\<exists>us item'. inner_frame poll us (tb_inner me) = Some (t, item')
      \<and> (\<exists>vs. t0 # ts = us @ vs) \<and> item = map_option (map_sum Inner id) item'"
    if "next_frame fired poll (t0 # ts) me = Some (t, item)" "\<nexists>d. item = Some (Inl (ReadTimeout d))"
    for t item
  proof -
    from that obtain item' where "inner = Some (t, item')"
      and "item = map_option (map_sum Inner id) item'"
      unfolding nf by (cases inner; cases D) auto
    with split show ?thesis unfolding inner_def by blast
  qed
  ultimately show ?thesis unfolding d_def W_def by blast
qed

lemma read_timeout_per_frame_witness:
  "timer_ok (\<lambda>d now. d \<le> now)
   \<and> next_frame (\<lambda>d now. d \<le> now) (\<lambda>t s. (s, Pending :: (unit, unit) polled))
       (0 # [1, 2000000]) (timed_new () 5) \<noteq> None"
proof -
  have ok: "timer_ok (\<lambda>d now. d \<le> now)" by (simp add: timer_ok_def)
  show ?thesis
    using read_timeout_per_frame [OF ok, of "timed_new () 5" "[1, 2000000]" 0
        "\<lambda>t s. (s, Pending :: (unit, unit) polled)"] ok
    by (simp add: timed_new_def)
qed

text \<open>
  The wrapper neither loses nor invents bytes: whatever the timers do, an in-memory body
  read through it to a successful end yields as many bytes as its size hint announced.
\<close>

theorem timed_body_size:
  assumes "drain (timed_poll_frame fired vec_poll_frame) ts (timed_new b timeout) [] = Some (Inr bytes)"
  shows "timed_size_hint vec_size_hint (timed_new b timeout) = Some (length bytes)"
proof -
  have size: "timed_size_hint vec_size_hint (timed_new b timeout) = Some (vec_remaining b)"
    by (simp add: timed_size_hint_def vec_size_hint_def timed_new_def)
  from vec_timed.timed.drain_length [OF size assms] size show ?thesis by simp
qed

lemma timed_body_size_witness:
  "timed_size_hint vec_size_hint (timed_new (vec_from_bytes ''hi'' :: unit vec_body) 5) = Some 2"
  using timed_body_size [where fired = "\<lambda>d now. d \<le> now" and ts = "[0, 1]" and timeout = 5
      and b = "vec_from_bytes ''hi'' :: unit vec_body" and bytes = "''hi''"]
  by (simp add: timed_new_def timed_poll_frame_def vec_from_bytes_def vec_poll_frame_def Let_def)

end
