(* ===== verification/Conduit_Forward.thy ===== *)
theory Conduit_Forward
  imports Conduit_Pool Conduit_Timed
begin

text \<open>
  The second part of \<^verbatim>\<open>conduit-upstream/src/lib.rs\<close>: \<open>rewrite_uri\<close> and \<open>Upstream::forward\<close>,
  with the retry loop and the outcome recorded at the breaker. The hyper client is an
  argument: \<open>answers k r\<close> is what it returns for request \<open>r\<close> sent as attempt number \<open>k\<close>. The
  instants are those of the breaker checks of the pick (\<open>clk\<close>) and of the recorded outcome
  (\<open>done_at\<close>). Besides its result, \<open>forward\<close> returns the upstream with its new counter and
  breakers and the requests that went out; \<open>None\<close> is a panic.
\<close>

section \<open>Model\<close>

record 'hm out_request =
  oq_method :: string
  oq_uri :: uri
  oq_version :: http_version
  oq_headers :: 'hm
  oq_bytes :: string

text \<open>An error of the client, as text, with what its \<open>is_connect\<close> says.\<close>

record client_error =
  ce_text :: string
  ce_is_connect :: bool

datatype forward_error =
    Client client_error bool
  | Body string
  | RetriesExhausted status
  | BreakerOpen

definition rewrite_uri :: "('re, 'hm) crates \<Rightarrow> uri \<Rightarrow> string \<Rightarrow> string + uri" where
  "rewrite_uri X original authority =
     (let parts = original;
          parts = parts\<lparr>uri_scheme := Some ''http''\<rparr>;
          parts = parts\<lparr>uri_authority := Some authority\<rparr>;
          parts = (if uri_path_and_query parts = None
                   then parts\<lparr>uri_path_and_query := Some ''/''\<rparr> else parts)
      in uri_from_parts X parts)"

definition observe_breaker_outcome ::
  "instant \<Rightarrow> nat option \<Rightarrow> bool \<Rightarrow> 'cl upstream \<Rightarrow> 'cl upstream" where
  "observe_breaker_outcome now idx success u =
     (case idx of
        None \<Rightarrow> u
      | Some i \<Rightarrow>
          if i < length (u_breakers u) then
            (let b = u_breakers u ! i;
                 b' = (if success then on_success b else on_failure now b)
             in u\<lparr>u_breakers := (u_breakers u)[i := b']\<rparr>)
          else u)"

text \<open>
  The loop \<open>for attempt in 0..attempts\<close>; \<open>left\<close> iterations remain. \<open>iter\<close> holds the parts and
  the bytes, which the last iteration moves out instead of cloning.
\<close>

fun attempt_loop ::
  "(nat \<Rightarrow> 'hm out_request \<Rightarrow> client_error + ('hm, 'b) response) \<Rightarrow> instant \<Rightarrow> duration \<Rightarrow> nat option
   \<Rightarrow> nat \<Rightarrow> 'cl upstream \<Rightarrow> 'hm out_request option \<Rightarrow> status \<Rightarrow> 'hm out_request list
   \<Rightarrow> nat \<Rightarrow> nat
   \<Rightarrow> ('cl upstream \<times> (forward_error + ('hm, 'b timed_body) response) \<times> 'hm out_request list) option" where
  "attempt_loop answers done_at read_timeout addr_idx attempts u iter last_status sent attempt 0 =
     Some (observe_breaker_outcome done_at addr_idx False u, Inl (RetriesExhausted last_status), sent)"
| "attempt_loop answers done_at read_timeout addr_idx attempts u iter last_status sent attempt (Suc left) =
     (let on_last = (attempt + 1 = attempts) in
      case iter of
        None \<Rightarrow> None
      | Some req \<Rightarrow>
          (let iter = (if on_last then None else Some req);
               sent = sent @ [req] in
           case answers attempt req of
             Inr resp \<Rightarrow>
               (let last_status = rs_status resp in
                case decide_status (u_retry u) last_status (of_nat attempt) of
                  Stop \<Rightarrow>
                    Some (observe_breaker_outcome done_at addr_idx (\<not> is_server_error last_status) u,
                          Inr \<lparr>rs_status = rs_status resp, rs_headers = rs_headers resp,
                               rs_body = timed_new (rs_body resp) read_timeout\<rparr>, sent)
                | Retry \<Rightarrow>
                    attempt_loop answers done_at read_timeout addr_idx attempts u iter last_status sent
                      (attempt + 1) left)
           | Inl e \<Rightarrow>
               (let connect_error = ce_is_connect e in
                if connect_error \<and> rp_on_connect_error (u_retry u)
                   \<and> of_nat attempt + 1 < rp_attempts (u_retry u)
                then attempt_loop answers done_at read_timeout addr_idx attempts u iter last_status sent
                       (attempt + 1) left
                else Some (observe_breaker_outcome done_at addr_idx False u,
                           Inl (Client e connect_error), sent))))"

definition buffer_body :: "body_source \<Rightarrow> string + string" where
  "buffer_body body = (if bs_size_exact body = Some 0 then Inr [] else bs_collect body)"

text \<open>
  The part of \<open>forward\<close> before its first await: the pick and the rewriting of the URI, which
  end the call early or yield the URI and the index of the backend.
\<close>

definition forward_prepare ::
  "('re, 'hm) crates \<Rightarrow> (nat \<Rightarrow> instant) \<Rightarrow> 'cl upstream \<Rightarrow> 'hm request
   \<Rightarrow> ('cl upstream \<times> (forward_error + uri \<times> nat option)) option" where
  "forward_prepare X clk u req =
     (if u_addrs u = [] then Some (u, Inr (rq_uri req, None))
      else (case pick_addr clk u of
              None \<Rightarrow> None
            | Some (u', Some (addr, idx)) \<Rightarrow>
                if idx < length (u_authorities u')
                then Some (u', case rewrite_uri X (rq_uri req) (u_authorities u' ! idx) of
                                 Inl e \<Rightarrow> Inl (Body e)
                               | Inr uri \<Rightarrow> Inr (uri, Some idx))
                else None
            | Some (u', None) \<Rightarrow> Some (u', Inl BreakerOpen)))"

definition forward ::
  "('re, 'hm) crates \<Rightarrow> (nat \<Rightarrow> instant)
   \<Rightarrow> (nat \<Rightarrow> 'hm out_request \<Rightarrow> client_error + ('hm, 'b) response) \<Rightarrow> instant
   \<Rightarrow> 'cl upstream \<Rightarrow> 'hm request \<Rightarrow> duration
   \<Rightarrow> ('cl upstream \<times> (forward_error + ('hm, 'b timed_body) response) \<times> 'hm out_request list) option" where
  "forward X clk answers done_at u req read_timeout =
     (let headers = header_remove X HOST (rq_headers req);
          version = HTTP_11 in
      case forward_prepare X clk u req of
        None \<Rightarrow> None
      | Some (u, Inl e) \<Rightarrow> Some (u, Inl e, [])
      | Some (u, Inr (uri, addr_idx)) \<Rightarrow>
          (case buffer_body (rq_body req) of
             Inl e \<Rightarrow> Some (u, Inl (Body e), [])
           | Inr bytes \<Rightarrow>
               (let attempts = max (rp_attempts (u_retry u)) 1;
                    out = \<lparr>oq_method = rq_method req, oq_uri = uri, oq_version = version,
                           oq_headers = headers, oq_bytes = bytes\<rparr> in
                attempt_loop answers done_at read_timeout addr_idx (unat attempts) u (Some out) 500 []
                  0 (unat attempts))))"

definition DEFAULT_REQUEST_TIMEOUT :: duration where
  "DEFAULT_REQUEST_TIMEOUT = from_secs 60"

section \<open>Reference: the attempt that decides\<close>

text \<open>Whether the policy asks for another attempt after answer number \<open>k\<close>.\<close>

definition retryable :: "retry_policy \<Rightarrow> nat \<Rightarrow> client_error + ('hm, 'b) response \<Rightarrow> bool" where
  "retryable p k answer \<longleftrightarrow>
     k + 1 < unat (rp_attempts p)
     \<and> (case answer of
          Inl e \<Rightarrow> ce_is_connect e \<and> rp_on_connect_error p
        | Inr resp \<Rightarrow> rs_status resp \<in> set (rp_on_status p))"

text \<open>What the caller gets for the deciding answer, and whether it counts as a success.\<close>

definition conclude ::
  "duration \<Rightarrow> client_error + ('hm, 'b) response \<Rightarrow> forward_error + ('hm, 'b timed_body) response" where
  "conclude read_timeout answer =
     (case answer of
        Inl e \<Rightarrow> Inl (Client e (ce_is_connect e))
      | Inr resp \<Rightarrow> Inr \<lparr>rs_status = rs_status resp, rs_headers = rs_headers resp,
                         rs_body = timed_new (rs_body resp) read_timeout\<rparr>)"

definition succeeded :: "client_error + ('hm, 'b) response \<Rightarrow> bool" where
  "succeeded answer = (case answer of Inl _ \<Rightarrow> False | Inr resp \<Rightarrow> \<not> is_server_error (rs_status resp))"

text \<open>The request as it goes out.\<close>

definition egress ::
  "('re, 'hm) crates \<Rightarrow> 'hm request \<Rightarrow> uri \<Rightarrow> string \<Rightarrow> 'hm out_request" where
  "egress X req uri bytes =
     \<lparr>oq_method = rq_method req, oq_uri = uri, oq_version = HTTP_11,
      oq_headers = header_remove X HOST (rq_headers req), oq_bytes = bytes\<rparr>"

section \<open>Lemmas\<close>

lemma attempt_word:
  fixes a :: u32
  assumes "attempt < unat (max a 1)"
  shows "a \<le> of_nat attempt + 1 \<longleftrightarrow> unat a \<le> attempt + 1"
    and "of_nat attempt + 1 < a \<longleftrightarrow> attempt + 1 < unat a"
proof -
  have "attempt + 1 < 2 ^ 32"
    using assms unat_bound [of "max a 1"] by simp
  then have "unat (of_nat (attempt + 1) :: u32) = attempt + 1"
    by (simp add: unat_of_nat take_bit_nat_eq_self del: of_nat_add of_nat_Suc)
  moreover have "of_nat (attempt + 1) = (of_nat attempt + 1 :: u32)" by simp
  ultimately have "unat (of_nat attempt + 1 :: u32) = attempt + 1" by (simp only:)
  then show "a \<le> of_nat attempt + 1 \<longleftrightarrow> unat a \<le> attempt + 1"
    and "of_nat attempt + 1 < a \<longleftrightarrow> attempt + 1 < unat a"
    by (simp_all add: word_le_nat_alt word_less_nat_alt)
qed


lemma attempt_loop_step:
  assumes "attempt < unat (max (rp_attempts (u_retry u)) 1)"
  shows "attempt_loop answers done_at rt idx n u (Some req) ls sent attempt (Suc left) =
    (if retryable (u_retry u) attempt (answers attempt req)
     then attempt_loop answers done_at rt idx n u (if attempt + 1 = n then None else Some req)
            (case answers attempt req of Inl _ \<Rightarrow> ls | Inr resp \<Rightarrow> rs_status resp) (sent @ [req])
            (attempt + 1) left
     else Some (observe_breaker_outcome done_at idx (succeeded (answers attempt req)) u,
                conclude rt (answers attempt req), sent @ [req]))"
  using attempt_word [OF assms]
  by (auto simp: Let_def retryable_def decide_status_def succeeded_def conclude_def
      split: sum.split)

lemma attempts_le: "unat (rp_attempts p) \<le> unat (max (rp_attempts p) 1)"
  by (simp add: max_def word_le_nat_alt)

text \<open>The loop ends at the first answer the policy does not retry, and there is one.\<close>

lemma attempt_loop_spec:
  fixes u :: "'cl upstream"
  defines "n \<equiv> unat (max (rp_attempts (u_retry u)) 1)"
  assumes "attempt + left = n" and "0 < left"
  shows "\<exists>k. attempt \<le> k \<and> k < n \<and> \<not> retryable (u_retry u) k (answers k req)
    \<and> (\<forall>j. attempt \<le> j \<and> j < k \<longrightarrow> retryable (u_retry u) j (answers j req))
    \<and> attempt_loop answers done_at rt idx n u (Some req) ls sent attempt left =
        Some (observe_breaker_outcome done_at idx (succeeded (answers k req)) u,
              conclude rt (answers k req), sent @ replicate (k + 1 - attempt) req)"
  using assms(2,3)
proof (induction left arbitrary: attempt ls sent)
  case (Suc left)
  let ?p = "u_retry u"
  have lt: "attempt < unat (max (rp_attempts ?p) 1)" using Suc.prems(1) by (simp add: n_def)
  show ?case
  proof (cases "retryable ?p attempt (answers attempt req)")
    case False
    with Suc.prems(1) show ?thesis
      by (intro exI [of _ attempt]) (auto simp: attempt_loop_step [OF lt] simp del: attempt_loop.simps)
  next
    case True
    then have "attempt + 1 < n"
      using attempts_le [of ?p] by (simp add: retryable_def n_def)
    with Suc.prems(1) have left: "attempt + 1 + left = n" "0 < left" by simp_all
    from Suc.IH [OF left] obtain k where k: "attempt + 1 \<le> k" "k < n"
      "\<not> retryable ?p k (answers k req)"
      "\<forall>j. attempt + 1 \<le> j \<and> j < k \<longrightarrow> retryable ?p j (answers j req)"
      and run: "attempt_loop answers done_at rt idx n u (Some req)
          (case answers attempt req of Inl _ \<Rightarrow> ls | Inr resp \<Rightarrow> rs_status resp) (sent @ [req])
          (attempt + 1) left =
        Some (observe_breaker_outcome done_at idx (succeeded (answers k req)) u,
              conclude rt (answers k req), (sent @ [req]) @ replicate (k + 1 - (attempt + 1)) req)"
      by blast
    have rep: "(sent @ [req]) @ replicate (k + 1 - (attempt + 1)) req = sent @ replicate (k + 1 - attempt) req"
      using k(1) by (simp add: Suc_diff_le)
    have below: "\<forall>j. attempt \<le> j \<and> j < k \<longrightarrow> retryable ?p j (answers j req)"
      using k(4) True by (metis Suc_eq_plus1 Suc_leI le_neq_implies_less)
    have "attempt_loop answers done_at rt idx n u (Some req) ls sent attempt (Suc left) =
        Some (observe_breaker_outcome done_at idx (succeeded (answers k req)) u,
              conclude rt (answers k req), sent @ replicate (k + 1 - attempt) req)"
      unfolding attempt_loop_step [OF lt] using True \<open>attempt + 1 < n\<close> run rep by simp
    with k below show ?thesis by (intro exI [of _ k]) simp
  qed
qed simp

lemma observe_wf:
  "upstream_wf u \<Longrightarrow> upstream_wf (observe_breaker_outcome now idx ok u)"
  by (auto simp: observe_breaker_outcome_def upstream_wf_def Let_def split: option.split)

text \<open>The attempt that decides, as a function: the first one that is not retried.\<close>

definition deciding :: "retry_policy \<Rightarrow> (nat \<Rightarrow> client_error + ('hm, 'b) response) \<Rightarrow> nat" where
  "deciding p answers = the (List.find (\<lambda>k. \<not> retryable p k (answers k)) [0..<unat (max (rp_attempts p) 1)])"

lemma decidingI:
  assumes "k < unat (max (rp_attempts p) 1)" "\<not> retryable p k (answers k)"
    "\<forall>j<k. retryable p j (answers j)"
  shows "deciding p answers = k"
proof -
  have "List.find (\<lambda>k. \<not> retryable p k (answers k)) [0..<unat (max (rp_attempts p) 1)] = Some k"
    using assms by (auto simp: find_Some_iff intro!: exI [of _ k])
  then show ?thesis by (simp add: deciding_def)
qed

lemma run_attempts:
  fixes u :: "'cl upstream"
  defines "n \<equiv> unat (max (rp_attempts (u_retry u)) 1)"
  shows "attempt_loop answers done_at rt idx n u (Some req) ls [] 0 n =
    (let k = deciding (u_retry u) (\<lambda>k. answers k req) in
     Some (observe_breaker_outcome done_at idx (succeeded (answers k req)) u,
           conclude rt (answers k req), replicate (k + 1) req))"
    and "deciding (u_retry u) (\<lambda>k. answers k req) < n"
proof -
  have "0 < n" by (simp add: n_def max_def word_le_nat_alt)
  then obtain k where k: "k < n" "\<not> retryable (u_retry u) k (answers k req)"
      "\<forall>j<k. retryable (u_retry u) j (answers j req)"
      "attempt_loop answers done_at rt idx n u (Some req) ls [] 0 n =
        Some (observe_breaker_outcome done_at idx (succeeded (answers k req)) u,
              conclude rt (answers k req), replicate (k + 1) req)"
    using attempt_loop_spec [of 0 n u answers req done_at rt idx ls "[]"] unfolding n_def by auto
  have "deciding (u_retry u) (\<lambda>k. answers k req) = k"
    by (rule decidingI) (use k n_def in auto)
  with k show "attempt_loop answers done_at rt idx n u (Some req) ls [] 0 n =
    (let k = deciding (u_retry u) (\<lambda>k. answers k req) in
     Some (observe_breaker_outcome done_at idx (succeeded (answers k req)) u,
           conclude rt (answers k req), replicate (k + 1) req))"
    and "deciding (u_retry u) (\<lambda>k. answers k req) < n"
    by (simp_all add: Let_def)
qed


lemma forward_picked:
  assumes "pick_addr clk u = Some (u1, Some (addr, i))" and "upstream_wf u" and "u_addrs u \<noteq> []"
    and "i < length (u_addrs u)"
    and "rewrite_uri X (rq_uri req) (u_authorities u ! i) = Inr uri"
    and "buffer_body (rq_body req) = Inr bytes"
  shows "forward X clk answers done_at u req rt =
    (let out = egress X req uri bytes;
         k = deciding (u_retry u) (\<lambda>k. answers k out) in
     Some (observe_breaker_outcome done_at (Some i) (succeeded (answers k out)) u1,
           conclude rt (answers k out), replicate (k + 1) out))"
proof -
  have u1: "u_retry u1 = u_retry u" "u_authorities u1 = u_authorities u" "upstream_wf u1"
    using pick_addr_wf [OF assms(2,1)] by simp_all
  have i: "i < length (u_authorities u1)" using assms(2,4) u1 by (simp add: upstream_wf_def)
  show ?thesis
    unfolding forward_def forward_prepare_def Let_def
    using assms(1,3,5,6) i u1 run_attempts(1) [of answers done_at rt "Some i" u1]
    by (simp add: egress_def Let_def)
qed

lemma forward_rejected:
  assumes "pick_addr clk u = Some (u1, None)" and "u_addrs u \<noteq> []"
  shows "forward X clk answers done_at u req rt = Some (u1, Inl BreakerOpen, [])"
  using assms by (simp add: forward_def forward_prepare_def Let_def)

lemma forward_early:
  assumes "pick_addr clk u = Some (u1, Some (addr, i))" and "upstream_wf u" and "u_addrs u \<noteq> []"
    and "i < length (u_addrs u)"
  shows "rewrite_uri X (rq_uri req) (u_authorities u ! i) = Inl e \<Longrightarrow>
      forward X clk answers done_at u req rt = Some (u1, Inl (Body e), [])"
    and "rewrite_uri X (rq_uri req) (u_authorities u ! i) = Inr uri \<Longrightarrow>
      buffer_body (rq_body req) = Inl e \<Longrightarrow>
      forward X clk answers done_at u req rt = Some (u1, Inl (Body e), [])"
  using assms pick_addr_wf [OF assms(2,1)]
  by (simp_all add: forward_def forward_prepare_def Let_def upstream_wf_def)

lemma forward_no_addrs:
  assumes "u_addrs u = []"
  shows "forward X clk answers done_at u req rt =
    (case buffer_body (rq_body req) of
       Inl e \<Rightarrow> Some (u, Inl (Body e), [])
     | Inr bytes \<Rightarrow>
         (let out = egress X req (rq_uri req) bytes;
              k = deciding (u_retry u) (\<lambda>k. answers k out) in
          Some (observe_breaker_outcome done_at None (succeeded (answers k out)) u,
                conclude rt (answers k out), replicate (k + 1) out)))"
  using assms run_attempts(1) [of answers done_at rt None u]
  by (simp add: forward_def forward_prepare_def egress_def Let_def split: sum.split)

lemma rewrite_uri_ok:
  "crates_ok X \<Longrightarrow>
   rewrite_uri X original au =
     Inr \<lparr>uri_scheme = Some ''http'', uri_authority = Some au,
          uri_path_and_query = Some (case uri_path_and_query original of None \<Rightarrow> ''/'' | Some p \<Rightarrow> p)\<rparr>"
  by (cases original) (auto simp: rewrite_uri_def crates_ok_def Let_def split: option.split)

text \<open>
  Every run of \<open>forward\<close> on a well-formed upstream ends in one of three ways: rejected by the
  breakers, refused before anything is sent, or decided by one answer of the client.
\<close>

lemma forward_ends:
  assumes wf: "upstream_wf u"
  obtains (rejected) u1 where "u_addrs u \<noteq> []" "pick_addr clk u = Some (u1, None)"
      "forward X clk answers done_at u req rt = Some (u1, Inl BreakerOpen, [])"
  | (refused) u1 e where "u_breakers u1 = u_breakers u" "upstream_wf u1"
      "forward X clk answers done_at u req rt = Some (u1, Inl (Body e), [])"
  | (decided) u1 idx out k where "upstream_wf u1" "u_breakers u1 = u_breakers u"
      "u_addrs u = [] \<and> idx = None \<and> u1 = u \<or>
       (\<exists>addr i. idx = Some i \<and> i < length (u_addrs u) \<and> pick_addr clk u = Some (u1, Some (addr, i))
          \<and> rewrite_uri X (rq_uri req) (u_authorities u ! i) = Inr (oq_uri out))"
      "buffer_body (rq_body req) = Inr (oq_bytes out)" "out = egress X req (oq_uri out) (oq_bytes out)"
      "k = deciding (u_retry u) (\<lambda>k. answers k out)" "k < unat (max (rp_attempts (u_retry u)) 1)"
      "forward X clk answers done_at u req rt =
         Some (observe_breaker_outcome done_at idx (succeeded (answers k out)) u1,
               conclude rt (answers k out), replicate (k + 1) out)"
proof (cases "u_addrs u = []")
  case True
  show ?thesis
  proof (cases "buffer_body (rq_body req)")
    case (Inl e)
    with True wf show ?thesis by (intro refused [of u e]) (simp_all add: forward_no_addrs)
  next
    case (Inr bytes)
    let ?out = "egress X req (rq_uri req) bytes"
    show ?thesis
      by (rule decided [of u None ?out "deciding (u_retry u) (\<lambda>k. answers k ?out)"])
        (use True Inr wf run_attempts(2) [of u answers ?out] in
          \<open>simp_all add: forward_no_addrs egress_def Let_def\<close>)
  qed
next
  case False
  obtain r where pick: "pick_addr clk u = Some (u\<lparr>u_next := u_next u + 1\<rparr>, r)"
    using pick_addr_find [OF wf False] by blast
  let ?u1 = "u\<lparr>u_next := u_next u + 1\<rparr>"
  have u1: "upstream_wf ?u1" "u_breakers ?u1 = u_breakers u" using wf by (simp_all add: upstream_wf_def)
  show ?thesis
  proof (cases r)
    case None
    with False pick show ?thesis by (intro rejected [of ?u1]) (simp_all add: forward_rejected)
  next
    case (Some ai)
    obtain addr i where ai: "ai = (addr, i)" by (cases ai)
    have i: "i < length (u_addrs u)" using pick_addr_index [OF wf False] pick Some ai by blast
    note early = forward_early [OF pick [unfolded Some ai] wf False i, where X = X and req = req]
    show ?thesis
    proof (cases "rewrite_uri X (rq_uri req) (u_authorities u ! i)")
      case (Inl e)
      show ?thesis by (rule refused [OF u1(2,1) early(1) [OF Inl]])
    next
      case uri: (Inr uri)
      show ?thesis
      proof (cases "buffer_body (rq_body req)")
        case (Inl e)
        show ?thesis by (rule refused [OF u1(2,1) early(2) [OF uri Inl]])
      next
        case (Inr bytes)
        let ?out = "egress X req uri bytes"
        show ?thesis
          by (rule decided [of ?u1 "Some i" ?out "deciding (u_retry u) (\<lambda>k. answers k ?out)"])
            (use uri Inr u1 pick Some ai i run_attempts(2) [of u answers ?out]
                forward_picked [OF pick [unfolded Some ai] wf False i uri Inr] in
              \<open>simp_all add: egress_def Let_def\<close>)
      qed
    qed
  qed
qed


section \<open>Properties\<close>

text \<open>
  C6. What \<open>forward\<close> does, on every branch. With a pool and the documented behaviour of the
  header and URI types: if the pick finds every breaker open the answer is \<open>BreakerOpen\<close> and
  nothing is sent; if the body cannot be buffered the answer is that error and nothing is
  sent; otherwise the request goes out with the picked backend's authority in an absolute
  \<open>http\<close> URI, as HTTP/1.1, without the inbound host header, and is repeated unchanged until
  the first answer the retry policy does not retry, which is what the caller gets.
\<close>

theorem forward_behaviour:
  assumes "crates_ok X" and "upstream_wf u" and "u_addrs u \<noteq> []"
  shows "forward X clk answers done_at u req rt =
    (case the (pick_addr clk u) of
       (u1, None) \<Rightarrow> Some (u1, Inl BreakerOpen, [])
     | (u1, Some (addr, i)) \<Rightarrow>
         (case buffer_body (rq_body req) of
            Inl e \<Rightarrow> Some (u1, Inl (Body e), [])
          | Inr bytes \<Rightarrow>
              (let uri = \<lparr>uri_scheme = Some ''http'', uri_authority = Some (u_authorities u ! i),
                          uri_path_and_query =
                            Some (case uri_path_and_query (rq_uri req) of None \<Rightarrow> ''/'' | Some p \<Rightarrow> p)\<rparr>;
                   out = egress X req uri bytes;
                   k = deciding (u_retry u) (\<lambda>k. answers k out) in
               Some (observe_breaker_outcome done_at (Some i) (succeeded (answers k out)) u1,
                     conclude rt (answers k out), replicate (k + 1) out))))"
proof -
  obtain u1 r where pick: "pick_addr clk u = Some (u1, r)"
    using pick_addr_find [OF assms(2,3)] by blast
  show ?thesis
  proof (cases r)
    case None
    with pick forward_rejected [of clk u u1] assms(3) show ?thesis by simp
  next
    case (Some ai)
    obtain addr i where ai: "ai = (addr, i)" by (cases ai)
    note pick' = pick [unfolded Some ai]
    have i: "i < length (u_addrs u)" using pick_addr_index [OF assms(2,3) pick'] by blast
    note uri = rewrite_uri_ok [OF assms(1), of "rq_uri req" "u_authorities u ! i"]
    show ?thesis
    proof (cases "buffer_body (rq_body req)")
      case (Inl e)
      show ?thesis unfolding forward_early(2) [OF pick' assms(2,3) i uri Inl] pick' Inl by simp
    next
      case (Inr bytes)
      show ?thesis unfolding forward_picked [OF pick' assms(2,3) i uri Inr] pick' Inr
        by (simp add: Let_def)
    qed
  qed
qed

text \<open>A pool of two healthy backends behind a policy with two attempts on 503.\<close>

definition sample_upstream_pool :: "unit upstream" where
  "sample_upstream_pool =
     (sample_pool 1 [closed_breaker, closed_breaker])
       \<lparr>u_retry := \<lparr>rp_attempts = 2, rp_on_status = [503], rp_on_connect_error = True\<rparr>\<rparr>"

definition sample_answers ::
  "nat \<Rightarrow> (string \<times> string) list out_request \<Rightarrow> client_error + ((string \<times> string) list, unit) response" where
  "sample_answers k out =
     Inr \<lparr>rs_status = (if k = 0 then 503 else 200), rs_headers = [], rs_body = ()\<rparr>"

lemma sample_upstream_pool_wf:
  "upstream_wf sample_upstream_pool \<and> u_addrs sample_upstream_pool \<noteq> []"
  by (simp add: sample_upstream_pool_def sample_pool_simps)

lemma max_two_one: "max 2 1 = (2 :: u32)"
  by (simp add: max_def word_le_nat_alt)

lemma forward_behaviour_witness:
  "\<exists>u1 out. forward sample_crates (\<lambda>_. 0) sample_answers 0 sample_upstream_pool
       (sample_request [(''host'', ''a''), (''x'', ''1'')] ''/p'') 5 =
     Some (u1, Inr \<lparr>rs_status = 200, rs_headers = [], rs_body = timed_new () 5\<rparr>, [out, out])
   \<and> oq_headers out = [(''x'', ''1'')]"
proof -
  let ?p = "u_retry sample_upstream_pool"
  have dec: "deciding ?p (\<lambda>k. sample_answers k out) = 1" for out
    by (rule decidingI)
      (simp_all add: sample_upstream_pool_def retryable_def sample_answers_def max_two_one)
  let ?u = sample_upstream_pool
  have fields: "u_breakers ?u = [closed_breaker, closed_breaker]" "u_next ?u = 1" "length (u_addrs ?u) = 2"
    by (simp_all add: sample_upstream_pool_def sample_pool_def)
  have "slot ?u 1 0 = 1" using fields(3) by (simp add: slot_def)
  moreover have "breaker_check closed_breaker 0 = Allow" by (simp add: closed_breaker_def breaker_check_def)
  ultimately obtain u1 addr i where pick: "pick_addr (\<lambda>_. 0) ?u = Some (u1, Some (addr, i))"
    using pick_addr_find [of ?u "\<lambda>_. 0"] sample_upstream_pool_wf
    by (simp add: fields upt_rec)
  show ?thesis
    using forward_behaviour [OF sample_crates_ok, of sample_upstream_pool "\<lambda>_. 0" sample_answers 0
        "sample_request [(''host'', ''a''), (''x'', ''1'')] ''/p''" 5] sample_upstream_pool_wf pick dec
    by (simp add: Let_def sample_request_def buffer_body_def egress_def sample_crates_def
        conclude_def sample_answers_def)
qed

text \<open>
  C23. Forwarding is bounded and never panics: on any well-formed upstream, with or without
  addresses, it returns; it sends at most \<open>max attempts 1\<close> requests, all identical; and it never
  answers \<open>RetriesExhausted\<close>, whatever the client answers, because the last attempt is always
  final.
\<close>

theorem forward_bounded:
  assumes "upstream_wf u"
  shows "\<exists>u' r sent. forward X clk answers done_at u req rt = Some (u', r, sent)
    \<and> length sent \<le> unat (max (rp_attempts (u_retry u)) 1)
    \<and> (\<forall>a\<in>set sent. \<forall>b\<in>set sent. a = b)
    \<and> (\<forall>s. r \<noteq> Inl (RetriesExhausted s)) \<and> upstream_wf u'"
  using assms
proof (cases rule: forward_ends [of u clk X answers done_at req rt])
  case (rejected u1)
  then show ?thesis using pick_addr_wf [OF assms] by auto
next
  case (refused u1 e)
  then show ?thesis by auto
next
  case (decided u1 idx out k)
  then show ?thesis by (auto simp: observe_wf conclude_def split: sum.split)
qed

lemma forward_bounded_witness:
  "\<exists>u' r sent. forward sample_crates (\<lambda>_. 0) sample_answers 0 sample_upstream_pool
       (sample_request [] ''/'') 5 = Some (u', r, sent) \<and> length sent \<le> 2"
  using forward_bounded [of sample_upstream_pool sample_crates "\<lambda>_. 0" sample_answers 0
      "sample_request [] ''/''" 5] sample_upstream_pool_wf
  by (auto simp: sample_upstream_pool_def max_two_one)

text \<open>
  C24. A request touches one breaker, once, and in the right direction: if anything was sent,
  exactly the picked backend's breaker records the outcome (a success when the final answer is
  a response below 500 or from 600 up, a failure when it is a server error or a client error)
  and every other breaker is unchanged; if nothing was sent no breaker changes.
\<close>

theorem forward_breaker_outcome:
  assumes "upstream_wf u" and "u_addrs u \<noteq> []"
    and "forward X clk answers done_at u req rt = Some (u', r, sent)"
  shows "(sent = [] \<longrightarrow> u_breakers u' = u_breakers u)
    \<and> (sent \<noteq> [] \<longrightarrow>
        (\<exists>u1 addr i. pick_addr clk u = Some (u1, Some (addr, i)) \<and> i < length (u_breakers u)
          \<and> u_breakers u' = (u_breakers u)
              [i := (if \<exists>resp. r = Inr resp \<and> \<not> is_server_error (rs_status resp)
                     then on_success (u_breakers u ! i)
                     else on_failure done_at (u_breakers u ! i))]))"
  using assms(1)
proof (cases rule: forward_ends [of u clk X answers done_at req rt])
  case (rejected u1)
  then show ?thesis using pick_addr_wf [OF assms(1)] assms(3) by auto
next
  case (refused u1 e)
  then show ?thesis using assms(3) by auto
next
  case (decided u1 idx out k)
  then obtain addr i where i: "idx = Some i" "i < length (u_addrs u)"
    "pick_addr clk u = Some (u1, Some (addr, i))" using assms(2) by blast
  have "succeeded (answers k out) \<longleftrightarrow>
      (\<exists>resp. r = Inr resp \<and> \<not> is_server_error (rs_status resp))"
    using decided(8) assms(3) by (auto simp: conclude_def succeeded_def split: sum.splits)
  then show ?thesis
    using decided i assms by (auto simp: observe_breaker_outcome_def Let_def upstream_wf_def)
qed

lemma forward_breaker_outcome_witness:
  "\<exists>u' r sent. forward sample_crates (\<lambda>_. 0) sample_answers 0 sample_upstream_pool
       (sample_request [] ''/'') 5 = Some (u', r, sent)
     \<and> (sent = [] \<longrightarrow> u_breakers u' = u_breakers sample_upstream_pool)"
proof -
  obtain u' r sent where f: "forward sample_crates (\<lambda>_. 0) sample_answers 0 sample_upstream_pool
       (sample_request [] ''/'') 5 = Some (u', r, sent)"
    using forward_ends [of sample_upstream_pool] sample_upstream_pool_wf by metis
  with forward_breaker_outcome [OF _ _ f] sample_upstream_pool_wf show ?thesis by blast
qed



text \<open>
  Skipping the buffering of a body that reports the exact size zero is only an
  optimisation: whenever reading an in-memory body to its end succeeds with some bytes, the
  bytes sent upstream are those.
\<close>

theorem buffer_body_collects:
  assumes "drain vec_poll_frame ts b [] = (Some (Inr bytes) :: ('e + string) option)"
  shows "buffer_body \<lparr>bs_size_exact = vec_size_hint b, bs_collect = Inr bytes\<rparr> = Inr bytes"
  using vec.size_zero_collects_empty [OF _ assms] by (simp add: buffer_body_def)

lemma buffer_body_collects_witness:
  "buffer_body \<lparr>bs_size_exact = vec_size_hint (vec_empty :: unit vec_body), bs_collect = Inr []\<rparr> = Inr []"
  using buffer_body_collects [where 'e = unit and ts = "[0]" and b = "vec_empty :: unit vec_body"
      and bytes = "[]"]
  by (simp add: vec_poll_frame_def vec_empty_def)

end
