(* ===== verification/Conduit_Dispatch.thy ===== *)
theory Conduit_Dispatch
  imports Conduit_Routing Conduit_Forward
begin

text \<open>
  \<^verbatim>\<open>conduit-lifecycle/src/table.rs\<close>, lines 308 to 523: the upstream map and the dispatcher. The
  world outside a request is the record \<open>env\<close>: the clock of the pick, the answers of the hyper
  client, the instant the outcome is recorded, and whether the forwarding future completes
  before a \<open>tokio\<close> timer of a given length. Upstreams are shared between clones of the
  dispatcher, so \<open>handle\<close> returns the dispatcher with the upstream it used updated.
\<close>

section \<open>Model\<close>

subsection \<open>UpstreamMap\<close>

type_synonym 'cl upstream_map = "string \<rightharpoonup> 'cl upstream"

definition map_new :: "'cl upstream_map" where
  "map_new = Map.empty"

definition map_insert ::
  "string \<Rightarrow> 'cl upstream \<Rightarrow> 'cl upstream_map \<Rightarrow> 'cl upstream_map \<times> 'cl upstream option" where
  "map_insert name u m = (m(name \<mapsto> u), m name)"

definition map_get :: "'cl upstream_map \<Rightarrow> string \<Rightarrow> 'cl upstream option" where
  "map_get m name = m name"

text \<open>\<open>iter\<close> yields the bindings in arbitrary order: the set of them.\<close>

definition map_iter :: "'cl upstream_map \<Rightarrow> (string \<times> 'cl upstream) set" where
  "map_iter m = {(name, u). m name = Some u}"

definition tls_options_from_config :: "upstream_tls \<Rightarrow> upstream_tls_options" where
  "tls_options_from_config t =
     \<lparr>uo_ca = ut_ca t, uo_client_cert = ut_client_cert t, uo_client_key = ut_client_key t,
      uo_verify = ut_verify t\<rparr>"

definition upstream_from_config ::
  "('re, 'hm) crates \<Rightarrow> ('cert, 'key, 'roots) tls_crates \<Rightarrow> (nat \<Rightarrow> instant) \<Rightarrow> upstream_cfg
   \<Rightarrow> (tls_load_error + ('cert, 'key, 'roots) connector upstream) option" where
  "upstream_from_config X Y clk u =
     with_tls X Y clk retry_default (uc_addrs u) breaker_config_default
       (Some (dstr_get (uc_connect_timeout u))) (map_option tls_options_from_config (uc_tls u))"

text \<open>The loop of \<open>UpstreamMap::from_config\<close>; an upstream whose TLS files fail to load is skipped.\<close>

fun map_from_config ::
  "('re, 'hm) crates \<Rightarrow> ('cert, 'key, 'roots) tls_crates \<Rightarrow> (nat \<Rightarrow> instant)
   \<Rightarrow> ('cert, 'key, 'roots) connector upstream_map \<Rightarrow> upstream_cfg list
   \<Rightarrow> ('cert, 'key, 'roots) connector upstream_map option" where
  "map_from_config X Y clk m [] = Some m"
| "map_from_config X Y clk m (u # us) =
     (case upstream_from_config X Y clk u of
        None \<Rightarrow> None
      | Some (Inl e) \<Rightarrow> map_from_config X Y clk m us
      | Some (Inr up) \<Rightarrow> map_from_config X Y clk (fst (map_insert (uc_name u) up m)) us)"

subsection \<open>Dispatch\<close>

record ('re, 'cl) dispatch =
  d_routes :: "'re route_table"
  d_upstreams :: "'cl upstream_map"

definition dispatch_new :: "'re route_table \<Rightarrow> 'cl upstream_map \<Rightarrow> ('re, 'cl) dispatch" where
  "dispatch_new routes upstreams = \<lparr>d_routes = routes, d_upstreams = upstreams\<rparr>"

definition dispatch_from_config ::
  "('re, 'hm) crates \<Rightarrow> ('cert, 'key, 'roots) tls_crates \<Rightarrow> (nat \<Rightarrow> instant) \<Rightarrow> config
   \<Rightarrow> ('re, ('cert, 'key, 'roots) connector) dispatch option" where
  "dispatch_from_config X Y clk cfg =
     map_option (dispatch_new (table_from_config X cfg))
       (map_from_config X Y clk map_new (cf_upstreams cfg))"

datatype dispatch_error =
    NoRoute
  | UpstreamNotRegistered string
  | UpstreamError forward_error
  | Timeout duration

record ('hm, 'b) env =
  ev_clk :: "nat \<Rightarrow> instant"
  ev_answers :: "nat \<Rightarrow> 'hm out_request \<Rightarrow> client_error + ('hm, 'b) response"
  ev_done_at :: instant
  ev_completes_within :: "duration \<Rightarrow> bool"
  ev_sent_when_cut :: nat

text \<open>
  \<open>tokio::time::timeout\<close> polls the future before the timer, so the part of \<open>forward\<close> before its
  first await always runs, and an early return from it is never timed out. When the timer
  wins, the future is dropped where it stands: the pick has advanced the counter, some of the
  attempts may have gone out, and no outcome reaches a breaker.
\<close>

definition forward_with_timeout ::
  "('re, 'hm) crates \<Rightarrow> ('hm, 'b) env \<Rightarrow> 'cl upstream \<Rightarrow> 'hm request \<Rightarrow> duration \<Rightarrow> duration
   \<Rightarrow> ('cl upstream \<times> (dispatch_error + ('hm, 'b timed_body) response) \<times> 'hm out_request list) option" where
  "forward_with_timeout X ev u req total_timeout read_timeout =
     (case forward_prepare X (ev_clk ev) u req of
        None \<Rightarrow> None
      | Some (u1, Inl e) \<Rightarrow> Some (u1, Inl (UpstreamError e), [])
      | Some (u1, Inr _) \<Rightarrow>
          (case forward X (ev_clk ev) (ev_answers ev) (ev_done_at ev) u req read_timeout of
             None \<Rightarrow> None
           | Some (u2, r, sent) \<Rightarrow>
               if ev_completes_within ev total_timeout
               then Some (u2, case r of Inr resp \<Rightarrow> Inr resp | Inl e \<Rightarrow> Inl (UpstreamError e), sent)
               else Some (u1, Inl (Timeout total_timeout), take (ev_sent_when_cut ev) sent)))"

definition handle ::
  "('re, 'hm) crates \<Rightarrow> ('hm, 'b) env \<Rightarrow> ('re, 'cl) dispatch \<Rightarrow> 'hm request
   \<Rightarrow> (('re, 'cl) dispatch \<times> (dispatch_error + ('hm, 'b timed_body) response) \<times> 'hm out_request list) option" where
  "handle X ev d req =
     (let host = Option.bind (header_get X (rq_headers req) HOST) (header_to_str X);
          path = uri_path X (rq_uri req);
          headers = rq_headers req in
      case table_find X (d_routes d) host path headers of
        None \<Rightarrow> Some (d, Inl NoRoute, [])
      | Some route \<Rightarrow>
          (case map_get (d_upstreams d) (r_upstream route) of
             None \<Rightarrow> Some (d, Inl (UpstreamNotRegistered (r_upstream route)), [])
           | Some upstream \<Rightarrow>
               (case forward_with_timeout X ev upstream req
                       (r_total_timeout route) (r_read_timeout route) of
                  None \<Rightarrow> None
                | Some (upstream', r, sent) \<Rightarrow>
                    Some (d\<lparr>d_upstreams := (d_upstreams d)(r_upstream route \<mapsto> upstream')\<rparr>, r, sent))))"

section \<open>Interface: a registry of named things\<close>

text \<open>What the dispatcher needs of the map: a lookup sees the last binding of a name.\<close>

locale registry =
  fixes empty :: 'm
    and bind :: "string \<Rightarrow> 'v \<Rightarrow> 'm \<Rightarrow> 'm"
    and get :: "'m \<Rightarrow> string \<Rightarrow> 'v option"
  assumes get_empty: "get empty name = None"
    and get_bind: "get (bind name v m) name' = (if name' = name then Some v else get m name')"
begin

text \<open>Registering a list of named results, skipping the failures.\<close>

fun bind_all :: "(string \<times> 'v option) list \<Rightarrow> 'm \<Rightarrow> 'm" where
  "bind_all [] m = m"
| "bind_all ((name, None) # xs) m = bind_all xs m"
| "bind_all ((name, Some v) # xs) m = bind_all xs (bind name v m)"

lemma get_bind_all_other: "name \<notin> fst ` set xs \<Longrightarrow> get (bind_all xs m) name = get m name"
  by (induction xs m rule: bind_all.induct) (auto simp: get_bind)

lemma get_bind_all:
  "distinct (map fst xs) \<Longrightarrow> (name, v) \<in> set xs \<Longrightarrow> get m name = None \<Longrightarrow>
   get (bind_all xs m) name = v"
proof (induction xs m rule: bind_all.induct)
  case (2 n xs m)
  then show ?case by (auto simp: get_bind_all_other image_iff)
next
  case (3 n w xs m)
  then show ?case by (cases "name = n") (auto simp: get_bind_all_other get_bind image_iff)
qed simp

lemma get_bind_all_SomeD:
  "get (bind_all xs m) name = Some v \<Longrightarrow> (name, Some v) \<in> set xs \<or> get m name = Some v"
  by (induction xs m rule: bind_all.induct) (auto simp: get_bind split: if_splits)

lemma get_bind_all_fresh:
  "distinct (map fst xs) \<Longrightarrow> (name, v) \<in> set xs \<Longrightarrow> get (bind_all xs empty) name = v"
  by (rule get_bind_all) (auto simp: get_empty)

end

interpretation umap: registry map_new "\<lambda>name u m. fst (map_insert name u m)" map_get
  by unfold_locales (simp_all add: map_new_def map_insert_def map_get_def)

section \<open>Lemmas\<close>

lemma map_from_config_bind_all:
  "map_from_config X Y clk m us =
     (if \<exists>u\<in>set us. upstream_from_config X Y clk u = None then None
      else Some (umap.bind_all
        (map (\<lambda>u. (uc_name u,
                   case upstream_from_config X Y clk u of Some (Inr up) \<Rightarrow> Some up | _ \<Rightarrow> None)) us) m))"
  by (induction us arbitrary: m) (auto split: option.splits sum.splits)

lemma with_tls_wf:
  "with_tls X Y clk retry addrs bc ct tls = Some (Inr u) \<Longrightarrow> length addrs < 2 ^ 64 \<Longrightarrow>
   upstream_wf u \<and> u_retry u = retry \<and> u_addrs u = addrs \<and> u_next u = 0
   \<and> (\<forall>b\<in>set (u_breakers u). \<forall>t. breaker_check b t = Allow)"
  by (auto simp: with_tls_def Let_def upstream_wf_def breaker_check_def breaker_new_def
      split: sum.splits option.splits dest: build_authorities_length)

lemma forward_prepare_forward:
  "forward_prepare X clk u req = Some (u1, Inl e) \<Longrightarrow>
     forward X clk answers done_at u req rt = Some (u1, Inl e, [])"
  by (simp add: forward_def)

lemma forward_prepare_breakers:
  "upstream_wf u \<Longrightarrow> forward_prepare X clk u req = Some (u1, r) \<Longrightarrow>
   u_breakers u1 = u_breakers u \<and> upstream_wf u1 \<and> u_addrs u1 = u_addrs u"
  by (auto simp: forward_prepare_def split: if_splits option.splits prod.splits
      dest: pick_addr_wf)


text \<open>The upstreams of a dispatcher that was built from a document.\<close>

definition addrs_fit :: "config \<Rightarrow> bool" where
  "addrs_fit cfg \<longleftrightarrow> (\<forall>u\<in>set (cf_upstreams cfg). length (uc_addrs u) < 2 ^ 64)"

lemma dispatch_built:
  assumes "dispatch_from_config X Y clk cfg = Some d" and "map_get (d_upstreams d) name = Some u"
  shows "\<exists>uc\<in>set (cf_upstreams cfg). uc_name uc = name \<and> upstream_from_config X Y clk uc = Some (Inr u)"
proof -
  let ?built = "\<lambda>u. case upstream_from_config X Y clk u of Some (Inr up) \<Rightarrow> Some up | _ \<Rightarrow> None"
  let ?xs = "map (\<lambda>u. (uc_name u, ?built u)) (cf_upstreams cfg)"
  from assms(1) have "d_upstreams d = umap.bind_all ?xs map_new"
    by (auto simp: dispatch_from_config_def dispatch_new_def map_from_config_bind_all split: if_splits)
  with assms(2) umap.get_bind_all_SomeD [of ?xs map_new name u]
  have "(name, Some u) \<in> set ?xs" by (simp add: umap.get_empty)
  then show ?thesis by (auto split: option.splits sum.splits)
qed

lemma dispatch_upstream:
  assumes "dispatch_from_config X Y clk cfg = Some d" and "addrs_fit cfg"
    and "map_get (d_upstreams d) name = Some u"
  shows "upstream_wf u \<and> u_retry u = retry_default
    \<and> (\<exists>uc\<in>set (cf_upstreams cfg). uc_name uc = name \<and> u_addrs u = uc_addrs uc)"
  using dispatch_built [OF assms(1,3)] assms(2)
  by (auto simp: upstream_from_config_def addrs_fit_def dest!: with_tls_wf)

text \<open>Every upstream name a built dispatcher can resolve, when all TLS files load.\<close>

lemma dispatch_registered:
  assumes "dispatch_from_config X Y clk cfg = Some d" and "distinct (map uc_name (cf_upstreams cfg))"
    and "uc \<in> set (cf_upstreams cfg)" and "upstream_from_config X Y clk uc = Some (Inr up)"
  shows "map_get (d_upstreams d) (uc_name uc) = Some up"
proof -
  let ?built = "\<lambda>u. case upstream_from_config X Y clk u of Some (Inr up) \<Rightarrow> Some up | _ \<Rightarrow> None"
  let ?xs = "map (\<lambda>u. (uc_name u, ?built u)) (cf_upstreams cfg)"
  have d: "d_upstreams d = umap.bind_all ?xs map_new"
    using assms(1) by (auto simp: dispatch_from_config_def dispatch_new_def map_from_config_bind_all
        split: if_splits)
  have mem: "(uc_name uc, Some up) \<in> set ?xs" using assms(3,4) by force
  have dist: "distinct (map fst ?xs)" using assms(2) by (simp add: comp_def)
  show ?thesis unfolding d by (rule umap.get_bind_all_fresh [OF dist mem])
qed

lemma forward_with_timeout_total:
  assumes "upstream_wf u"
  shows "\<exists>u' r sent. forward_with_timeout X ev u req total_t read_t = Some (u', r, sent) \<and> upstream_wf u'
    \<and> length sent \<le> unat (max (rp_attempts (u_retry u)) 1)
    \<and> r \<noteq> Inl NoRoute \<and> (\<forall>n. r \<noteq> Inl (UpstreamNotRegistered n))"
proof -
  obtain u2 r sent where f: "forward X (ev_clk ev) (ev_answers ev) (ev_done_at ev) u req read_t
      = Some (u2, r, sent)" "upstream_wf u2" "length sent \<le> unat (max (rp_attempts (u_retry u)) 1)"
    using assms
  proof (cases rule: forward_ends [of u "ev_clk ev" X "ev_answers ev" "ev_done_at ev" req read_t])
    case (rejected u1)
    with that pick_addr_wf [OF assms] show thesis by auto
  next
    case (refused u1 e)
    with that show thesis by auto
  next
    case (decided u1 idx out k)
    with that show thesis by (auto simp: observe_wf)
  qed
  then obtain u1 r1 where p: "forward_prepare X (ev_clk ev) u req = Some (u1, r1)"
    by (auto simp: forward_def split: option.splits)
  have wf1: "upstream_wf u1" using forward_prepare_breakers [OF assms p] by blast
  show ?thesis
  proof (cases r1)
    case (Inl e)
    with p wf1 show ?thesis by (simp add: forward_with_timeout_def)
  next
    case (Inr x)
    with p f wf1 show ?thesis
      by (cases "ev_completes_within ev total_t"; cases r)
        (simp_all add: forward_with_timeout_def min.coboundedI2)
  qed
qed

section \<open>Properties\<close>

text \<open>
  C35. A dispatcher built from a document always answers: for every request \<open>handle\<close> returns
  without panicking, changes nothing but the upstream the route names, and sends at most one
  request, because the retry settings of the document never reach the upstreams: they are
  all built with the default policy.
\<close>

theorem handle_total_single_attempt:
  assumes "dispatch_from_config X Y clk cfg = Some d" and "addrs_fit cfg"
  shows "\<exists>d' r sent. handle X ev d req = Some (d', r, sent)
    \<and> length sent \<le> 1 \<and> d_routes d' = d_routes d
    \<and> (\<forall>name. map_get (d_upstreams d') name \<noteq> map_get (d_upstreams d) name \<longrightarrow>
         (\<exists>route. table_find X (d_routes d)
                    (Option.bind (header_get X (rq_headers req) HOST) (header_to_str X))
                    (uri_path X (rq_uri req)) (rq_headers req) = Some route
                  \<and> name = r_upstream route))"
proof -
  let ?route = "table_find X (d_routes d)
      (Option.bind (header_get X (rq_headers req) HOST) (header_to_str X))
      (uri_path X (rq_uri req)) (rq_headers req)"
  show ?thesis
  proof (cases ?route)
    case None
    then show ?thesis by (simp add: handle_def Let_def)
  next
    case (Some route)
    show ?thesis
    proof (cases "map_get (d_upstreams d) (r_upstream route)")
      case None
      with Some show ?thesis by (simp add: handle_def Let_def)
    next
      case up: (Some u)
      note u = dispatch_upstream [OF assms up]
      have one: "unat (max (rp_attempts retry_default) 1) = 1"
        by (simp add: retry_default_def max_def)
      obtain u' r sent where "forward_with_timeout X ev u req (r_total_timeout route)
          (r_read_timeout route) = Some (u', r, sent)" "length sent \<le> 1"
        using forward_with_timeout_total [of u X ev req "r_total_timeout route" "r_read_timeout route"]
          u one by auto
      with Some up show ?thesis by (auto simp: handle_def Let_def map_get_def)
    qed
  qed
qed

definition sample_env :: "bool \<Rightarrow> ((string \<times> string) list, unit) env" where
  "sample_env in_time =
     \<lparr>ev_clk = (\<lambda>_. 0), ev_answers = sample_answers, ev_done_at = 0,
      ev_completes_within = (\<lambda>_. in_time), ev_sent_when_cut = 1\<rparr>"

lemma sample_dispatch:
  "\<exists>d. dispatch_from_config sample_crates sample_tls_crates (\<lambda>_. 0) sample_config = Some d"
  by (simp add: dispatch_from_config_def sample_config_def de_config_def sample_upstream_def
      de_upstream_cfg_def upstream_from_config_def with_tls_def build_https_connector_def
      sample_crates_def)

lemma sample_config_fits: "addrs_fit sample_config"
  by (simp add: addrs_fit_def sample_config_def de_config_def sample_upstream_def de_upstream_cfg_def)

lemma handle_total_single_attempt_witness:
  "\<exists>d d' r sent. dispatch_from_config sample_crates sample_tls_crates (\<lambda>_. 0) sample_config = Some d
     \<and> handle sample_crates (sample_env True) d (sample_request [(''host'', ''localhost'')] ''/'')
         = Some (d', r, sent) \<and> length sent \<le> 1"
  using sample_dispatch handle_total_single_attempt [OF _ sample_config_fits] by blast



end
