(* ===== verification/Conduit_Metrics.thy ===== *)
theory Conduit_Metrics
  imports Conduit_Http Complex_Main
begin

text \<open>
  \<^verbatim>\<open>conduit-control/src/metrics.rs\<close>: the counters of the data plane and their Prometheus
  exposition. Counters are 64-bit and wrap. Seconds are exact rationals: an elapsed time is a
  whole number of nanoseconds and the bucket bounds are multiples of a millisecond, far enough
  apart that the comparison in \<open>f64\<close> gives the same answer below \<open>2 ^ 23\<close> seconds, and every
  longer time is beyond the last bound either way. The text of a sum of seconds (\<open>f64\<close>'s
  \<open>Display\<close>) is the argument \<open>show_f64\<close>.
\<close>

section \<open>Model\<close>

definition class_index :: "u16 \<Rightarrow> nat option" where
  "class_index status =
     (let c = unat (status div 100) in
      if c = 2 then Some 0
      else if c = 3 then Some 1
      else if c = 4 then Some 2
      else if c = 5 then Some 3
      else None)"

definition CLASS_LABELS :: "string list" where
  "CLASS_LABELS = [''2xx'', ''3xx'', ''4xx'', ''5xx'']"

definition LATENCY_BUCKETS_S :: "rat list" where
  "LATENCY_BUCKETS_S =
     [1 / 1000, 5 / 1000, 10 / 1000, 25 / 1000, 50 / 1000, 100 / 1000, 250 / 1000, 500 / 1000,
      1, 25 / 10, 5, 10]"

text \<open>How the bounds print.\<close>

definition le_labels :: "string list" where
  "le_labels =
     [''0.001'', ''0.005'', ''0.01'', ''0.025'', ''0.05'', ''0.1'', ''0.25'', ''0.5'', ''1'',
      ''2.5'', ''5'', ''10'']"

fun bucket_scan :: "nat \<Rightarrow> rat list \<Rightarrow> rat \<Rightarrow> nat" where
  "bucket_scan i [] secs = i"
| "bucket_scan i (le # les) secs = (if secs \<le> le then i else bucket_scan (i + 1) les secs)"

definition bucket_index :: "rat \<Rightarrow> nat" where
  "bucket_index secs = bucket_scan 0 LATENCY_BUCKETS_S secs"

definition as_secs :: "duration \<Rightarrow> rat" where
  "as_secs d = of_nat d / 1000000000"

record class_histogram =
  ch_sum_us :: u64
  ch_buckets :: "u64 list"

record metrics_handle =
  mh_requests_total :: u64
  mh_requests_no_route :: u64
  mh_requests_upstream_unknown :: u64
  mh_requests_upstream_failed :: u64
  mh_responses_2xx :: u64
  mh_responses_3xx :: u64
  mh_responses_4xx :: u64
  mh_responses_5xx :: u64
  mh_duration_us_sum :: u64
  mh_duration_buckets :: "u64 list"
  mh_duration_by_class :: "class_histogram list"

definition metrics_new :: metrics_handle where
  "metrics_new =
     \<lparr>mh_requests_total = 0, mh_requests_no_route = 0, mh_requests_upstream_unknown = 0,
      mh_requests_upstream_failed = 0, mh_responses_2xx = 0, mh_responses_3xx = 0,
      mh_responses_4xx = 0, mh_responses_5xx = 0, mh_duration_us_sum = 0,
      mh_duration_buckets = replicate (length LATENCY_BUCKETS_S) 0,
      mh_duration_by_class =
        replicate 4 \<lparr>ch_sum_us = 0, ch_buckets = replicate (length LATENCY_BUCKETS_S) 0\<rparr>\<rparr>"

definition observe_request_start :: "metrics_handle \<Rightarrow> metrics_handle" where
  "observe_request_start m = m\<lparr>mh_requests_total := mh_requests_total m + 1\<rparr>"

definition bump :: "nat \<Rightarrow> u64 list \<Rightarrow> u64 list" where
  "bump i xs = xs[i := xs ! i + 1]"

definition observe_request_duration :: "duration \<Rightarrow> u16 \<Rightarrow> metrics_handle \<Rightarrow> metrics_handle" where
  "observe_request_duration elapsed status m =
     (let secs = as_secs elapsed;
          us = u64_or_max (as_micros elapsed);
          bucket = bucket_index secs;
          m = (if bucket < length LATENCY_BUCKETS_S
               then m\<lparr>mh_duration_buckets := bump bucket (mh_duration_buckets m)\<rparr> else m);
          m = m\<lparr>mh_duration_us_sum := mh_duration_us_sum m + us\<rparr> in
      case class_index status of
        None \<Rightarrow> m
      | Some idx \<Rightarrow>
          (let h = mh_duration_by_class m ! idx;
               h = (if bucket < length LATENCY_BUCKETS_S
                    then h\<lparr>ch_buckets := bump bucket (ch_buckets h)\<rparr> else h);
               h = h\<lparr>ch_sum_us := ch_sum_us h + us\<rparr> in
           m\<lparr>mh_duration_by_class := (mh_duration_by_class m)[idx := h]\<rparr>))"

definition observe_no_route :: "metrics_handle \<Rightarrow> metrics_handle" where
  "observe_no_route m = m\<lparr>mh_requests_no_route := mh_requests_no_route m + 1\<rparr>"

definition observe_upstream_unknown :: "metrics_handle \<Rightarrow> metrics_handle" where
  "observe_upstream_unknown m =
     m\<lparr>mh_requests_upstream_unknown := mh_requests_upstream_unknown m + 1\<rparr>"

definition observe_upstream_failed :: "metrics_handle \<Rightarrow> metrics_handle" where
  "observe_upstream_failed m =
     m\<lparr>mh_requests_upstream_failed := mh_requests_upstream_failed m + 1\<rparr>"

definition observe_status :: "u16 \<Rightarrow> metrics_handle \<Rightarrow> metrics_handle" where
  "observe_status status m =
     (case class_index status of
        None \<Rightarrow> m
      | Some idx \<Rightarrow>
          if idx = 0 then m\<lparr>mh_responses_2xx := mh_responses_2xx m + 1\<rparr>
          else if idx = 1 then m\<lparr>mh_responses_3xx := mh_responses_3xx m + 1\<rparr>
          else if idx = 2 then m\<lparr>mh_responses_4xx := mh_responses_4xx m + 1\<rparr>
          else m\<lparr>mh_responses_5xx := mh_responses_5xx m + 1\<rparr>)"

subsection \<open>Exposition\<close>

text \<open>A line of the text format: a comment, or a sample with its labels and value.\<close>

datatype expo_line =
    Comment string
  | Sample string "(string \<times> string) list" string

definition show_u64 :: "u64 \<Rightarrow> string" where
  "show_u64 w = show_nat (unat w)"

definition class_responses :: "metrics_handle \<Rightarrow> nat \<Rightarrow> u64" where
  "class_responses m idx =
     (if idx = 0 then mh_responses_2xx m
      else if idx = 1 then mh_responses_3xx m
      else if idx = 2 then mh_responses_4xx m
      else mh_responses_5xx m)"

text \<open>The running sums over the buckets.\<close>

fun cumulative :: "u64 \<Rightarrow> u64 list \<Rightarrow> u64 list" where
  "cumulative acc [] = []"
| "cumulative acc (x # xs) = (let acc = saturating_add acc x in acc # cumulative acc xs)"

definition counter_lines :: "metrics_handle \<Rightarrow> expo_line list" where
  "counter_lines m =
     [Comment ''HELP conduit_requests_total Total requests observed by the data plane.'',
      Comment ''TYPE conduit_requests_total counter'',
      Sample ''conduit_requests_total'' [] (show_u64 (mh_requests_total m)),
      Comment ''HELP conduit_requests_no_route_total Requests that did not match any route.'',
      Comment ''TYPE conduit_requests_no_route_total counter'',
      Sample ''conduit_requests_no_route_total'' [] (show_u64 (mh_requests_no_route m)),
      Comment ''HELP conduit_requests_upstream_unknown_total Routes referencing an unregistered upstream.'',
      Comment ''TYPE conduit_requests_upstream_unknown_total counter'',
      Sample ''conduit_requests_upstream_unknown_total'' [] (show_u64 (mh_requests_upstream_unknown m)),
      Comment ''HELP conduit_requests_upstream_failed_total Upstream forward failures.'',
      Comment ''TYPE conduit_requests_upstream_failed_total counter'',
      Sample ''conduit_requests_upstream_failed_total'' [] (show_u64 (mh_requests_upstream_failed m)),
      Comment ''HELP conduit_responses_total Responses by status class.'',
      Comment ''TYPE conduit_responses_total counter'',
      Sample ''conduit_responses_total'' [(''class'', ''2xx'')] (show_u64 (mh_responses_2xx m)),
      Sample ''conduit_responses_total'' [(''class'', ''3xx'')] (show_u64 (mh_responses_3xx m)),
      Sample ''conduit_responses_total'' [(''class'', ''4xx'')] (show_u64 (mh_responses_4xx m)),
      Sample ''conduit_responses_total'' [(''class'', ''5xx'')] (show_u64 (mh_responses_5xx m))]"

definition histogram_lines ::
  "(rat \<Rightarrow> string) \<Rightarrow> string \<Rightarrow> (string \<times> string) list \<Rightarrow> u64 list \<Rightarrow> u64 \<Rightarrow> u64 \<Rightarrow> expo_line list" where
  "histogram_lines show_f64 name labels buckets count micros =
     map (\<lambda>(le, c). Sample (name @ ''_bucket'') (labels @ [(''le'', le)]) (show_u64 c))
         (zip le_labels (cumulative 0 buckets))
     @ [Sample (name @ ''_bucket'') (labels @ [(''le'', ''+Inf'')]) (show_u64 count),
        Sample (name @ ''_count'') labels (show_u64 count),
        Sample (name @ ''_sum'') labels (show_f64 (of_nat (unat micros) / 1000000))]"

definition render_lines :: "(rat \<Rightarrow> string) \<Rightarrow> metrics_handle \<Rightarrow> expo_line list" where
  "render_lines show_f64 m =
     counter_lines m
     @ [Comment ''HELP conduit_request_duration_seconds Wall-clock latency of proxied requests.'',
        Comment ''TYPE conduit_request_duration_seconds histogram'']
     @ histogram_lines show_f64 ''conduit_request_duration_seconds'' [] (mh_duration_buckets m)
         (mh_requests_total m) (mh_duration_us_sum m)
     @ [Comment ''HELP conduit_request_duration_seconds_by_class Latency split by status class.'',
        Comment ''TYPE conduit_request_duration_seconds_by_class histogram'']
     @ concat (map (\<lambda>(idx, class).
           let h = mh_duration_by_class m ! idx in
           histogram_lines show_f64 ''conduit_request_duration_seconds_by_class'' [(''class'', class)]
             (ch_buckets h) (class_responses m idx) (ch_sum_us h))
         (enumerate 0 CLASS_LABELS))"

definition quote_char :: char where
  "quote_char = CHR 0x22"

definition newline :: char where
  "newline = CHR 0x0A"

fun show_line :: "expo_line \<Rightarrow> string" where
  "show_line (Comment c) = ''# '' @ c @ [newline]"
| "show_line (Sample name labels v) =
     name
     @ (if labels = [] then []
        else ''{'' @ join_str '','' (map (\<lambda>(k, l). k @ ''='' @ [quote_char] @ l @ [quote_char]) labels) @ ''}'')
     @ '' '' @ v @ [newline]"

definition render :: "(rat \<Rightarrow> string) \<Rightarrow> metrics_handle \<Rightarrow> string" where
  "render show_f64 m = concat (map show_line (render_lines show_f64 m))"

section \<open>Reference: a history of observations\<close>

datatype observation =
    Started
  | Took duration u16
  | Answered u16
  | RouteMissing
  | UpstreamUnknown
  | UpstreamFailed

fun record_observation :: "metrics_handle \<Rightarrow> observation \<Rightarrow> metrics_handle" where
  "record_observation m Started = observe_request_start m"
| "record_observation m (Took d s) = observe_request_duration d s m"
| "record_observation m (Answered s) = observe_status s m"
| "record_observation m RouteMissing = observe_no_route m"
| "record_observation m UpstreamUnknown = observe_upstream_unknown m"
| "record_observation m UpstreamFailed = observe_upstream_failed m"

definition count_if :: "('a \<Rightarrow> bool) \<Rightarrow> 'a list \<Rightarrow> nat" where
  "count_if P xs = length (filter P xs)"

fun took_within :: "rat \<Rightarrow> observation \<Rightarrow> bool" where
  "took_within le (Took d s) = (as_secs d \<le> le)"
| "took_within le _ = False"

fun in_bucket :: "nat \<Rightarrow> observation \<Rightarrow> bool" where
  "in_bucket i (Took d s) = (bucket_index (as_secs d) = i)"
| "in_bucket i _ = False"

fun of_class :: "nat \<Rightarrow> observation \<Rightarrow> bool" where
  "of_class c (Took d s) = (class_index s = Some c)"
| "of_class c _ = False"

fun answered_class :: "nat \<Rightarrow> observation \<Rightarrow> bool" where
  "answered_class c (Answered s) = (class_index s = Some c)"
| "answered_class c _ = False"

section \<open>Lemmas\<close>

lemma count_if_simps [simp]:
  "count_if P [] = 0"
  "count_if P (xs @ [x]) = count_if P xs + (if P x then 1 else 0)"
  by (simp_all add: count_if_def)

lemma bucket_scan_le:
  "sorted_wrt (<) les \<Longrightarrow> i < length les \<Longrightarrow> bucket_scan k les secs \<le> k + i \<longleftrightarrow> secs \<le> les ! i"
proof (induction les arbitrary: k i)
  case (Cons le les)
  have ge: "k' \<le> bucket_scan k' xs secs" for k' xs
  proof (induction xs arbitrary: k')
    case (Cons x xs)
    have "k' \<le> bucket_scan (k' + 1) xs secs" using Cons.IH [of "k' + 1"] by simp
    then show ?case by simp
  qed simp
  show ?case
  proof (cases i)
    case 0
    then show ?thesis using ge [of "k + 1" les] by auto
  next
    case (Suc j)
    with Cons.prems have j: "j < length les" "sorted_wrt (<) les" "le < les ! j" by auto
    from Suc Cons.IH [OF j(2,1), of "k + 1"] j(3) show ?thesis by auto
  qed
qed simp

lemma buckets_sorted: "sorted_wrt (<) LATENCY_BUCKETS_S" "length LATENCY_BUCKETS_S = 12"
  by (simp_all add: LATENCY_BUCKETS_S_def)

lemma bucket_index_le: "i < 12 \<Longrightarrow> bucket_index secs \<le> i \<longleftrightarrow> secs \<le> LATENCY_BUCKETS_S ! i"
  using bucket_scan_le [OF buckets_sorted(1), of i 0 secs] by (simp add: bucket_index_def buckets_sorted)

lemma class_index_less: "class_index s = Some c \<Longrightarrow> c < 4"
  by (auto simp: class_index_def Let_def split: if_splits)


lemma bump_nth: "i < length xs \<Longrightarrow> bump j xs ! i = xs ! i + (if i = j then 1 else 0)"
  by (simp add: bump_def nth_list_update)

lemma length_bump [simp]: "length (bump j xs) = length xs"
  by (simp add: bump_def)

lemma of_nat_count [simp]:
  "of_nat (count_if P (xs @ [x])) = (of_nat (count_if P xs) + (if P x then 1 else 0) :: u64)"
  by simp

text \<open>Every counter is the number of observations it stands for, modulo \<open>2 ^ 64\<close>.\<close>

definition counts_ok :: "observation list \<Rightarrow> metrics_handle \<Rightarrow> bool" where
  "counts_ok es m \<longleftrightarrow>
     length (mh_duration_buckets m) = 12 \<and> length (mh_duration_by_class m) = 4
     \<and> (\<forall>i<12. mh_duration_buckets m ! i = of_nat (count_if (in_bucket i) es))
     \<and> (\<forall>c<4. length (ch_buckets (mh_duration_by_class m ! c)) = 12
          \<and> (\<forall>i<12. ch_buckets (mh_duration_by_class m ! c) ! i
                      = of_nat (count_if (\<lambda>e. in_bucket i e \<and> of_class c e) es)))
     \<and> mh_requests_total m = of_nat (count_if (\<lambda>e. e = Started) es)
     \<and> (\<forall>c<4. class_responses m c = of_nat (count_if (answered_class c) es))"

lemma counts_ok_duration:
  assumes "counts_ok es m"
  shows "counts_ok (es @ [Took d s]) (observe_request_duration d s m)"
proof -
  let ?b = "bucket_index (as_secs d)"
  let ?m = "observe_request_duration d s m"
  have buckets: "mh_duration_buckets ?m = (if ?b < 12 then bump ?b (mh_duration_buckets m) else mh_duration_buckets m)"
    by (auto simp: observe_request_duration_def Let_def buckets_sorted split: option.split)
  have same: "mh_requests_total ?m = mh_requests_total m" "class_responses ?m = class_responses m"
    by (auto simp: observe_request_duration_def class_responses_def Let_def fun_eq_iff split: option.split)
  have cls: "mh_duration_by_class ?m ! c =
      (if class_index s = Some c
       then (let h = mh_duration_by_class m ! c in
             h\<lparr>ch_buckets := (if ?b < 12 then bump ?b (ch_buckets h) else ch_buckets h),
               ch_sum_us := ch_sum_us h + u64_or_max (as_micros d)\<rparr>)
       else mh_duration_by_class m ! c)"
    and len: "length (mh_duration_by_class ?m) = 4" if "c < 4" for c
    using assms that
    by (auto simp: observe_request_duration_def Let_def buckets_sorted counts_ok_def nth_list_update
        dest: class_index_less split: option.split)
  have len4: "length (mh_duration_by_class ?m) = 4" using len [of 0] by simp
  have "mh_duration_buckets ?m ! i = of_nat (count_if (in_bucket i) (es @ [Took d s]))" if "i < 12" for i
    unfolding buckets using assms that by (auto simp: counts_ok_def bump_nth)
  moreover have "length (ch_buckets (mh_duration_by_class ?m ! c)) = 12
      \<and> (\<forall>i<12. ch_buckets (mh_duration_by_class ?m ! c) ! i
           = of_nat (count_if (\<lambda>e. in_bucket i e \<and> of_class c e) (es @ [Took d s])))" if "c < 4" for c
    unfolding cls [OF that] using assms that by (auto simp: counts_ok_def bump_nth Let_def)
  ultimately show ?thesis
    using assms len4 same buckets by (auto simp: counts_ok_def)
qed

lemma class_responses_other:
  "class_responses (observe_request_start m) = class_responses m"
  "class_responses (observe_no_route m) = class_responses m"
  "class_responses (observe_upstream_unknown m) = class_responses m"
  "class_responses (observe_upstream_failed m) = class_responses m"
  by (simp_all add: class_responses_def fun_eq_iff observe_request_start_def observe_no_route_def
      observe_upstream_unknown_def observe_upstream_failed_def)

lemma counts_ok_record: "counts_ok es m \<Longrightarrow> counts_ok (es @ [e]) (record_observation m e)"
proof (cases e)
  case (Answered s)
  assume ok: "counts_ok es m"
  have "class_responses (observe_status s m) c =
      class_responses m c + (if class_index s = Some c then 1 else 0)" if "c < 4" for c
    using that by (auto simp: observe_status_def class_responses_def split: option.split
        dest: class_index_less)
  moreover have "mh_duration_buckets (observe_status s m) = mh_duration_buckets m"
    "mh_duration_by_class (observe_status s m) = mh_duration_by_class m"
    "mh_requests_total (observe_status s m) = mh_requests_total m"
    by (auto simp: observe_status_def split: option.split)
  ultimately show ?thesis using ok Answered by (auto simp: counts_ok_def)
next
  case (Took d s)
  assume "counts_ok es m"
  with Took show ?thesis by (simp add: counts_ok_duration)
qed (simp_all add: counts_ok_def class_responses_other,
    simp_all add: observe_request_start_def observe_no_route_def observe_upstream_unknown_def
      observe_upstream_failed_def)

lemma counts_ok_history: "counts_ok es (foldl record_observation metrics_new es)"
proof (induction es rule: rev_induct)
  case Nil
  show ?case
    by (simp add: counts_ok_def metrics_new_def class_responses_def buckets_sorted)
next
  case (snoc e es)
  then show ?case by (simp add: counts_ok_record)
qed

lemma cumulative_length [simp]: "length (cumulative acc xs) = length xs"
  by (induction xs arbitrary: acc) (simp_all add: Let_def)

lemma cumulative_nth:
  "i < length xs \<Longrightarrow> unat (cumulative acc xs ! i) = min (unat acc + sum_list (map unat (take (Suc i) xs))) (2 ^ 64 - 1)"
proof (induction xs arbitrary: acc i)
  case (Cons x xs)
  show ?case
  proof (cases i)
    case 0
    then show ?thesis by (simp add: Let_def unat_saturating_add)
  next
    case (Suc j)
    with Cons.IH [of j "saturating_add acc x"] Cons.prems show ?thesis
      by (simp add: Let_def unat_saturating_add min_def)
  qed
qed simp

lemma count_if_sum:
  "(\<Sum>j<n. count_if (\<lambda>e. P e \<and> in_bucket j e) es) =
     count_if (\<lambda>e. P e \<and> (\<exists>j<n. in_bucket j e)) es"
proof (induction n)
  case (Suc n)
  have "count_if (\<lambda>e. P e \<and> (\<exists>j<Suc n. in_bucket j e)) es =
      count_if (\<lambda>e. P e \<and> (\<exists>j<n. in_bucket j e)) es + count_if (\<lambda>e. P e \<and> in_bucket n e) es"
  proof (induction es rule: rev_induct)
    case (snoc e es)
    have "\<not> ((\<exists>j<n. in_bucket j e) \<and> in_bucket n e)" by (cases e) auto
    with snoc show ?case by (auto simp: less_Suc_eq)
  qed simp
  with Suc show ?case by simp
qed (simp add: count_if_def)

lemma in_bucket_within:
  "i < 12 \<Longrightarrow> (\<exists>j<Suc i. in_bucket j e) \<longleftrightarrow> took_within (LATENCY_BUCKETS_S ! i) e"
  using bucket_index_le [of i] by (cases e) (auto simp: less_Suc_eq_le)

text \<open>The cumulative count of a bucket is the number of observations within its bound.\<close>

lemma cumulative_counts:
  assumes "length es < 2 ^ 64" and "i < 12" and "length xs = 12"
    and "\<And>j. j < 12 \<Longrightarrow> xs ! j = of_nat (count_if (\<lambda>e. P e \<and> in_bucket j e) es)"
  shows "unat (cumulative 0 xs ! i) = count_if (\<lambda>e. P e \<and> took_within (LATENCY_BUCKETS_S ! i) e) es"
proof -
  have small: "count_if Q es < 2 ^ 64" for Q
    unfolding count_if_def by (rule le_less_trans [OF length_filter_le assms(1)])
  have elem: "unat (xs ! j) = count_if (\<lambda>e. P e \<and> in_bucket j e) es" if "j < 12" for j
    using assms(4) [OF that] small by (simp add: unat_of_nat take_bit_nat_eq_self)
  have "sum_list (map unat (take (Suc i) xs)) = (\<Sum>j<Suc i. unat (xs ! j))"
    using assms(2,3) by (simp add: sum_list_sum_nth atLeast0LessThan)
  also have "\<dots> = (\<Sum>j<Suc i. count_if (\<lambda>e. P e \<and> in_bucket j e) es)"
    using assms(2) elem by (intro sum.cong) auto
  also have "\<dots> = count_if (\<lambda>e. P e \<and> took_within (LATENCY_BUCKETS_S ! i) e) es"
    unfolding count_if_sum in_bucket_within [OF assms(2)] ..
  finally have "unat (cumulative 0 xs ! i) =
      min (count_if (\<lambda>e. P e \<and> took_within (LATENCY_BUCKETS_S ! i) e) es) (2 ^ 64 - 1)"
    using cumulative_nth [of i xs 0] assms(2,3) by simp
  then show ?thesis using small [of "\<lambda>e. P e \<and> took_within (LATENCY_BUCKETS_S ! i) e"] by simp
qed

lemma count_if_mono: "(\<And>x. P x \<Longrightarrow> Q x) \<Longrightarrow> count_if P xs \<le> count_if Q xs"
  by (induction xs) (auto simp: count_if_def)


section \<open>Properties\<close>

text \<open>
  C26. The exposed histograms count what they say: after any history of fewer than \<open>2 ^ 64\<close>
  observations, the cumulative count rendered for a bucket is the number of request durations
  within its bound, globally and for each status class, although every observation bumped a
  single bucket.
\<close>

theorem histogram_counts:
  assumes "length es < 2 ^ 64" and "i < 12" and "c < 4"
  defines "m \<equiv> foldl record_observation metrics_new es"
  shows "unat (cumulative 0 (mh_duration_buckets m) ! i) = count_if (took_within (LATENCY_BUCKETS_S ! i)) es
    \<and> unat (cumulative 0 (ch_buckets (mh_duration_by_class m ! c)) ! i) =
      count_if (\<lambda>e. of_class c e \<and> took_within (LATENCY_BUCKETS_S ! i) e) es"
proof
  have ok: "counts_ok es m" unfolding m_def by (rule counts_ok_history)
  then show "unat (cumulative 0 (mh_duration_buckets m) ! i) = count_if (took_within (LATENCY_BUCKETS_S ! i)) es"
    using cumulative_counts [OF assms(1,2), of "mh_duration_buckets m" "\<lambda>_. True"]
    by (simp add: counts_ok_def)
  show "unat (cumulative 0 (ch_buckets (mh_duration_by_class m ! c)) ! i) =
      count_if (\<lambda>e. of_class c e \<and> took_within (LATENCY_BUCKETS_S ! i) e) es"
    using cumulative_counts [OF assms(1,2), of "ch_buckets (mh_duration_by_class m ! c)" "of_class c"]
      ok assms(3) by (simp add: counts_ok_def conj_commute)
qed

lemma histogram_counts_witness:
  "unat (cumulative 0 (mh_duration_buckets (foldl record_observation metrics_new
      [Started, Took 5000000 200, Took 6000000 404])) ! 1) = 1"
  using histogram_counts [of "[Started, Took 5000000 200, Took 6000000 404]" 1 0]
  by (simp add: count_if_def as_secs_def LATENCY_BUCKETS_S_def del: foldl.simps cumulative.simps)

text \<open>
  A rendered histogram is well formed when every recorded duration belongs to a started
  request: the cumulative counts never decrease from one bucket to the next, and none exceeds
  the \<open>+Inf\<close> count, which is the number of requests started.
\<close>

theorem histogram_well_formed:
  assumes "length es < 2 ^ 64"
    and "count_if (\<lambda>e. \<exists>d s. e = Took d s) es \<le> count_if (\<lambda>e. e = Started) es"
    and "i < j" and "j < 12"
  defines "m \<equiv> foldl record_observation metrics_new es"
  shows "cumulative 0 (mh_duration_buckets m) ! i \<le> cumulative 0 (mh_duration_buckets m) ! j
    \<and> cumulative 0 (mh_duration_buckets m) ! j \<le> mh_requests_total m"
proof -
  have ok: "counts_ok es m" unfolding m_def by (rule counts_ok_history)
  have within: "unat (cumulative 0 (mh_duration_buckets m) ! k) =
      count_if (took_within (LATENCY_BUCKETS_S ! k)) es" if "k < 12" for k
    using cumulative_counts [OF assms(1) that, of "mh_duration_buckets m" "\<lambda>_. True"] ok
    by (simp add: counts_ok_def)
  have "LATENCY_BUCKETS_S ! i < LATENCY_BUCKETS_S ! j"
    using buckets_sorted assms(3,4) by (simp add: sorted_wrt_iff_nth_less)
  then have "took_within (LATENCY_BUCKETS_S ! i) e \<Longrightarrow> took_within (LATENCY_BUCKETS_S ! j) e" for e
    by (cases e) auto
  then have "count_if (took_within (LATENCY_BUCKETS_S ! i)) es \<le> count_if (took_within (LATENCY_BUCKETS_S ! j)) es"
    by (rule count_if_mono)
  then have "cumulative 0 (mh_duration_buckets m) ! i \<le> cumulative 0 (mh_duration_buckets m) ! j"
    unfolding word_le_nat_alt using within [of i] within [of j] assms(3,4) by simp
  moreover have "unat (mh_requests_total m) = count_if (\<lambda>e. e = Started) es"
  proof -
    have "count_if (\<lambda>e. e = Started) es < 2 ^ 64"
      unfolding count_if_def by (rule le_less_trans [OF length_filter_le assms(1)])
    with ok show ?thesis by (simp add: counts_ok_def unat_of_nat take_bit_nat_eq_self)
  qed
  moreover have "took_within le e \<Longrightarrow> \<exists>d s. e = Took d s" for le e by (cases e) auto
  then have "count_if (took_within (LATENCY_BUCKETS_S ! j)) es \<le> count_if (\<lambda>e. e = Started) es"
    using assms(2) count_if_mono [of "took_within (LATENCY_BUCKETS_S ! j)" "\<lambda>e. \<exists>d s. e = Took d s" es]
    by simp
  ultimately show ?thesis using within [OF assms(4)] by (simp add: word_le_nat_alt)
qed

lemma histogram_well_formed_witness:
  "cumulative 0 (mh_duration_buckets (foldl record_observation metrics_new [Started, Took 5000000 200])) ! 0
   \<le> cumulative 0 (mh_duration_buckets (foldl record_observation metrics_new [Started, Took 5000000 200])) ! 1"
  using histogram_well_formed [of "[Started, Took 5000000 200]" 0 1]
  by (simp add: count_if_def del: foldl.simps cumulative.simps)

text \<open>
  Between the two updates a finished request makes, a scrape sees an inconsistent class
  histogram: once the duration is recorded and before the status is, the 2xx bucket for one
  millisecond exceeds the \<open>+Inf\<close> count of its class.
\<close>

theorem class_histogram_race:
  "let m = foldl record_observation metrics_new [Started, Took 1000000 200] in
   cumulative 0 (ch_buckets (mh_duration_by_class m ! 0)) ! 0 = 1 \<and> class_responses m 0 = 0"
proof -
  let ?es = "[Started, Took 1000000 200]"
  let ?m = "foldl record_observation metrics_new ?es"
  have ok: "counts_ok ?es ?m" by (rule counts_ok_history)
  have "class_index 200 = Some 0" by (simp add: class_index_def Let_def unat_div)
  then have "count_if (\<lambda>e. of_class 0 e \<and> took_within (LATENCY_BUCKETS_S ! 0) e) ?es = 1"
    by (simp add: count_if_def as_secs_def LATENCY_BUCKETS_S_def)
  then have "unat (cumulative 0 (ch_buckets (mh_duration_by_class ?m ! 0)) ! 0) = 1"
    using cumulative_counts [of ?es 0 "ch_buckets (mh_duration_by_class ?m ! 0)" "of_class 0"] ok
    by (simp add: counts_ok_def conj_commute del: foldl.simps cumulative.simps)
  moreover have "class_responses ?m 0 = 0"
    using ok by (simp add: counts_ok_def count_if_def del: foldl.simps)
  ultimately show ?thesis by (simp add: Let_def word_unat_eq_iff del: foldl.simps cumulative.simps)
qed

end
