(* ===== verification/Conduit_Proxy.thy ===== *)
theory Conduit_Proxy
  imports Conduit_Dispatch Conduit_Metrics
begin

text \<open>
  \<^verbatim>\<open>conduit/src/main.rs\<close>, lines 198 to 373: one proxied request, from the dispatcher's result to
  the response and the counters, and the body enum of the responses. \<open>elapsed\<close> is the time
  the dispatcher took.
\<close>

section \<open>Model\<close>

datatype ('s, 'hm) proxy_body =
    UpstreamBody "'s timed_body"
  | Synthetic "'hm vec_body"

definition error_response ::
  "('re, 'hm) crates \<Rightarrow> status \<Rightarrow> string \<Rightarrow> ('hm, ('s, 'hm) proxy_body) response" where
  "error_response X status body =
     \<lparr>rs_status = status, rs_headers = header_map_of X [(''content-type'', ''text/plain'')],
      rs_body = Synthetic (vec_from_bytes body)\<rparr>"

definition status_for_metrics :: "dispatch_error + ('hm, 'b) response \<Rightarrow> u16" where
  "status_for_metrics result =
     (case result of
        Inr resp \<Rightarrow> rs_status resp
      | Inl NoRoute \<Rightarrow> 404
      | Inl (UpstreamError e) \<Rightarrow> if e = BreakerOpen then 503 else 502
      | Inl (Timeout _) \<Rightarrow> 504
      | Inl _ \<Rightarrow> 500)"

definition nl :: string where
  "nl = [newline]"

definition respond ::
  "('re, 'hm) crates \<Rightarrow> metrics_handle \<Rightarrow> dispatch_error + ('hm, 's timed_body) response
   \<Rightarrow> metrics_handle \<times> ('hm, ('s, 'hm) proxy_body) response" where
  "respond X m result =
     (case result of
        Inr resp \<Rightarrow>
          (observe_status (rs_status resp) m,
           \<lparr>rs_status = rs_status resp, rs_headers = rs_headers resp,
            rs_body = UpstreamBody (rs_body resp)\<rparr>)
      | Inl NoRoute \<Rightarrow>
          (observe_status 404 (observe_no_route m),
           error_response X 404 (''conduit: no route matched'' @ nl))
      | Inl (UpstreamNotRegistered name) \<Rightarrow>
          (observe_status 500 (observe_upstream_unknown m),
           error_response X 500 (''conduit: route references unknown upstream'' @ nl))
      | Inl (UpstreamError e) \<Rightarrow>
          (let m = observe_upstream_failed m;
               (status, body) = (if e = BreakerOpen
                                 then (503, ''conduit: upstream breaker open'' @ nl)
                                 else (502, ''conduit: upstream unavailable'' @ nl)) in
           (observe_status status m, error_response X status body))
      | Inl (Timeout total_t) \<Rightarrow>
          (observe_status 504 (observe_upstream_failed m),
           error_response X 504 (''conduit: upstream timed out'' @ nl)))"

definition proxy_one ::
  "('re, 'hm) crates \<Rightarrow> ('hm, 's) env \<Rightarrow> duration \<Rightarrow> ('re, 'cl) dispatch \<Rightarrow> metrics_handle
   \<Rightarrow> 'hm request
   \<Rightarrow> (('re, 'cl) dispatch \<times> metrics_handle \<times> ('hm, ('s, 'hm) proxy_body) response) option" where
  "proxy_one X ev elapsed d m req =
     (let m = observe_request_start m in
      case handle X ev d req of
        None \<Rightarrow> None
      | Some (d', result, sent) \<Rightarrow>
          (let m = observe_request_duration elapsed (status_for_metrics result) m;
               (m', resp) = respond X m result in
           Some (d', m', resp)))"

definition proxy_poll_frame ::
  "(instant \<Rightarrow> instant \<Rightarrow> bool) \<Rightarrow> (instant \<Rightarrow> 's \<Rightarrow> 's \<times> ('hm, 'e) polled)
   \<Rightarrow> instant \<Rightarrow> ('s, 'hm) proxy_body \<Rightarrow> ('s, 'hm) proxy_body \<times> ('hm, 'e timed_error) polled" where
  "proxy_poll_frame fired poll now b =
     (case b of
        UpstreamBody inner \<Rightarrow>
          (case timed_poll_frame fired poll now inner of (inner', r) \<Rightarrow> (UpstreamBody inner', r))
      | Synthetic inner \<Rightarrow>
          (case vec_poll_frame now inner of (inner', r) \<Rightarrow> (Synthetic inner', r)))"

definition proxy_is_end_stream :: "('s \<Rightarrow> bool) \<Rightarrow> ('s, 'hm) proxy_body \<Rightarrow> bool" where
  "proxy_is_end_stream end_stream b =
     (case b of
        UpstreamBody inner \<Rightarrow> timed_is_end_stream end_stream inner
      | Synthetic inner \<Rightarrow> vec_is_end_stream inner)"

definition proxy_size_hint :: "('s \<Rightarrow> nat option) \<Rightarrow> ('s, 'hm) proxy_body \<Rightarrow> nat option" where
  "proxy_size_hint size_hint b =
     (case b of
        UpstreamBody inner \<Rightarrow> timed_size_hint size_hint inner
      | Synthetic inner \<Rightarrow> vec_size_hint inner)"

section \<open>The response body keeps the body contract\<close>

locale proxied_body = timed_inner
begin

sublocale proxied: body_stream "proxy_poll_frame fired poll_frame"
  "proxy_is_end_stream end_stream" "proxy_size_hint size_exact" for fired
proof
  fix s s' n t r
  show "proxy_is_end_stream end_stream s \<Longrightarrow> snd (proxy_poll_frame fired poll_frame t s) = Ready None"
    using timed.end_stream_ready [of _ fired t] vec.end_stream_ready [of _ t]
    by (cases s) (simp_all add: proxy_is_end_stream_def proxy_poll_frame_def case_prod_beta)
  show "proxy_size_hint size_exact s = Some n \<Longrightarrow>
      snd (proxy_poll_frame fired poll_frame t s) = Ready None \<Longrightarrow> n = 0"
    using timed.size_exact_end [of _ n fired t] vec.size_exact_end [of _ n t]
    by (cases s) (auto simp: proxy_size_hint_def proxy_poll_frame_def case_prod_beta)
  show "proxy_size_hint size_exact s = Some n \<Longrightarrow>
      proxy_poll_frame fired poll_frame t s = (s', r) \<Longrightarrow>
      length (frame_data r) \<le> n \<and> proxy_size_hint size_exact s' = Some (n - length (frame_data r))"
    by (cases s) (auto simp: proxy_size_hint_def proxy_poll_frame_def split: prod.splits
        dest: timed.size_exact_poll vec.size_exact_poll)
qed

end

interpretation vec_proxied: proxied_body vec_poll_frame vec_is_end_stream vec_size_hint
  by unfold_locales

section \<open>Reference: what a request adds to the history\<close>

definition outcome_observations :: "dispatch_error + ('hm, 'b) response \<Rightarrow> observation list" where
  "outcome_observations result =
     (case result of
        Inl NoRoute \<Rightarrow> [RouteMissing]
      | Inl (UpstreamNotRegistered _) \<Rightarrow> [UpstreamUnknown]
      | Inl (UpstreamError _) \<Rightarrow> [UpstreamFailed]
      | Inl (Timeout _) \<Rightarrow> [UpstreamFailed]
      | Inr _ \<Rightarrow> [])"

definition request_observations ::
  "duration \<Rightarrow> dispatch_error + ('hm, 'b) response \<Rightarrow> observation list" where
  "request_observations elapsed result =
     [Started, Took elapsed (status_for_metrics result)] @ outcome_observations result
     @ [Answered (status_for_metrics result)]"

text \<open>The history of a sequence of completed requests, as elapsed times with results.\<close>

definition requests_history ::
  "(duration \<times> (dispatch_error + ('hm, 'b) response)) list \<Rightarrow> observation list" where
  "requests_history rs = concat (map (\<lambda>(d, r). request_observations d r) rs)"

section \<open>Lemmas\<close>

lemma respond_status: "rs_status (snd (respond X m result)) = status_for_metrics result"
  by (auto simp: respond_def status_for_metrics_def error_response_def Let_def
      split: sum.split dispatch_error.split)

lemma respond_metrics:
  "fst (respond X m result) =
     foldl record_observation m (outcome_observations result @ [Answered (status_for_metrics result)])"
  by (auto simp: respond_def status_for_metrics_def outcome_observations_def Let_def
      split: sum.split dispatch_error.split)

lemma proxy_one_result:
  assumes "handle X ev d req = Some (d', result, sent)"
  shows "\<exists>resp. proxy_one X ev elapsed d m req =
      Some (d', foldl record_observation m (request_observations elapsed result), resp)
    \<and> rs_status resp = status_for_metrics result"
proof -
  let ?m = "observe_request_duration elapsed (status_for_metrics result) (observe_request_start m)"
  have "foldl record_observation m (request_observations elapsed result) = fst (respond X ?m result)"
    by (simp add: respond_metrics request_observations_def)
  moreover obtain m' resp where "respond X ?m result = (m', resp)"
    by (cases "respond X ?m result")
  ultimately show ?thesis
    using assms respond_status [of X ?m result] by (simp add: proxy_one_def Let_def)
qed

lemma count_if_append: "count_if P (xs @ ys) = count_if P xs + count_if P ys"
  by (simp add: count_if_def)

lemma count_if_concat: "count_if P (concat xss) = sum_list (map (count_if P) xss)"
  by (induction xss) (simp_all add: count_if_append)

lemma count_request:
  "count_if (of_class c) (request_observations d r) = count_if (answered_class c) (request_observations d r)"
  "count_if (\<lambda>e. \<exists>d s. e = Took d s) (request_observations d r) =
     count_if (\<lambda>e. e = Started) (request_observations d r)"
  by (auto simp: count_if_def request_observations_def outcome_observations_def
      split: sum.split dispatch_error.split)

section \<open>Properties\<close>

text \<open>
  C25. Every proxied request gets exactly one well-formed response and exactly one entry in each
  family of counters. With a dispatcher built from a document, \<open>proxy_one\<close> always returns; the
  status sent is that of the upstream, 404 without a route, 503 when all breakers are open,
  502 for other upstream failures, 504 on the total timeout and 500 otherwise; and the counters
  advance by one start, one duration and one status, the last two in the class of the status
  sent.
\<close>

theorem proxy_one_accounts:
  assumes "dispatch_from_config X Y clk cfg = Some d" and "addrs_fit cfg"
  shows "\<exists>d' result sent resp. handle X ev d req = Some (d', result, sent)
    \<and> proxy_one X ev elapsed d m req =
        Some (d', foldl record_observation m (request_observations elapsed result), resp)
    \<and> rs_status resp = status_for_metrics result"
proof -
  obtain d' result sent where h: "handle X ev d req = Some (d', result, sent)"
  proof -
    let ?route = "table_find X (d_routes d)
      (Option.bind (header_get X (rq_headers req) HOST) (header_to_str X))
      (uri_path X (rq_uri req)) (rq_headers req)"
    show thesis
    proof (cases ?route)
      case None
      then show thesis by (intro that) (simp add: handle_def Let_def)
    next
      case (Some route)
      show thesis
      proof (cases "map_get (d_upstreams d) (r_upstream route)")
        case None
        with Some show thesis by (intro that) (simp add: handle_def Let_def)
      next
        case up: (Some u)
        then obtain u' r s where "forward_with_timeout X ev u req (r_total_timeout route)
            (r_read_timeout route) = Some (u', r, s)"
          using forward_with_timeout_total dispatch_upstream [OF assms up] by blast
        with Some up show thesis by (intro that) (simp add: handle_def Let_def)
      qed
    qed
  qed
  with proxy_one_result [OF h, of elapsed m] show ?thesis by blast
qed

lemma proxy_one_accounts_witness:
  "\<exists>d d' m' resp. dispatch_from_config sample_crates sample_tls_crates (\<lambda>_. 0) sample_config = Some d
     \<and> proxy_one sample_crates (sample_env True) 7 d metrics_new
         (sample_request [(''host'', ''localhost'')] ''/'') = Some (d', m', resp)"
  using sample_dispatch proxy_one_accounts [OF _ sample_config_fits] by blast

text \<open>
  Once the requests in flight have finished, the per-class histogram agrees with the
  per-class response counter: after any number of completed requests (fewer than \<open>2 ^ 64\<close>
  observations in all), no cumulative bucket of a class exceeds the class's response count,
  which is the \<open>+Inf\<close> bucket rendered for it.
\<close>

theorem quiescent_class_histograms:
  assumes "length (requests_history rs) < 2 ^ 64" and "c < 4" and "i < 12"
  defines "m \<equiv> foldl record_observation metrics_new (requests_history rs)"
  shows "cumulative 0 (ch_buckets (mh_duration_by_class m ! c)) ! i \<le> class_responses m c"
proof -
  let ?es = "requests_history rs"
  have ok: "counts_ok ?es m" unfolding m_def by (rule counts_ok_history)
  have "unat (cumulative 0 (ch_buckets (mh_duration_by_class m ! c)) ! i) =
      count_if (\<lambda>e. of_class c e \<and> took_within (LATENCY_BUCKETS_S ! i) e) ?es"
    using cumulative_counts [OF assms(1,3), of "ch_buckets (mh_duration_by_class m ! c)" "of_class c"]
      ok assms(2) by (simp add: counts_ok_def conj_commute)
  also have "\<dots> \<le> count_if (of_class c) ?es" by (rule count_if_mono) simp
  also have "\<dots> = count_if (answered_class c) ?es"
    unfolding requests_history_def count_if_concat map_map
    by (intro arg_cong [where f = sum_list] map_cong) (auto simp: count_request)
  also have "\<dots> = unat (class_responses m c)"
  proof -
    have "count_if (answered_class c) ?es < 2 ^ 64"
      unfolding count_if_def by (rule le_less_trans [OF length_filter_le assms(1)])
    with ok assms(2) show ?thesis by (simp add: counts_ok_def unat_of_nat take_bit_nat_eq_self)
  qed
  finally show ?thesis by (simp add: word_le_nat_alt)
qed

lemma quiescent_class_histograms_witness:
  "cumulative 0 (ch_buckets (mh_duration_by_class (foldl record_observation metrics_new
      (requests_history [(5, Inl NoRoute :: dispatch_error + (unit, unit) response)])) ! 2)) ! 0
   \<le> class_responses (foldl record_observation metrics_new
      (requests_history [(5, Inl NoRoute :: dispatch_error + (unit, unit) response)])) 2"
  by (rule quiescent_class_histograms)
    (simp_all add: requests_history_def request_observations_def outcome_observations_def)

text \<open>
  The body of a synthetic error response delivers exactly its text: reading it through the
  response's body type takes two polls, never fails or times out, and yields the message.
\<close>

theorem error_response_delivers:
  fixes X :: "('re, 'hm) crates" and poll :: "instant \<Rightarrow> 's \<Rightarrow> 's \<times> ('hm, 'e) polled"
  assumes "body \<noteq> []"
  shows "drain (proxy_poll_frame fired poll) (t0 # t1 # ts)
      (rs_body (error_response X status body)) [] = Some (Inr body)"
  using assms
  by (simp add: error_response_def proxy_poll_frame_def vec_from_bytes_def vec_poll_frame_def)

lemma error_response_delivers_witness:
  "drain (proxy_poll_frame (\<lambda>d n. True) (\<lambda>t s. (s, Pending :: ((string \<times> string) list, unit) polled)))
     (0 # 1 # []) (rs_body (error_response sample_crates 404 ''gone'') :: (unit, (string \<times> string) list) proxy_body) []
   = Some (Inr ''gone'')"
  by (rule error_response_delivers) simp

end
