(* ===== verification/Conduit_Admin.thy ===== *)
theory Conduit_Admin
  imports Conduit_Proxy "HOL-Library.List_Lexorder" "HOL-Library.Char_ord"
begin

text \<open>
  \<^verbatim>\<open>conduit-control/src/admin.rs\<close> and lines 1143 to 1183 of \<^verbatim>\<open>conduit/src/main.rs\<close>: the admin
  endpoints, the accept loop they are served from and the \<open>/upstreams\<close> page. The process start
  (a \<open>OnceLock\<close>) is an option that is passed through. \<open>HashMap\<close> iteration is an argument: a
  list that enumerates the bindings in some order. \<open>polled_loop\<close> is the shape of every accept
  loop that polls a cancel flag; it may run forever, which is the value \<open>None\<close>.
\<close>

section \<open>Model\<close>

subsection \<open>Accept loops that poll a flag\<close>

datatype 'c accept_result =
    Accepted 'c
  | AcceptFailed string
  | Elapsed

text \<open>
  Iteration \<open>i\<close> reads the flag (\<open>stop i\<close>) and, unless it is set, waits for a connection. The
  value is the connections handed to a task, in order.
\<close>

partial_function (option) polled_loop ::
  "(nat \<Rightarrow> bool) \<Rightarrow> (nat \<Rightarrow> 'c accept_result) \<Rightarrow> nat \<Rightarrow> 'c list option" where
  "polled_loop stop accept i =
     (if stop i then Some []
      else Option.bind (polled_loop stop accept (Suc i)) (\<lambda>conns.
        Some (case accept i of
                Accepted c \<Rightarrow> c # conns
              | AcceptFailed e \<Rightarrow> conns
              | Elapsed \<Rightarrow> conns)))"

subsection \<open>The endpoints\<close>

definition process_start :: "instant \<Rightarrow> instant option \<Rightarrow> instant \<times> instant option" where
  "process_start now once = (case once of None \<Rightarrow> (now, Some now) | Some t \<Rightarrow> (t, Some t))"

datatype admin_error = AdminBind socket_addr string

definition plain_text :: "('re, 'hm) crates \<Rightarrow> status \<Rightarrow> string \<Rightarrow> ('hm, string) response" where
  "plain_text X status body =
     \<lparr>rs_status = status,
      rs_headers = header_map_of X [(''content-type'', ''text/plain; charset=utf-8'')],
      rs_body = body\<rparr>"

definition plain_text_owned :: "('re, 'hm) crates \<Rightarrow> status \<Rightarrow> string \<Rightarrow> ('hm, string) response" where
  "plain_text_owned X status body =
     \<lparr>rs_status = status,
      rs_headers = header_map_of X [(''content-type'', ''text/plain; charset=utf-8'')],
      rs_body = body\<rparr>"

definition metrics_response ::
  "('re, 'hm) crates \<Rightarrow> (rat \<Rightarrow> string) \<Rightarrow> string \<Rightarrow> instant \<Rightarrow> instant \<Rightarrow> instant option
   \<Rightarrow> metrics_handle \<Rightarrow> instant option \<times> ('hm, string) response" where
  "metrics_response X show_f64 version now now' once m =
     (let (start, once) = process_start now once;
          uptime = as_secs (now' - start);
          body =
            ''# HELP conduit_uptime_seconds Time since the admin server bound, in seconds.'' @ nl
            @ ''# TYPE conduit_uptime_seconds gauge'' @ nl
            @ ''conduit_uptime_seconds '' @ show_f64 uptime @ nl
            @ ''# HELP conduit_build_info Build information; value is always 1.'' @ nl
            @ ''# TYPE conduit_build_info gauge'' @ nl
            @ ''conduit_build_info{version='' @ [quote_char] @ version @ [quote_char] @ ''} 1'' @ nl
            @ render show_f64 m in
      (once,
       \<lparr>rs_status = 200,
        rs_headers = header_map_of X [(''content-type'', ''text/plain; version=0.0.4; charset=utf-8'')],
        rs_body = body\<rparr>))"

text \<open>\<open>upstreams\<close> is the text the renderer produces, if one was supplied.\<close>

definition admin_handle ::
  "('re, 'hm) crates \<Rightarrow> (rat \<Rightarrow> string) \<Rightarrow> string \<Rightarrow> instant \<Rightarrow> instant \<Rightarrow> instant option
   \<Rightarrow> metrics_handle \<Rightarrow> string option \<Rightarrow> 'hm request
   \<Rightarrow> instant option \<times> ('hm, string) response" where
  "admin_handle X show_f64 version now now' once m upstreams req =
     (let meth = rq_method req; path = uri_path X (rq_uri req) in
      if meth = ''GET'' \<and> path = ''/health'' then (once, plain_text X 200 (''ok'' @ nl))
      else if meth = ''GET'' \<and> path = ''/ready'' then (once, plain_text X 200 (''ready'' @ nl))
      else if meth = ''GET'' \<and> path = ''/metrics''
      then metrics_response X show_f64 version now now' once m
      else if meth = ''GET'' \<and> path = ''/upstreams'' then
        (once, case upstreams of
                 Some r \<Rightarrow> plain_text_owned X 200 r
               | None \<Rightarrow> plain_text X 404 (''not found'' @ nl))
      else if meth = ''GET'' \<and> path = ''/'' then
        (once, plain_text X 200
           (''conduit admin'' @ nl @ ''endpoints: /health /ready /metrics /upstreams'' @ nl))
      else (once, plain_text X 404 (''not found'' @ nl)))"

definition serve_admin ::
  "(socket_addr \<Rightarrow> string + unit) \<Rightarrow> (nat \<Rightarrow> bool) \<Rightarrow> (nat \<Rightarrow> 'c accept_result) \<Rightarrow> socket_addr
   \<Rightarrow> instant \<Rightarrow> instant option \<Rightarrow> (instant option \<times> (admin_error + 'c list)) option" where
  "serve_admin tcp_bind stop accept addr now once =
     (let once = snd (process_start now once) in
      case tcp_bind addr of
        Inl e \<Rightarrow> Some (once, Inl (AdminBind addr e))
      | Inr _ \<Rightarrow> map_option (\<lambda>conns. (once, Inr conns)) (polled_loop stop accept 0))"

text \<open>
  The thread of \<open>spawn_admin_thread\<close>: \<open>None\<close> outside when it cannot be spawned; inside, the
  connections it handed out, \<open>None\<close> as long as it serves.
\<close>

definition admin_thread ::
  "string + unit \<Rightarrow> string + unit \<Rightarrow> (socket_addr \<Rightarrow> string + unit) \<Rightarrow> (nat \<Rightarrow> bool)
   \<Rightarrow> (nat \<Rightarrow> 'c accept_result) \<Rightarrow> socket_addr \<Rightarrow> instant \<Rightarrow> instant option \<Rightarrow> 'c list option option" where
  "admin_thread spawned runtime tcp_bind stop accept addr now once =
     (case spawned of
        Inl e \<Rightarrow> None
      | Inr _ \<Rightarrow>
          Some (case runtime of
                  Inl e \<Rightarrow> Some []
                | Inr _ \<Rightarrow>
                    map_option (\<lambda>(_, r). case r of Inl e \<Rightarrow> [] | Inr conns \<Rightarrow> conns)
                      (serve_admin tcp_bind stop accept addr now once)))"

subsection \<open>The upstreams page\<close>

fun render_addrs :: "nat \<Rightarrow> socket_addr list \<Rightarrow> string" where
  "render_addrs i [] = []"
| "render_addrs i (a # as) =
     (if i > 0 then '','' else []) @ [quote_char] @ addr_to_string a @ [quote_char]
     @ render_addrs (Suc i) as"

definition breaker_label :: "breaker_state \<Rightarrow> string" where
  "breaker_label s = (case s of Closed \<Rightarrow> ''closed'' | Open \<Rightarrow> ''open'' | HalfOpen \<Rightarrow> ''half_open'')"

definition render_entry :: "(nat \<Rightarrow> instant) \<Rightarrow> string \<times> 'cl upstream \<Rightarrow> string" where
  "render_entry clk e =
     ''upstream '' @ fst e @ '' addrs=['' @ render_addrs 0 (u_addrs (snd e)) @ ''] breaker=''
     @ breaker_label (breaker_state_of clk (snd e)) @ nl"

text \<open>The \<open>i\<close>-th entry written reads the clocks \<open>clk i\<close>.\<close>

definition render_upstreams ::
  "(nat \<Rightarrow> nat \<Rightarrow> instant) \<Rightarrow> (string \<times> 'cl upstream) list \<Rightarrow> string" where
  "render_upstreams clk iter =
     (let entries = sort_key fst iter;
          out = concat (map (\<lambda>(i, e). render_entry (clk i) e) (enumerate 0 entries)) in
      if out = [] then ''(no upstreams)'' @ nl else out)"

text \<open>A list that \<open>HashMap::iter\<close> may yield.\<close>

definition iterates :: "'cl upstream_map \<Rightarrow> (string \<times> 'cl upstream) list \<Rightarrow> bool" where
  "iterates m iter \<longleftrightarrow> distinct iter \<and> set iter = map_iter m"

section \<open>Lemmas\<close>

definition handed :: "'c accept_result \<Rightarrow> 'c list" where
  "handed r = (case r of Accepted c \<Rightarrow> [c] | _ \<Rightarrow> [])"

lemma polled_loop_step:
  "polled_loop stop accept i =
     (if stop i then Some []
      else map_option (\<lambda>conns. handed (accept i) @ conns) (polled_loop stop accept (Suc i)))"
  by (subst polled_loop.simps)
    (auto simp: handed_def map_conv_bind_option o_def split: accept_result.split
      intro!: arg_cong [where f = "Option.bind _"])

lemma polled_loop_stops:
  assumes "stop (i + n)" and "\<And>k. k < n \<Longrightarrow> \<not> stop (i + k)"
  shows "polled_loop stop accept i = Some (concat (map (\<lambda>k. handed (accept k)) [i..<i + n]))"
  using assms
proof (induction n arbitrary: i)
  case 0
  then show ?case by (subst polled_loop_step) simp
next
  case (Suc n)
  have "\<not> stop i" using Suc.prems(2) [of 0] by simp
  moreover have "polled_loop stop accept (Suc i) =
      Some (concat (map (\<lambda>k. handed (accept k)) [Suc i..<Suc i + n]))"
    using Suc.prems(1) Suc.prems(2) [of "Suc _"] by (intro Suc.IH) auto
  ultimately show ?case by (subst polled_loop_step) (simp add: upt_rec)
qed

lemma polled_loop_stopped:
  assumes "polled_loop stop accept i = Some conns"
  shows "\<exists>n. stop (i + n)"
  by (rule polled_loop.raw_induct [where P = "\<lambda>stop accept i conns. \<exists>n. stop (i + n)", OF _ assms])
    (auto split: if_splits bind_splits, metis add_0_right, metis add_Suc_shift)

text \<open>The loop returns exactly when some iteration sees the flag, with what came before it.\<close>

lemma polled_loop_iff:
  "polled_loop stop accept 0 = Some conns \<longleftrightarrow>
     (\<exists>n. stop n \<and> (\<forall>k<n. \<not> stop k) \<and> conns = concat (map (\<lambda>k. handed (accept k)) [0..<n]))"
proof
  assume loop: "polled_loop stop accept 0 = Some conns"
  define n where "n = (LEAST n. stop n)"
  have "\<exists>n. stop n" using polled_loop_stopped [OF loop] by simp
  then have "stop n" and "\<forall>k<n. \<not> stop k"
    unfolding n_def by (metis LeastI, metis not_less_Least)
  moreover from this have "conns = concat (map (\<lambda>k. handed (accept k)) [0..<n])"
    using polled_loop_stops [of stop 0 n accept] loop by simp
  ultimately show "\<exists>n. stop n \<and> (\<forall>k<n. \<not> stop k) \<and> conns = concat (map (\<lambda>k. handed (accept k)) [0..<n])"
    by blast
next
  assume "\<exists>n. stop n \<and> (\<forall>k<n. \<not> stop k) \<and> conns = concat (map (\<lambda>k. handed (accept k)) [0..<n])"
  then show "polled_loop stop accept 0 = Some conns"
    using polled_loop_stops [of stop 0 _ accept] by auto
qed

lemma iterates_distinct_names: "iterates m iter \<Longrightarrow> distinct (map fst iter)"
  by (auto simp: iterates_def map_iter_def distinct_map inj_on_def)

lemma sort_iterates:
  assumes "iterates m iter"
  shows "sorted_wrt (<) (map fst (sort_key fst iter)) \<and> set (sort_key fst iter) = map_iter m"
proof
  have "distinct (map fst (sort_key fst iter))"
    using iterates_distinct_names [OF assms] by (metis distinct_map distinct_sort set_sort)
  then show "sorted_wrt (<) (map fst (sort_key fst iter))" by (simp add: strict_sorted_iff)
  show "set (sort_key fst iter) = map_iter m" using assms by (simp add: iterates_def)
qed

lemma entries_unique:
  assumes "sorted_wrt (<) (map fst es)" "set es = map_iter m"
    and "sorted_wrt (<) (map fst es')" "set es' = map_iter m"
  shows "es = es'"
proof (rule map_sorted_distinct_set_unique [of fst])
  show "inj_on fst (set es \<union> set es')" using assms(2,4) by (auto simp: map_iter_def inj_on_def)
qed (use assms in \<open>auto simp: strict_sorted_iff\<close>)

text \<open>The page of a list of entries already in order.\<close>

definition page :: "(nat \<Rightarrow> nat \<Rightarrow> instant) \<Rightarrow> (string \<times> 'cl upstream) list \<Rightarrow> string" where
  "page clk es =
     (if es = [] then ''(no upstreams)'' @ nl
      else concat (map (\<lambda>(i, e). render_entry (clk i) e) (enumerate 0 es)))"

lemma render_entry_ne: "render_entry clk e \<noteq> []"
  by (simp add: render_entry_def)

lemma render_upstreams_page: "render_upstreams clk iter = page clk (sort_key fst iter)"
  by (cases "sort_key fst iter")
    (simp_all add: render_upstreams_def page_def render_entry_ne Let_def)

section \<open>Properties\<close>

text \<open>
  The \<open>/upstreams\<close> page lists every registered upstream exactly once, in strictly
  ascending byte order of the names, and does not depend on the order in which the hash map
  happens to iterate; it is never empty.
\<close>

theorem upstreams_page_sorted:
  assumes "iterates m iter"
  shows "\<exists>es. sorted_wrt (<) (map fst es) \<and> set es = map_iter m
    \<and> render_upstreams clk iter = page clk es \<and> page clk es \<noteq> []
    \<and> (\<forall>iter'. iterates m iter' \<longrightarrow> render_upstreams clk iter' = page clk es)"
proof (intro exI [of _ "sort_key fst iter"] conjI allI impI)
  show "page clk (sort_key fst iter) \<noteq> []"
    by (cases "sort_key fst iter") (simp_all add: page_def render_entry_ne nl_def)
  fix iter'
  assume "iterates m iter'"
  with assms have "sort_key fst iter' = sort_key fst iter"
    using entries_unique [of "sort_key fst iter'" m "sort_key fst iter"] sort_iterates by blast
  then show "render_upstreams clk iter' = page clk (sort_key fst iter)"
    by (simp add: render_upstreams_page)
qed (use sort_iterates [OF assms] render_upstreams_page in auto)

theorem upstreams_page_sorted_witness:
  "render_upstreams (\<lambda>_ _. 0) [(''b'', sample_pool 0 []), (''a'', sample_pool 0 [])]
     = render_upstreams (\<lambda>_ _. 0) [(''a'', sample_pool 0 []), (''b'', sample_pool 0 [])]"
proof -
  let ?m = "[''a'' \<mapsto> sample_pool 0 [], ''b'' \<mapsto> sample_pool 0 []]"
  have ba: "iterates ?m [(''b'', sample_pool 0 []), (''a'', sample_pool 0 [])]"
    and ab: "iterates ?m [(''a'', sample_pool 0 []), (''b'', sample_pool 0 [])]"
    by (auto simp: iterates_def map_iter_def split: if_splits)
  obtain t where "\<And>iter. iterates ?m iter \<Longrightarrow> render_upstreams (\<lambda>_ _. 0) iter = t"
    using upstreams_page_sorted [OF ba, of "\<lambda>_ _. 0"] by blast
  from this [OF ba] this [OF ab] show ?thesis by simp
qed

text \<open>
  The admin server fails only to bind. Once bound it returns exactly when some iteration
  of its loop reads the cancel flag as set, having handed every connection accepted before
  that iteration to a task, in order; accept errors and idle polls never stop it. The uptime
  clock is anchored by then.
\<close>

theorem serve_admin_returns:
  "serve_admin tcp_bind stop accept addr now once = Some (once', r) \<longleftrightarrow>
     once' = Some (fst (process_start now once))
     \<and> (case tcp_bind addr of
          Inl e \<Rightarrow> r = Inl (AdminBind addr e)
        | Inr _ \<Rightarrow> (\<exists>n. stop n \<and> (\<forall>k<n. \<not> stop k)
                     \<and> r = Inr (concat (map (\<lambda>k. handed (accept k)) [0..<n]))))"
  by (auto simp: serve_admin_def Let_def polled_loop_iff process_start_def
      split: option.splits sum.splits)

theorem serve_admin_returns_witness:
  "serve_admin (\<lambda>_. Inr ()) (\<lambda>i. 3 \<le> i)
     (\<lambda>i. if i = 0 then Accepted ''conn'' else if i = 1 then AcceptFailed ''EMFILE'' else Elapsed)
     (sample_addr 1) 7 None = Some (Some 7, Inr [''conn''])"
proof -
  have "\<forall>k < 3. \<not> 3 \<le> (k :: nat)" by simp
  then show ?thesis
    unfolding serve_admin_returns by (simp add: process_start_def handed_def upt_rec exI [of _ 3])
qed

end
