(* ===== verification/Conduit_Tls.thy ===== *)
theory Conduit_Tls
  imports Conduit_Pool
begin

text \<open>
  \<^verbatim>\<open>conduit-transport/src/tls.rs\<close>: loading certificates, the SNI table with its lookup, hot
  reload of the table and the server configuration. Files and PEM parsing are the fields of
  \<open>tls_crates\<close> (shared with the upstream side); what the server side needs of \<open>rustls\<close> beyond
  that is \<open>sign_crates\<close>. A resolver is a cell that holds one table at a time: the locale
  \<open>hot_swap\<close> is what its readers and writers rely on.
\<close>

section \<open>Model\<close>

datatype tls_error =
    TlsReadFile string string
  | InvalidPem string
  | NoCert string
  | NoKey string
  | TlsRustls string string
  | Handshake string
  | NoCerts

record ('key, 'sk) sign_crates =
  any_supported_type :: "'key \<Rightarrow> string + 'sk"
  no_items_found :: "string \<Rightarrow> bool"
  ticketer_new :: "string + unit"

record ('cert, 'sk) certified_key =
  ck_cert :: "'cert list"
  ck_key :: 'sk
  ck_ocsp :: "string option"

fun collect_certs :: "string \<Rightarrow> (string + 'cert) list \<Rightarrow> 'cert list \<Rightarrow> tls_error + 'cert list" where
  "collect_certs path [] certs = Inr certs"
| "collect_certs path (Inr c # items) certs = collect_certs path items (certs @ [c])"
| "collect_certs path (Inl e # items) certs = Inl (TlsReadFile path e)"

definition load_certs :: "('cert, 'key, 'roots) tls_crates \<Rightarrow> string \<Rightarrow> tls_error + 'cert list" where
  "load_certs Y path =
     (case fs_read Y path of
        Inl e \<Rightarrow> Inl (TlsReadFile path e)
      | Inr bytes \<Rightarrow>
          (case collect_certs path (cert_pem_iter Y bytes) [] of
             Inl e \<Rightarrow> Inl e
           | Inr certs \<Rightarrow> if certs = [] then Inl (NoCert path) else Inr certs))"

definition load_key ::
  "('cert, 'key, 'roots) tls_crates \<Rightarrow> ('key, 'sk) sign_crates \<Rightarrow> string \<Rightarrow> tls_error + 'key" where
  "load_key Y S path =
     (case fs_read Y path of
        Inl e \<Rightarrow> Inl (TlsReadFile path e)
      | Inr bytes \<Rightarrow>
          (case key_from_pem Y bytes of
             Inr key \<Rightarrow> Inr key
           | Inl e \<Rightarrow> if no_items_found S e then Inl (NoKey path) else Inl (TlsReadFile path e)))"

text \<open>The body of the loop of \<open>build_table\<close> up to the finished \<open>CertifiedKey\<close>.\<close>

definition load_certified ::
  "('cert, 'key, 'roots) tls_crates \<Rightarrow> ('key, 'sk) sign_crates \<Rightarrow> cert_spec
   \<Rightarrow> tls_error + ('cert, 'sk) certified_key" where
  "load_certified Y S spec =
     (case load_certs Y (cs_cert spec) of
        Inl e \<Rightarrow> Inl e
      | Inr certs \<Rightarrow>
          (case load_key Y S (cs_key spec) of
             Inl e \<Rightarrow> Inl e
           | Inr key \<Rightarrow>
               (case any_supported_type S key of
                  Inl e \<Rightarrow> Inl (TlsRustls (cs_sni spec) e)
                | Inr signing_key \<Rightarrow>
                    (case cs_ocsp_response spec of
                       None \<Rightarrow> Inr \<lparr>ck_cert = certs, ck_key = signing_key, ck_ocsp = None\<rparr>
                     | Some path \<Rightarrow>
                         (case fs_read Y path of
                            Inl e \<Rightarrow> Inl (TlsReadFile path e)
                          | Inr bytes \<Rightarrow>
                              Inr \<lparr>ck_cert = certs, ck_key = signing_key, ck_ocsp = Some bytes\<rparr>)))))"

record 'ck cert_table =
  ct_exact :: "string \<rightharpoonup> 'ck"
  ct_wildcard :: "(string \<times> 'ck) list"
  ct_fallback :: 'ck

text \<open>
  The loop of \<open>build_table\<close>, generic in how one entry is loaded; the accumulators are the
  exact table, the wildcard list and the fallback.
\<close>

fun build_loop ::
  "(cert_spec \<Rightarrow> tls_error + 'ck) \<Rightarrow> (string \<rightharpoonup> 'ck) \<Rightarrow> (string \<times> 'ck) list \<Rightarrow> 'ck option
   \<Rightarrow> cert_spec list \<Rightarrow> tls_error + (string \<rightharpoonup> 'ck) \<times> (string \<times> 'ck) list \<times> 'ck option" where
  "build_loop ld exact wildcard fallback [] = Inr (exact, wildcard, fallback)"
| "build_loop ld exact wildcard fallback (spec # specs) =
     (case ld spec of
        Inl e \<Rightarrow> Inl e
      | Inr ck \<Rightarrow>
          (let fallback = (if fallback = None then Some ck else fallback) in
           case strip_prefix_str ''*.'' (cs_sni spec) of
             Some sfx \<Rightarrow>
               build_loop ld exact (wildcard @ [(to_ascii_lowercase sfx, ck)]) fallback specs
           | None \<Rightarrow>
               build_loop ld (exact(to_ascii_lowercase (cs_sni spec) \<mapsto> ck)) wildcard fallback specs))"

text \<open>\<open>None\<close> is the panic of the final \<open>expect\<close>.\<close>

definition build_table ::
  "('cert, 'key, 'roots) tls_crates \<Rightarrow> ('key, 'sk) sign_crates \<Rightarrow> cert_spec list
   \<Rightarrow> (tls_error + ('cert, 'sk) certified_key cert_table) option" where
  "build_table Y S specs =
     (if specs = [] then Some (Inl NoCerts)
      else (case build_loop (load_certified Y S) Map.empty [] None specs of
              Inl e \<Rightarrow> Some (Inl e)
            | Inr (exact, wildcard, fallback) \<Rightarrow>
                (case fallback of
                   None \<Rightarrow> None
                 | Some ck \<Rightarrow>
                     Some (Inr \<lparr>ct_exact = exact, ct_wildcard = wildcard, ct_fallback = ck\<rparr>))))"

record 'ck resolver =
  mr_inner :: "'ck cert_table"

definition resolver_from_config ::
  "('cert, 'key, 'roots) tls_crates \<Rightarrow> ('key, 'sk) sign_crates \<Rightarrow> cert_spec list
   \<Rightarrow> (tls_error + ('cert, 'sk) certified_key resolver) option" where
  "resolver_from_config Y S specs =
     map_option (map_sum id (\<lambda>table. \<lparr>mr_inner = table\<rparr>)) (build_table Y S specs)"

definition resolver_reload ::
  "('cert, 'key, 'roots) tls_crates \<Rightarrow> ('key, 'sk) sign_crates \<Rightarrow> cert_spec list
   \<Rightarrow> ('cert, 'sk) certified_key resolver
   \<Rightarrow> (('cert, 'sk) certified_key resolver \<times> (tls_error + unit)) option" where
  "resolver_reload Y S specs r =
     (case build_table Y S specs of
        None \<Rightarrow> None
      | Some (Inl e) \<Rightarrow> Some (r, Inl e)
      | Some (Inr table) \<Rightarrow> Some (r\<lparr>mr_inner := table\<rparr>, Inr ()))"

text \<open>The part of a name after its first dot, if it has one.\<close>

definition after_dot :: "string \<Rightarrow> string option" where
  "after_dot key =
     (case dropWhile (\<lambda>c. c \<noteq> CHR ''.'') key of [] \<Rightarrow> None | _ # sfx \<Rightarrow> Some sfx)"

fun wildcard_scan :: "string \<Rightarrow> (string \<times> 'ck) list \<Rightarrow> 'ck option" where
  "wildcard_scan sfx [] = None"
| "wildcard_scan sfx ((pat, ck) # rest) =
     (if pat = sfx then Some ck else wildcard_scan sfx rest)"

definition table_lookup :: "'ck cert_table \<Rightarrow> string \<Rightarrow> 'ck" where
  "table_lookup t sni =
     (let key = to_ascii_lowercase sni in
      case ct_exact t key of
        Some ck \<Rightarrow> ck
      | None \<Rightarrow>
          (case (case after_dot key of
                   None \<Rightarrow> None
                 | Some sfx \<Rightarrow> wildcard_scan sfx (ct_wildcard t)) of
             Some ck \<Rightarrow> ck
           | None \<Rightarrow> ct_fallback t))"

definition resolve :: "'ck resolver \<Rightarrow> string option \<Rightarrow> 'ck option" where
  "resolve r server_name =
     (let sni = (case server_name of None \<Rightarrow> [] | Some s \<Rightarrow> s) in
      if sni = [] then Some (ct_fallback (mr_inner r))
      else Some (table_lookup (mr_inner r) sni))"

record 'ck server_config_tls =
  sv_resolver :: "'ck resolver"
  sv_alpn_protocols :: "string list"
  sv_max_early_data_size :: u32
  sv_tickets :: bool

definition load_server_config_with_resolver ::
  "('cert, 'key, 'roots) tls_crates \<Rightarrow> ('key, 'sk) sign_crates \<Rightarrow> tls_config
   \<Rightarrow> (tls_error + ('cert, 'sk) certified_key server_config_tls
                   \<times> ('cert, 'sk) certified_key resolver) option" where
  "load_server_config_with_resolver Y S cfg =
     (if tc_certs cfg = [] then Some (Inl NoCerts)
      else (case resolver_from_config Y S (tc_certs cfg) of
              None \<Rightarrow> None
            | Some (Inl e) \<Rightarrow> Some (Inl e)
            | Some (Inr resolver) \<Rightarrow>
                Some (Inr (\<lparr>sv_resolver = resolver,
                            sv_alpn_protocols = [''h2'', ''http/1.1''],
                            sv_max_early_data_size = (if tc_enable_0rtt cfg then 16 * 1024 else 0),
                            sv_tickets = (case ticketer_new S of Inr _ \<Rightarrow> True | Inl _ \<Rightarrow> False)\<rparr>,
                           resolver))))"

definition load_server_config ::
  "('cert, 'key, 'roots) tls_crates \<Rightarrow> ('key, 'sk) sign_crates \<Rightarrow> tls_config
   \<Rightarrow> (tls_error + ('cert, 'sk) certified_key server_config_tls) option" where
  "load_server_config Y S cfg =
     map_option (map_sum id fst) (load_server_config_with_resolver Y S cfg)"

text \<open>The acceptor holds the configuration; the handshake of \<open>tokio-rustls\<close> is an argument.\<close>

record 'ck tls_acceptor =
  ta_config :: "'ck server_config_tls"

definition build_acceptor :: "'ck server_config_tls \<Rightarrow> 'ck tls_acceptor" where
  "build_acceptor server_cfg = \<lparr>ta_config = server_cfg\<rparr>"

definition accept_tls ::
  "('ck server_config_tls \<Rightarrow> 'c \<Rightarrow> string + 'tls) \<Rightarrow> 'ck tls_acceptor \<Rightarrow> 'c \<Rightarrow> tls_error + 'tls" where
  "accept_tls handshake acceptor stream = map_sum Handshake id (handshake (ta_config acceptor) stream)"

section \<open>Interface: a cell that is swapped while it is read\<close>

text \<open>
  What \<open>ArcSwap\<close> gives: a reader sees the value stored last. Storing only what was built
  successfully keeps the cell at the last good value.
\<close>

locale hot_swap =
  fixes load :: "'c \<Rightarrow> 'v" and store :: "'v \<Rightarrow> 'c \<Rightarrow> 'c"
  assumes load_store: "load (store v c) = v"
begin

definition try_swap :: "'e + 'v \<Rightarrow> 'c \<Rightarrow> 'c" where
  "try_swap r c = (case r of Inl _ \<Rightarrow> c | Inr v \<Rightarrow> store v c)"

definition last_good :: "'v \<Rightarrow> ('e + 'v) list \<Rightarrow> 'v" where
  "last_good v rs = (case rev (List.map_filter (\<lambda>r. case r of Inl _ \<Rightarrow> None | Inr w \<Rightarrow> Some w) rs) of
                       [] \<Rightarrow> v | w # _ \<Rightarrow> w)"

lemma load_try_swap: "load (try_swap r c) = (case r of Inl _ \<Rightarrow> load c | Inr v \<Rightarrow> v)"
  by (simp add: try_swap_def load_store split: sum.split)

lemma load_after_reloads: "load (foldl (\<lambda>c r. try_swap r c) c rs) = last_good (load c) rs"
proof (induction rs rule: rev_induct)
  case (snoc r rs)
  then show ?case
    by (cases r) (simp_all add: load_try_swap last_good_def map_filter_def)
qed (simp add: last_good_def map_filter_def)

end

interpretation cert_cell: hot_swap mr_inner "\<lambda>t r. r\<lparr>mr_inner := t\<rparr>"
  by unfold_locales simp

section \<open>Reference: the entry a name selects\<close>

text \<open>
  Among the entries in declaration order: the last exact one that equals the name, else the
  first wildcard whose suffix is the name without its first label, else the first entry.
  Comparisons ignore ASCII case.
\<close>

definition is_wildcard :: "cert_spec \<Rightarrow> bool" where
  "is_wildcard spec \<longleftrightarrow> prefix ''*.'' (cs_sni spec)"

definition exact_for :: "string \<Rightarrow> cert_spec \<Rightarrow> bool" where
  "exact_for sni spec \<longleftrightarrow> \<not> is_wildcard spec \<and> to_ascii_lowercase (cs_sni spec) = to_ascii_lowercase sni"

definition wildcard_for :: "string \<Rightarrow> cert_spec \<Rightarrow> bool" where
  "wildcard_for sni spec \<longleftrightarrow>
     is_wildcard spec \<and> after_dot (to_ascii_lowercase sni) = Some (to_ascii_lowercase (drop 2 (cs_sni spec)))"

definition select_spec :: "cert_spec list \<Rightarrow> string option \<Rightarrow> cert_spec" where
  "select_spec specs name =
     (case name of
        None \<Rightarrow> hd specs
      | Some sni \<Rightarrow>
          if sni = [] then hd specs
          else (case List.find (exact_for sni) (rev specs) of
                  Some s \<Rightarrow> s
                | None \<Rightarrow> (case List.find (wildcard_for sni) specs of Some s \<Rightarrow> s | None \<Rightarrow> hd specs)))"

text \<open>A run of reloads: the files read and the entries of each are those of its moment.\<close>

fun reload_all ::
  "(('cert, 'key, 'roots) tls_crates \<times> ('key, 'sk) sign_crates \<times> cert_spec list) list
   \<Rightarrow> ('cert, 'sk) certified_key resolver \<Rightarrow> ('cert, 'sk) certified_key resolver option" where
  "reload_all [] r = Some r"
| "reload_all ((Y, S, specs) # rest) r =
     (case resolver_reload Y S specs r of None \<Rightarrow> None | Some (r', _) \<Rightarrow> reload_all rest r')"

section \<open>Lemmas\<close>

lemma strip_wildcard:
  "strip_prefix_str ''*.'' s = (if prefix ''*.'' s then Some (drop 2 s) else None)"
  by (simp add: strip_prefix_str_def numeral_2_eq_2)

text \<open>The loop adds to each accumulator what the loaded entries call for.\<close>

lemma build_loop_Inr:
  assumes "\<And>s. s \<in> set specs \<Longrightarrow> ld s = Inr (val s)"
  shows "build_loop ld exact wildcard fallback specs =
    Inr (exact ++ map_of (rev (map (\<lambda>s. (to_ascii_lowercase (cs_sni s), val s))
                                   (filter (\<lambda>s. \<not> is_wildcard s) specs))),
         wildcard @ map (\<lambda>s. (to_ascii_lowercase (drop 2 (cs_sni s)), val s)) (filter is_wildcard specs),
         case fallback of Some ck \<Rightarrow> Some ck
         | None \<Rightarrow> (case specs of [] \<Rightarrow> None | s # _ \<Rightarrow> Some (val s)))"
  using assms
proof (induction specs arbitrary: exact wildcard fallback)
  case (Cons spec specs)
  then show ?case
    by (auto simp: strip_wildcard is_wildcard_def Let_def map_add_def fun_eq_iff
        split: option.splits)
qed (simp split: option.split)

lemma build_loop_Inl_iff:
  "(\<exists>e. build_loop ld exact wildcard fallback specs = Inl e) \<longleftrightarrow> (\<exists>s\<in>set specs. \<exists>e. ld s = Inl e)"
  by (induction specs arbitrary: exact wildcard fallback)
    (auto simp: Let_def split: sum.splits option.splits)

lemma wildcard_scan_map:
  "wildcard_scan sfx (map (\<lambda>s. (f s, val s)) specs) =
     map_option val (List.find (\<lambda>s. f s = sfx) specs)"
  by (induction specs) auto

lemma map_of_rev_find:
  "map_of (map (\<lambda>s. (f s, val s)) specs) key = map_option val (List.find (\<lambda>s. f s = key) specs)"
  by (induction specs) auto

text \<open>The error of the first entry that does not load is the error of the loop.\<close>

lemma build_loop_Inl:
  "build_loop ld exact wildcard fallback specs = Inl e \<longleftrightarrow>
     (\<exists>s. List.find (\<lambda>s. isl (ld s)) specs = Some s \<and> ld s = Inl e)"
  by (induction specs arbitrary: exact wildcard fallback)
    (auto simp: Let_def split: sum.splits option.splits)

text \<open>A table that was built holds the key of every entry; this is what lookup relies on.\<close>

lemma build_table_loaded:
  assumes "build_table Y S specs = Some (Inr t)"
  shows "specs \<noteq> []" and "\<forall>s\<in>set specs. \<exists>ck. load_certified Y S s = Inr ck"
proof -
  show "specs \<noteq> []" using assms by (auto simp: build_table_def)
  have "\<nexists>e. build_loop (load_certified Y S) Map.empty [] None specs = Inl e"
    using assms by (auto simp: build_table_def split: if_splits)
  then show "\<forall>s\<in>set specs. \<exists>ck. load_certified Y S s = Inr ck"
    unfolding build_loop_Inl_iff by (metis sumE)
qed

lemma build_table_eq:
  assumes "specs \<noteq> []" and "\<And>s. s \<in> set specs \<Longrightarrow> load_certified Y S s = Inr (val s)"
  shows "build_table Y S specs = Some (Inr
    \<lparr>ct_exact = map_of (map (\<lambda>s. (to_ascii_lowercase (cs_sni s), val s))
                            (filter (\<lambda>s. \<not> is_wildcard s) (rev specs))),
     ct_wildcard = map (\<lambda>s. (to_ascii_lowercase (drop 2 (cs_sni s)), val s)) (filter is_wildcard specs),
     ct_fallback = val (hd specs)\<rparr>)"
  using assms(1)
  by (simp add: build_table_def build_loop_Inr [OF assms(2)] rev_map rev_filter split: list.split)

lemma build_table_ok_iff:
  "(\<exists>t. build_table Y S specs = Some (Inr t)) \<longleftrightarrow>
     specs \<noteq> [] \<and> (\<forall>s\<in>set specs. \<exists>ck. load_certified Y S s = Inr ck)"
proof
  assume "specs \<noteq> [] \<and> (\<forall>s\<in>set specs. \<exists>ck. load_certified Y S s = Inr ck)"
  then obtain val where "specs \<noteq> []" and "\<And>s. s \<in> set specs \<Longrightarrow> load_certified Y S s = Inr (val s)" by metis
  from build_table_eq [OF this] show "\<exists>t. build_table Y S specs = Some (Inr t)" by blast
qed (blast dest: build_table_loaded)

lemma build_table_fallback:
  assumes "specs \<noteq> []" and "\<And>s. s \<in> set specs \<Longrightarrow> load_certified Y S s = Inr (val s)"
    and "build_table Y S specs = Some (Inr t)"
  shows "ct_fallback t = val (hd specs)"
  using build_table_eq [OF assms(1,2)] assms(3) by auto

lemma table_lookup_select:
  assumes "specs \<noteq> []" and "\<And>s. s \<in> set specs \<Longrightarrow> load_certified Y S s = Inr (val s)"
    and "build_table Y S specs = Some (Inr t)" and "sni \<noteq> []"
  shows "table_lookup t sni = val (select_spec specs (Some sni))"
proof -
  have exact: "ct_exact t (to_ascii_lowercase sni) = map_option val (List.find (exact_for sni) (rev specs))"
    using build_table_eq [OF assms(1,2)] assms(3)
    by (auto simp: map_of_rev_find find_filter exact_for_def [abs_def])
  have wild: "(case after_dot (to_ascii_lowercase sni) of None \<Rightarrow> None
      | Some sfx \<Rightarrow> wildcard_scan sfx (ct_wildcard t)) = map_option val (List.find (wildcard_for sni) specs)"
    using build_table_eq [OF assms(1,2)] assms(3)
    by (cases "after_dot (to_ascii_lowercase sni)")
      (auto simp: wildcard_scan_map find_filter wildcard_for_def [abs_def] find_False
        eq_commute [of "to_ascii_lowercase (drop _ _)"])
  have "ct_fallback t = val (hd specs)"
    by (rule build_table_fallback [OF assms(1,2,3)])
  with exact wild assms(4) show ?thesis
    by (simp add: table_lookup_def Let_def select_spec_def split: option.split)
qed

lemma select_spec_mem: "specs \<noteq> [] \<Longrightarrow> select_spec specs name \<in> set specs"
  by (auto simp: select_spec_def dest: find_SomeD split: option.split)

text \<open>The listener configuration depends on the entries and on 0-RTT only.\<close>

lemma server_config_ignores:
  "load_server_config Y S
     (cfg\<lparr>tc_min_version := v, tc_alpn := alpn, tc_session_tickets := st, tc_ocsp_stapling := os\<rparr>)
   = load_server_config Y S cfg"
  by (simp add: load_server_config_def load_server_config_with_resolver_def)

lemma resolver_reload_swap:
  "resolver_reload Y S specs r =
     map_option (\<lambda>res. (cert_cell.try_swap res r, map_sum id (\<lambda>_. ()) res)) (build_table Y S specs)"
  by (simp add: resolver_reload_def cert_cell.try_swap_def split: option.split sum.split)

lemma build_table_not_None [no_panic]: "build_table Y S specs \<noteq> None"
proof (cases "specs = [] \<or> (\<exists>e. build_loop (load_certified Y S) Map.empty [] None specs = Inl e)")
  case False
  then have "\<forall>s\<in>set specs. \<exists>ck. load_certified Y S s = Inr ck"
    unfolding build_loop_Inl_iff by (metis sumE)
  then obtain val where "\<forall>s\<in>set specs. load_certified Y S s = Inr (val s)" by metis
  then show ?thesis using False build_table_eq [of specs Y S val] by auto
qed (auto simp: build_table_def)

lemma reload_all_fold:
  "reload_all rs r =
     Some (foldl (\<lambda>c res. cert_cell.try_swap res c) r
             (map (\<lambda>(Y, S, specs). the (build_table Y S specs)) rs))"
proof (induction rs r rule: reload_all.induct)
  case (2 Y S specs rest r)
  then show ?case
    using build_table_not_None [of Y S specs] by (auto simp: resolver_reload_swap)
qed simp

definition sample_sign_crates :: "(string, string) sign_crates" where
  "sample_sign_crates =
     \<lparr>any_supported_type = Inr, no_items_found = (\<lambda>e. e = ''none''), ticketer_new = Inr ()\<rparr>"

definition sample_spec :: "string \<Rightarrow> cert_spec" where
  "sample_spec sni = \<lparr>cs_sni = sni, cs_cert = sni @ ''.pem'', cs_key = sni @ ''.key'', cs_ocsp_response = None\<rparr>"

definition sample_specs :: "cert_spec list" where
  "sample_specs = map sample_spec [''a.org'', ''*.b.org'', ''A.org'']"

definition sample_files :: "(string, string, string list) tls_crates" where
  "sample_files = sample_tls_crates\<lparr>fs_read := Inr\<rparr>"

lemmas sample_tls_simps = sample_files_def sample_tls_crates_def sample_sign_crates_def
  sample_spec_def load_certified_def load_certs_def load_key_def

lemma sample_load:
  "load_certified sample_files sample_sign_crates (sample_spec sni) =
     Inr \<lparr>ck_cert = [sni @ ''.pem''], ck_key = sni @ ''.key'', ck_ocsp = None\<rparr>"
  by (simp add: sample_tls_simps)

lemma sample_load_missing:
  "load_certified sample_tls_crates sample_sign_crates (sample_spec ''a.org'') =
     Inl (TlsReadFile ''a.org.pem'' ''not found'')"
  by (simp add: sample_tls_simps)

section \<open>Properties\<close>



text \<open>
  Building the table never panics, succeeds exactly when there is an entry and every
  entry loads, and otherwise reports the error of the first entry, in declaration order, that
  does not load (or that there are none).
\<close>

theorem build_table_outcome:
  "build_table Y S specs \<noteq> None
   \<and> ((\<exists>t. build_table Y S specs = Some (Inr t)) \<longleftrightarrow>
        specs \<noteq> [] \<and> (\<forall>s\<in>set specs. \<exists>ck. load_certified Y S s = Inr ck))
   \<and> (build_table Y S specs = Some (Inl e) \<longleftrightarrow>
        specs = [] \<and> e = NoCerts
        \<or> (\<exists>s. List.find (\<lambda>s. isl (load_certified Y S s)) specs = Some s \<and> load_certified Y S s = Inl e))"
proof (intro conjI)
  show "build_table Y S specs \<noteq> None" by (rule build_table_not_None)
  show "(\<exists>t. build_table Y S specs = Some (Inr t)) \<longleftrightarrow>
      specs \<noteq> [] \<and> (\<forall>s\<in>set specs. \<exists>ck. load_certified Y S s = Inr ck)"
    by (rule build_table_ok_iff)
  show "build_table Y S specs = Some (Inl e) \<longleftrightarrow> specs = [] \<and> e = NoCerts
      \<or> (\<exists>s. List.find (\<lambda>s. isl (load_certified Y S s)) specs = Some s \<and> load_certified Y S s = Inl e)"
  proof (cases "specs = []")
    case False
    then have "build_table Y S specs = Some (Inl e) \<longleftrightarrow>
        build_loop (load_certified Y S) Map.empty [] None specs = Inl e"
      using build_table_not_None [of Y S specs]
      by (auto simp: build_table_def split: sum.splits prod.splits option.splits)
    with False show ?thesis by (simp add: build_loop_Inl)
  qed (auto simp: build_table_def)
qed

theorem build_table_outcome_witness:
  "build_table sample_tls_crates sample_sign_crates sample_specs
     = Some (Inl (TlsReadFile ''a.org.pem'' ''not found''))
   \<and> (\<exists>t. build_table sample_files sample_sign_crates sample_specs = Some (Inr t))"
proof
  show "build_table sample_tls_crates sample_sign_crates sample_specs
     = Some (Inl (TlsReadFile ''a.org.pem'' ''not found''))"
    using build_table_outcome [of sample_tls_crates sample_sign_crates sample_specs
        "TlsReadFile ''a.org.pem'' ''not found''"]
    by (simp add: sample_specs_def sample_load_missing)
  show "\<exists>t. build_table sample_files sample_sign_crates sample_specs = Some (Inr t)"
    using build_table_outcome [of sample_files sample_sign_crates sample_specs undefined]
    by (auto simp: sample_specs_def sample_load)
qed

text \<open>
  Hot reload: after any sequence of reloads, each reading its own entries and files, no
  reload panicked and handshakes are served from the table of the last reload that succeeded,
  or from the initial table when none did; the error of a failed reload changes nothing.
\<close>

theorem reload_keeps_last_good:
  "\<exists>r'. reload_all rs r = Some r'
     \<and> mr_inner r' = (case List.find (\<lambda>(Y, S, specs). \<exists>t. build_table Y S specs = Some (Inr t)) (rev rs) of
                        None \<Rightarrow> mr_inner r
                      | Some (Y, S, specs) \<Rightarrow> projr (the (build_table Y S specs)))"
proof (induction rs rule: rev_induct)
  case (snoc x xs)
  obtain Y S specs where x: "x = (Y, S, specs)" by (metis prod.exhaust)
  obtain res where res: "build_table Y S specs = Some res" using build_table_not_None by blast
  show ?case
    using snoc by (cases res) (auto simp: reload_all_fold x res cert_cell.load_try_swap)
qed simp

end
