(* ===== verification/Conduit_Conn.thy ===== *)
theory Conduit_Conn
  imports Conduit_Admin Conduit_Tls
begin

text \<open>
  Connections: \<^verbatim>\<open>conduit-h1\<close>, \<^verbatim>\<open>conduit-h2\<close> and \<^verbatim>\<open>conduit-h3\<close> (their \<^verbatim>\<open>lib.rs\<close>) and the two
  listener threads of \<^verbatim>\<open>conduit/src/main.rs\<close>, \<open>run_https\<close> and \<open>run_h3\<close>. What \<open>hyper\<close>, \<open>quinn\<close> and
  \<open>h3\<close> do is in the arguments: the outcome of serving a byte stream, the results of each send
  and receive. A value \<open>None\<close> is a task that still waits.
\<close>

section \<open>Model\<close>

subsection \<open>HTTP/1.1 and HTTP/2\<close>

datatype serve_error = Hyper string | H3Connection string

definition h1_serve_connection :: "('io \<Rightarrow> 'h \<Rightarrow> string + unit) \<Rightarrow> 'io \<Rightarrow> 'h \<Rightarrow> serve_error + unit" where
  "h1_serve_connection http1_serve io handler = map_sum Hyper id (http1_serve io handler)"

definition h2_serve_connection :: "('io \<Rightarrow> 'h \<Rightarrow> string + unit) \<Rightarrow> 'io \<Rightarrow> 'h \<Rightarrow> serve_error + unit" where
  "h2_serve_connection http2_serve io handler = map_sum Hyper id (http2_serve io handler)"

subsection \<open>HTTP/3: one request stream\<close>

text \<open>A received chunk is a \<open>Buf\<close>: the list of its contiguous slices.\<close>

fun drain_buf :: "string \<Rightarrow> string list \<Rightarrow> string" where
  "drain_buf buf [] = buf"
| "drain_buf buf (sl # slices) = drain_buf (buf @ sl) slices"

text \<open>What successive calls of \<open>recv_data\<close> return; when the list ends the next call still waits.\<close>

fun recv_body :: "(string + string list option) list \<Rightarrow> string \<Rightarrow> (string + string) option" where
  "recv_body [] buf = None"
| "recv_body (Inl e # rs) buf = Some (Inl e)"
| "recv_body (Inr None # rs) buf = Some (Inr buf)"
| "recv_body (Inr (Some chunk) # rs) buf = recv_body rs (drain_buf buf chunk)"

text \<open>What went out on the stream.\<close>

record 'hm h3_out =
  ho_head :: "(status \<times> 'hm) option"
  ho_data :: "string list"
  ho_finished :: bool

definition h3_out_new :: "'hm h3_out" where
  "h3_out_new = \<lparr>ho_head = None, ho_data = [], ho_finished = False\<rparr>"

text \<open>
  The loop over the frames of the response body, polled at the given instants; \<open>send k\<close> is the
  result of the \<open>k\<close>-th \<open>send_data\<close>. Frames that carry no data are dropped.
\<close>

fun send_body ::
  "(instant \<Rightarrow> 's \<Rightarrow> 's \<times> ('hm, 'e) polled) \<Rightarrow> (nat \<Rightarrow> string + unit) \<Rightarrow> instant list \<Rightarrow> 's
   \<Rightarrow> 'hm h3_out \<Rightarrow> ('hm h3_out \<times> ((string + 'e) + unit)) option" where
  "send_body poll send [] s out = None"
| "send_body poll send (t # ts) s out =
     (case poll t s of
        (s', Pending) \<Rightarrow> send_body poll send ts s' out
      | (s', Ready None) \<Rightarrow> Some (out, Inr ())
      | (s', Ready (Some (Inl e))) \<Rightarrow> Some (out, Inl (Inr e))
      | (s', Ready (Some (Inr (Data d)))) \<Rightarrow>
          (case send (length (ho_data out)) of
             Inl e \<Rightarrow> Some (out, Inl (Inl e))
           | Inr _ \<Rightarrow> send_body poll send ts s' (out\<lparr>ho_data := ho_data out @ [d]\<rparr>))
      | (s', Ready (Some (Inr (Trailers _)))) \<Rightarrow> send_body poll send ts s' out)"

text \<open>The results of the operations on the stream.\<close>

record 'hm h3_stream =
  hs_resolve :: "string + 'hm request"
  hs_recv :: "(string + string list option) list"
  hs_send_response :: "string + unit"
  hs_send_data :: "nat \<Rightarrow> string + unit"
  hs_finish :: "string + unit"

text \<open>\<open>Full::new(body)\<close>, the body the handler of \<open>run_h3\<close> gives to \<open>proxy_one\<close>.\<close>

definition full_body :: "string \<Rightarrow> body_source" where
  "full_body bytes = \<lparr>bs_size_exact = Some (length bytes), bs_collect = Inr bytes\<rparr>"

definition drive_request ::
  "(instant \<Rightarrow> 's \<Rightarrow> 's \<times> ('hm, 'e) polled) \<Rightarrow> 'hm h3_stream \<Rightarrow> ('hm request \<Rightarrow> ('hm, 's) response)
   \<Rightarrow> instant list \<Rightarrow> ('hm h3_out \<times> ((string + 'e) + unit)) option" where
  "drive_request poll st handler ts =
     (case hs_resolve st of
        Inl e \<Rightarrow> Some (h3_out_new, Inl (Inl e))
      | Inr req_parts \<Rightarrow>
          (case recv_body (hs_recv st) [] of
             None \<Rightarrow> None
           | Some (Inl e) \<Rightarrow> Some (h3_out_new, Inl (Inl e))
           | Some (Inr buf) \<Rightarrow>
               (let resp = handler (req_parts\<lparr>rq_body := full_body buf\<rparr>) in
                case hs_send_response st of
                  Inl e \<Rightarrow> Some (h3_out_new, Inl (Inl e))
                | Inr _ \<Rightarrow>
                    (case send_body poll (hs_send_data st) ts (rs_body resp)
                            (h3_out_new\<lparr>ho_head := Some (rs_status resp, rs_headers resp)\<rparr>) of
                       None \<Rightarrow> None
                     | Some (out, Inl e) \<Rightarrow> Some (out, Inl e)
                     | Some (out, Inr _) \<Rightarrow>
                         (case hs_finish st of
                            Inl e \<Rightarrow> Some (out, Inl (Inl e))
                          | Inr _ \<Rightarrow> Some (out\<lparr>ho_finished := True\<rparr>, Inr ()))))))"

text \<open>
  \<open>serve_connection\<close> of HTTP/3 over what \<open>accept\<close> returns: the streams that get a task, and the
  result.
\<close>

fun h3_accept_streams :: "(string + 'r option) list \<Rightarrow> 'r list \<Rightarrow> ('r list \<times> (serve_error + unit)) option" where
  "h3_accept_streams [] spawned = None"
| "h3_accept_streams (Inr (Some resolver) # rs) spawned = h3_accept_streams rs (spawned @ [resolver])"
| "h3_accept_streams (Inr None # rs) spawned = Some (spawned, Inr ())"
| "h3_accept_streams (Inl e # rs) spawned = Some (spawned, Inl (H3Connection e))"

definition h3_serve_connection ::
  "string + unit \<Rightarrow> (string + 'r option) list \<Rightarrow> ('r list \<times> (serve_error + unit)) option" where
  "h3_serve_connection new_conn accepts =
     (case new_conn of
        Inl e \<Rightarrow> Some ([], Inl (H3Connection e))
      | Inr _ \<Rightarrow> h3_accept_streams accepts [])"

definition quic_server_config :: "('cfg \<Rightarrow> string + 'quic) \<Rightarrow> 'cfg \<Rightarrow> serve_error + 'quic" where
  "quic_server_config try_from rustls_cfg =
     (case try_from rustls_cfg of
        Inl e \<Rightarrow> Inl (H3Connection (''rustls'' @ [CHR 0xE2, CHR 0x86, CHR 0x92] @ ''quic: '' @ e))
      | Inr quic \<Rightarrow> Inr quic)"

subsection \<open>The listener threads\<close>

text \<open>Binding every address, up to the first failure.\<close>

fun bind_each :: "(socket_addr \<Rightarrow> string + 'l) \<Rightarrow> socket_addr list \<Rightarrow> string + 'l list" where
  "bind_each tcp_bind [] = Inr []"
| "bind_each tcp_bind (addr # addrs) =
     (case tcp_bind addr of
        Inl e \<Rightarrow> Inl e
      | Inr l \<Rightarrow> (case bind_each tcp_bind addrs of Inl e \<Rightarrow> Inl e | Inr ls \<Rightarrow> Inr (l # ls)))"

text \<open>
  One accept loop per listener, each with its own readings of the cancel flag; the thread ends
  when all loops have. The value is the connections each loop handed to a task.
\<close>

definition run_https ::
  "string + unit \<Rightarrow> (socket_addr \<Rightarrow> string + 'l) \<Rightarrow> ('l \<Rightarrow> nat \<Rightarrow> bool) \<Rightarrow> ('l \<Rightarrow> nat \<Rightarrow> 'c accept_result)
   \<Rightarrow> socket_addr list \<Rightarrow> 'c list list option" where
  "run_https runtime tcp_bind stop accept addrs =
     (case runtime of
        Inl e \<Rightarrow> Some []
      | Inr _ \<Rightarrow>
          (case bind_each tcp_bind addrs of
             Inl e \<Rightarrow> Some []
           | Inr listeners \<Rightarrow> those (map (\<lambda>l. polled_loop (stop l) (accept l) 0) listeners)))"

datatype https_end = HandshakeFailed tls_error | ServedH2 "serve_error + unit" | ServedH1 "serve_error + unit"

text \<open>One accepted connection of the HTTPS listener: handshake, then the protocol ALPN chose.\<close>

definition https_connection ::
  "('ck server_config_tls \<Rightarrow> 'c \<Rightarrow> string + 'tls) \<Rightarrow> ('tls \<Rightarrow> string option)
   \<Rightarrow> ('tls \<Rightarrow> 'h \<Rightarrow> string + unit) \<Rightarrow> ('tls \<Rightarrow> 'h \<Rightarrow> string + unit)
   \<Rightarrow> 'ck tls_acceptor \<Rightarrow> 'h \<Rightarrow> 'c \<Rightarrow> https_end" where
  "https_connection handshake alpn_protocol http1_serve http2_serve acceptor handler stream =
     (case accept_tls handshake acceptor stream of
        Inl e \<Rightarrow> HandshakeFailed e
      | Inr tls \<Rightarrow>
          if alpn_protocol tls = Some ''h2''
          then ServedH2 (h2_serve_connection http2_serve tls handler)
          else ServedH1 (h1_serve_connection http1_serve tls handler))"

text \<open>One accepted connection of a plain-HTTP worker: the handler \<open>start_http_server\<close> builds.\<close>

definition http_connection ::
  "('c \<Rightarrow> 'h \<Rightarrow> string + unit) \<Rightarrow> 'h \<Rightarrow> 'c \<Rightarrow> serve_error + unit" where
  "http_connection http1_serve handler stream = h1_serve_connection http1_serve stream handler"

text \<open>An endpoint of the HTTP/3 listener; its \<open>accept\<close> can also report that it is closed.\<close>

datatype 'c quic_accept = Incoming 'c | EndpointClosed | QuicElapsed

partial_function (option) quic_loop ::
  "(nat \<Rightarrow> bool) \<Rightarrow> (nat \<Rightarrow> 'c quic_accept) \<Rightarrow> nat \<Rightarrow> 'c list option" where
  "quic_loop stop accept i =
     (if stop i then Some []
      else (case accept i of
              Incoming c \<Rightarrow>
                Option.bind (quic_loop stop accept (Suc i)) (\<lambda>conns. Some (c # conns))
            | EndpointClosed \<Rightarrow> Some []
            | QuicElapsed \<Rightarrow> quic_loop stop accept (Suc i)))"

definition run_h3 ::
  "string + unit \<Rightarrow> (socket_addr \<Rightarrow> string + 'ep) \<Rightarrow> ('ep \<Rightarrow> nat \<Rightarrow> bool) \<Rightarrow> ('ep \<Rightarrow> nat \<Rightarrow> 'c quic_accept)
   \<Rightarrow> socket_addr list \<Rightarrow> 'c list list option" where
  "run_h3 runtime endpoint_server stop accept addrs =
     (case runtime of
        Inl e \<Rightarrow> Some []
      | Inr _ \<Rightarrow>
          (case bind_each endpoint_server addrs of
             Inl e \<Rightarrow> Some []
           | Inr endpoints \<Rightarrow> those (map (\<lambda>ep. quic_loop (stop ep) (accept ep) 0) endpoints)))"

section \<open>Lemmas\<close>

lemma drain_buf_concat: "drain_buf buf slices = buf @ concat slices"
  by (induction buf slices rule: drain_buf.induct) auto

lemma recv_body_Inr:
  "recv_body rs buf = Some (Inr body) \<longleftrightarrow>
     (\<exists>chunks rest. rs = map (\<lambda>c. Inr (Some c)) chunks @ Inr None # rest \<and> body = buf @ concat (concat chunks))"
proof (induction rs buf rule: recv_body.induct)
  case (4 chunk rs buf)
  show ?case
  proof
    assume "recv_body (Inr (Some chunk) # rs) buf = Some (Inr body)"
    then obtain chunks rest where "rs = map (\<lambda>c. Inr (Some c)) chunks @ Inr None # rest"
      "body = (buf @ concat chunk) @ concat (concat chunks)"
      using 4 by (auto simp: drain_buf_concat)
    then show "\<exists>chunks rest. Inr (Some chunk) # rs = map (\<lambda>c. Inr (Some c)) chunks @ Inr None # rest
        \<and> body = buf @ concat (concat chunks)"
      by (intro exI [of _ "chunk # chunks"] exI [of _ rest]) simp
  next
    assume "\<exists>chunks rest. Inr (Some chunk) # rs = map (\<lambda>c. Inr (Some c)) chunks @ Inr None # rest
        \<and> body = buf @ concat (concat chunks)"
    then show "recv_body (Inr (Some chunk) # rs) buf = Some (Inr body)"
      using 4 by (auto simp: drain_buf_concat Cons_eq_append_conv Cons_eq_map_conv)
  qed
qed (auto simp: Cons_eq_append_conv Cons_eq_map_conv)

text \<open>The frames sent are those \<open>collect\<close> would read, as far as the sends succeed.\<close>

lemma send_body_drain:
  assumes "send_body poll send ts s out = Some (out', r)"
  shows "ho_head out' = ho_head out \<and> ho_finished out' = ho_finished out
    \<and> (\<exists>new. ho_data out' = ho_data out @ new
         \<and> (r = Inr () \<longrightarrow> drain poll ts s acc = Some (Inr (acc @ concat new)))
         \<and> (\<forall>e. r = Inl (Inr e) \<longrightarrow> drain poll ts s acc = Some (Inl e)))"
  using assms
proof (induction ts arbitrary: s out acc)
  case (Cons t ts)
  obtain s' p where p: "poll t s = (s', p)" by (cases "poll t s")
  note IH = Cons.IH [of s']
  consider "p = Pending" | "p = Ready None" | e where "p = Ready (Some (Inl e))"
    | h where "p = Ready (Some (Inr (Trailers h)))" | d where "p = Ready (Some (Inr (Data d)))"
    by (metis frame.exhaust option.exhaust poll.exhaust sumE)
  then show ?case
  proof cases
    case (5 d)
    show ?thesis
    proof (cases "send (length (ho_data out))")
      case (Inl e)
      with 5 p Cons.prems show ?thesis by auto
    next
      case (Inr u)
      with 5 p Cons.prems IH [of "out\<lparr>ho_data := ho_data out @ [d]\<rparr>" "acc @ d"] show ?thesis by auto
    qed
  qed (use p Cons.prems IH [of out acc] in auto)
qed simp

lemma bind_each_all:
  "(\<And>a. a \<in> set addrs \<Longrightarrow> tcp_bind a = Inr (f a)) \<Longrightarrow> bind_each tcp_bind addrs = Inr (map f addrs)"
  by (induction addrs) auto

lemma bind_each_fails:
  "a \<in> set addrs \<Longrightarrow> tcp_bind a = Inl e \<Longrightarrow> \<exists>d. bind_each tcp_bind addrs = Inl d"
  by (induction addrs) (auto split: sum.splits)

text \<open>Nothing is served before the handshake succeeds, and HTTP/2 only where it was negotiated.\<close>

lemma https_connection_cases:
  "https_connection handshake alpn http1 http2 (build_acceptor cfg) handler stream =
     (case handshake cfg stream of
        Inl e \<Rightarrow> HandshakeFailed (Handshake e)
      | Inr tls \<Rightarrow>
          if alpn tls = Some ''h2'' then ServedH2 (map_sum Hyper id (http2 tls handler))
          else ServedH1 (map_sum Hyper id (http1 tls handler)))"
  by (simp add: https_connection_def accept_tls_def build_acceptor_def h1_serve_connection_def
      h2_serve_connection_def split: sum.split)

lemma those_Some: "those xs = Some ys \<longleftrightarrow> xs = map Some ys"
  by (induction xs arbitrary: ys) (auto simp: map_eq_Cons_conv split: option.splits)

section \<open>Properties\<close>

text \<open>
  An HTTP/3 exchange that succeeds is complete: the handler got exactly the bytes the
  client sent, the head that went out is the handler's, the data frames concatenate to what
  reading the response body to its end returns, and the stream was finished. An exchange that
  fails never finishes the stream.
\<close>

theorem h3_exchange_complete:
  assumes "drive_request poll st handler ts = Some (out, r)"
  shows "(r = Inr () \<longleftrightarrow> ho_finished out)
    \<and> (r = Inr () \<longrightarrow>
        (\<exists>parts chunks rest. hs_resolve st = Inr parts
           \<and> hs_recv st = map (\<lambda>c. Inr (Some c)) chunks @ Inr None # rest
           \<and> (let resp = handler (parts\<lparr>rq_body := full_body (concat (concat chunks))\<rparr>) in
              ho_head out = Some (rs_status resp, rs_headers resp)
              \<and> drain poll ts (rs_body resp) [] = Some (Inr (concat (ho_data out))))))"
proof -
  let ?resp = "\<lambda>parts buf. handler (parts\<lparr>rq_body := full_body buf\<rparr>)"
  consider (failed) e where "r = Inl e" "\<not> ho_finished out"
    | (finished) parts buf out1 where "r = Inr ()" "out = out1\<lparr>ho_finished := True\<rparr>" "hs_resolve st = Inr parts"
      "recv_body (hs_recv st) [] = Some (Inr buf)"
      "send_body poll (hs_send_data st) ts (rs_body (?resp parts buf))
         (h3_out_new\<lparr>ho_head := Some (rs_status (?resp parts buf), rs_headers (?resp parts buf))\<rparr>)
         = Some (out1, Inr ())"
    using assms send_body_drain
    by (fastforce simp: drive_request_def Let_def h3_out_new_def split: sum.splits option.splits)
  then show ?thesis
  proof cases
    case finished
    obtain chunks rest where "hs_recv st = map (\<lambda>c. Inr (Some c)) chunks @ Inr None # rest"
      "buf = concat (concat chunks)"
      using finished(4) by (auto simp: recv_body_Inr)
    moreover have "ho_head out = Some (rs_status (?resp parts buf), rs_headers (?resp parts buf))"
      "drain poll ts (rs_body (?resp parts buf)) [] = Some (Inr (concat (ho_data out)))"
      using send_body_drain [OF finished(5), of "[]"] finished(2) by (auto simp: h3_out_new_def)
    ultimately show ?thesis using finished(1,2,3) by (auto simp: Let_def)
  qed auto
qed

definition sample_stream :: "(string \<times> string) list h3_stream" where
  "sample_stream =
     \<lparr>hs_resolve = Inr (sample_request [] ''/''),
      hs_recv = [Inr (Some [''he'', ''l'']), Inr (Some [''lo'']), Inr None],
      hs_send_response = Inr (), hs_send_data = (\<lambda>_. Inr ()), hs_finish = Inr ()\<rparr>"

definition echo :: "(string \<times> string) list request
    \<Rightarrow> ((string \<times> string) list, (string \<times> string) list vec_body) response" where
  "echo req =
     \<lparr>rs_status = 200, rs_headers = [],
      rs_body = vec_from_chunks (case bs_collect (rq_body req) of Inl e \<Rightarrow> [] | Inr b \<Rightarrow> [b, ''!''])\<rparr>"

theorem h3_exchange_complete_witness:
  "\<exists>out. drive_request vec_poll_frame sample_stream echo [0, 1, 2] = Some (out, (Inr () :: (string + string) + unit))
     \<and> ho_head out = Some (200, []) \<and> concat (ho_data out) = ''hello!''"
proof -
  let ?run = "drive_request vec_poll_frame sample_stream echo [0, 1, 2]
    :: ((string \<times> string) list h3_out \<times> ((string + string) + unit)) option"
  obtain out where out: "?run = Some (out, Inr ())"
    by (simp add: drive_request_def sample_stream_def echo_def full_body_def vec_from_chunks_def
        vec_poll_frame_def Let_def)
  from h3_exchange_complete [OF out] have "ho_finished out" by blast
  with out show ?thesis
    by (simp add: drive_request_def sample_stream_def echo_def full_body_def vec_from_chunks_def
        vec_poll_frame_def Let_def h3_out_new_def) force
qed

text \<open>
  The HTTPS thread serves all its listeners or none: when the runtime or any address
  fails it returns with no connection; otherwise it returns exactly when every listener's loop
  has read the cancel flag as set, with the connections each accepted before that.
\<close>

theorem run_https_returns:
  "run_https runtime tcp_bind stop accept addrs = Some conns \<longleftrightarrow>
     (if (\<exists>e. runtime = Inl e) \<or> (\<exists>a\<in>set addrs. \<exists>e. tcp_bind a = Inl e) then conns = []
      else length conns = length addrs
        \<and> (\<forall>i<length addrs. \<exists>l n. tcp_bind (addrs ! i) = Inr l \<and> stop l n \<and> (\<forall>k<n. \<not> stop l k)
             \<and> conns ! i = concat (map (\<lambda>k. handed (accept l k)) [0..<n])))"
proof (cases "(\<exists>e. runtime = Inl e) \<or> (\<exists>a\<in>set addrs. \<exists>e. tcp_bind a = Inl e)")
  case True
  then have "run_https runtime tcp_bind stop accept addrs = Some []"
    using bind_each_fails [of _ addrs tcp_bind] by (cases runtime) (fastforce simp: run_https_def)+
  with True show ?thesis by auto
next
  case False
  define f where "f a = projr (tcp_bind a)" for a
  have f: "tcp_bind a = Inr (f a)" if "a \<in> set addrs" for a
    using that False by (cases "tcp_bind a") (auto simp: f_def)
  from False bind_each_all [OF f] have "run_https runtime tcp_bind stop accept addrs =
      those (map (\<lambda>a. polled_loop (stop (f a)) (accept (f a)) 0) addrs)"
    by (auto simp: run_https_def comp_def split: sum.splits)
  then have "run_https runtime tcp_bind stop accept addrs = Some conns \<longleftrightarrow>
      length conns = length addrs \<and>
      (\<forall>i<length addrs. polled_loop (stop (f (addrs ! i))) (accept (f (addrs ! i))) 0 = Some (conns ! i))"
    by (auto simp: those_Some list_eq_iff_nth_eq)
  with False f show ?thesis by (simp add: polled_loop_iff)
qed

theorem run_https_returns_witness:
  "run_https (Inr ()) (\<lambda>a. Inr a) (\<lambda>l i. 2 \<le> i) (\<lambda>l i. if i = 1 then Accepted ''conn'' else Elapsed)
     [sample_addr 1, sample_addr 2] = Some [[''conn''], [''conn'']]"
proof -
  have "\<forall>k < 2. \<not> 2 \<le> (k :: nat)" by simp
  moreover have "concat (map (\<lambda>k. handed (if k = 1 then Accepted ''conn'' else Elapsed)) [0..<2]) = [''conn'']"
    by (simp add: handed_def upt_rec)
  ultimately show ?thesis
    unfolding run_https_returns by (auto simp: less_Suc_eq numeral_2_eq_2 intro!: exI [of _ 2])
qed

end
