(* ===== verification/Conduit_Health.thy ===== *)
theory Conduit_Health
  imports Conduit_Pool
begin

text \<open>
  \<^verbatim>\<open>conduit-upstream/src/health.rs\<close>: active probes. The hyper client, URI parsing and the
  cancellation flag are arguments; a probe's exchange is a \<open>probe_reply\<close>. The loop of one
  address runs over the sequence of its iterations, each with the flag it reads, the outcome
  of its probe and the instant the outcome is recorded.
\<close>

section \<open>Model\<close>

record probe_config =
  pc_path :: string
  pc_interval :: duration
  pc_timeout :: duration
  pc_unhealthy_threshold :: u32
  pc_healthy_threshold :: u32
  pc_tls :: "upstream_tls_options option"

record 'cl probe =
  pb_addrs :: "socket_addr list"
  pb_breakers :: "breaker list"
  pb_cfg :: probe_config
  pb_client :: 'cl
  pb_scheme :: string

definition probe_new ::
  "('cert, 'key, 'roots) tls_crates \<Rightarrow> socket_addr list \<Rightarrow> breaker list \<Rightarrow> probe_config
   \<Rightarrow> tls_load_error + ('cert, 'key, 'roots) connector probe" where
  "probe_new Y addrs breakers cfg =
     (case build_https_connector Y (Some (pc_timeout cfg)) (pc_tls cfg) of
        Inl e \<Rightarrow> Inl e
      | Inr client \<Rightarrow>
          Inr \<lparr>pb_addrs = addrs, pb_breakers = breakers, pb_cfg = cfg, pb_client = client,
               pb_scheme = (if pc_tls cfg \<noteq> None then ''https'' else ''http'')\<rparr>)"

text \<open>The tasks \<open>run\<close> spawns: one per address that has a breaker.\<close>

definition probe_tasks :: "'cl probe \<Rightarrow> (nat \<times> socket_addr) list" where
  "probe_tasks p =
     filter (\<lambda>(idx, addr). idx < length (pb_breakers p)) (enumerate 0 (pb_addrs p))"

text \<open>
  What the exchange of one probe does: a response (with its status and whether its body can
  be read to the end), a client error, or no response before the timeout. The timeout covers
  the response head only; draining the body is outside it.
\<close>

datatype probe_reply = Responded status bool | ClientFailed | TimedOut

definition probe_url :: "string \<Rightarrow> socket_addr \<Rightarrow> string \<Rightarrow> string" where
  "probe_url scheme addr path =
     (let path_normalized = (if starts_with path ''/'' then path else ''/'' @ path) in
      scheme @ ''://'' @ addr_to_string addr @ path_normalized)"

text \<open>The result is \<open>None\<close> when the probe never returns: the drain of the body hangs.\<close>

definition probe_once ::
  "(string \<Rightarrow> 'uri option) \<Rightarrow> ('uri \<Rightarrow> duration \<Rightarrow> probe_reply) \<Rightarrow> string \<Rightarrow> socket_addr
   \<Rightarrow> string \<Rightarrow> duration \<Rightarrow> bool option" where
  "probe_once parse_uri exchange scheme addr path timeout =
     (case parse_uri (probe_url scheme addr path) of
        None \<Rightarrow> Some False
      | Some uri \<Rightarrow>
          (case exchange uri timeout of
             Responded status drains \<Rightarrow> if drains then Some (is_success status) else None
           | ClientFailed \<Rightarrow> Some False
           | TimedOut \<Rightarrow> Some False))"

record probe_state =
  ps_fail :: u32
  ps_ok :: u32
  ps_breaker :: breaker

definition probe_step :: "probe_config \<Rightarrow> bool \<Rightarrow> instant \<Rightarrow> probe_state \<Rightarrow> probe_state" where
  "probe_step cfg healthy now s =
     (if healthy then
        (let s = s\<lparr>ps_fail := 0, ps_ok := saturating_add (ps_ok s) 1\<rparr> in
         if pc_healthy_threshold cfg \<le> ps_ok s
         then s\<lparr>ps_breaker := on_success (ps_breaker s)\<rparr> else s)
      else
        (let s = s\<lparr>ps_ok := 0, ps_fail := saturating_add (ps_fail s) 1\<rparr> in
         if pc_unhealthy_threshold cfg \<le> ps_fail s
         then s\<lparr>ps_breaker := on_failure now (ps_breaker s)\<rparr> else s))"

record probe_iteration =
  pi_cancelled :: bool
  pi_outcome :: "bool option"
  pi_now :: instant

fun run_one_loop :: "probe_config \<Rightarrow> probe_iteration list \<Rightarrow> probe_state \<Rightarrow> probe_state" where
  "run_one_loop cfg [] s = s"
| "run_one_loop cfg (i # is) s =
     (if pi_cancelled i then s
      else (case pi_outcome i of
              None \<Rightarrow> s
            | Some healthy \<Rightarrow> run_one_loop cfg is (probe_step cfg healthy (pi_now i) s)))"

definition run_one :: "probe_config \<Rightarrow> breaker \<Rightarrow> probe_iteration list \<Rightarrow> probe_state" where
  "run_one cfg b is = run_one_loop cfg is \<lparr>ps_fail = 0, ps_ok = 0, ps_breaker = b\<rparr>"

text \<open>
  \<open>Probe::run\<close>: the breakers after all tasks have ended, when the task of address \<open>idx\<close> made the
  iterations \<open>sched idx\<close>. The tasks run concurrently, each on a breaker of its own, so the order
  in which their effects are listed does not matter.
\<close>

definition probe_run :: "(nat \<Rightarrow> probe_iteration list) \<Rightarrow> 'cl probe \<Rightarrow> breaker list" where
  "probe_run sched p =
     foldl (\<lambda>bs (idx, addr). bs[idx := ps_breaker (run_one (pb_cfg p) (bs ! idx) (sched idx))])
       (pb_breakers p) (probe_tasks p)"

text \<open>
  The cancellation-aware sleep: \<open>cancelled k\<close> is the flag as the \<open>k\<close>-th test of the loop reads
  it. The result is the list of sleeps taken.
\<close>

function sleep_loop :: "(nat \<Rightarrow> bool) \<Rightarrow> nat \<Rightarrow> duration \<Rightarrow> duration list" where
  "sleep_loop cancelled k remaining =
     (if \<not> cancelled k \<and> remaining \<noteq> 0
      then (let s = min (from_millis 250) remaining in
            s # sleep_loop cancelled (k + 1) (remaining - s))
      else [])"
  by pat_completeness auto
termination
  by (relation "measure (\<lambda>(_, _, r). r)") (auto simp: from_millis_def)

declare sleep_loop.simps [simp del]

section \<open>Reference: outcomes from run lengths\<close>

text \<open>Length of the run of equal results that ends a history, and the outcomes recorded.\<close>

definition run_length :: "bool list \<Rightarrow> nat" where
  "run_length rs = length (takeWhile (\<lambda>r. r = List.last rs) (rev rs))"

definition recorded :: "probe_config \<Rightarrow> bool list \<Rightarrow> instant \<Rightarrow> outcome list" where
  "recorded cfg rs now =
     (if List.last rs
      then if unat (pc_healthy_threshold cfg) \<le> run_length rs then [Success] else []
      else if unat (pc_unhealthy_threshold cfg) \<le> run_length rs then [Failure now] else [])"

definition probe_history :: "probe_config \<Rightarrow> (bool \<times> instant) list \<Rightarrow> outcome list" where
  "probe_history cfg xs =
     concat (map (\<lambda>i. recorded cfg (map fst (take (Suc i) xs)) (snd (xs ! i))) [0..<length xs])"

section \<open>Lemmas\<close>

lemma run_one_loop_steps:
  "run_one_loop cfg (map (\<lambda>(h, t). \<lparr>pi_cancelled = False, pi_outcome = Some h, pi_now = t\<rparr>) xs) s =
     foldl (\<lambda>s (h, t). probe_step cfg h t s) s xs"
  by (induction xs arbitrary: s) auto

lemma run_one_stops:
  "pi_cancelled i \<or> pi_outcome i = None \<Longrightarrow>
   run_one_loop cfg (is @ i # js) s = run_one_loop cfg is s"
  by (induction "is" arbitrary: s) (auto split: option.splits)

lemma run_length_snoc:
  "run_length (rs @ [r]) = (if rs \<noteq> [] \<and> List.last rs = r then Suc (run_length rs) else 1)"
  by (cases rs rule: rev_cases) (auto simp: run_length_def)

lemma probe_history_snoc:
  "probe_history cfg (xs @ [(h, t)]) = probe_history cfg xs @ recorded cfg (map fst xs @ [h]) t"
proof -
  have "map (\<lambda>i. recorded cfg (map fst (take (Suc i) (xs @ [(h, t)]))) (snd ((xs @ [(h, t)]) ! i))) [0..<length xs]
      = map (\<lambda>i. recorded cfg (map fst (take (Suc i) xs)) (snd (xs ! i))) [0..<length xs]"
    by (rule map_cong) (auto simp: nth_append)
  note eq = arg_cong [OF this, of concat]
  let ?f = "\<lambda>i. recorded cfg (map fst (take (Suc i) (xs @ [(h, t)]))) (snd ((xs @ [(h, t)]) ! i))"
  have "probe_history cfg (xs @ [(h, t)]) = concat (map ?f [0..<length xs]) @ ?f (length xs)"
    unfolding probe_history_def
    by (simp only: length_append_singleton upt_Suc_append [OF le0] map_append list.map
        concat_append concat.simps append_Nil2)
  also have "?f (length xs) = recorded cfg (map fst xs @ [h]) t" by simp
  finally show ?thesis using eq by (simp only: probe_history_def)
qed

definition counters_ok :: "bool list \<Rightarrow> probe_state \<Rightarrow> bool" where
  "counters_ok rs s \<longleftrightarrow>
     unat (ps_ok s) = (if rs \<noteq> [] \<and> List.last rs then min (run_length rs) (2 ^ 32 - 1) else 0)
     \<and> unat (ps_fail s) = (if rs \<noteq> [] \<and> \<not> List.last rs then min (run_length rs) (2 ^ 32 - 1) else 0)"

lemma counters_step:
  assumes "counters_ok rs s"
  shows "counters_ok (rs @ [h]) (probe_step cfg h t s)"
    and "ps_breaker (probe_step cfg h t s) = foldl observe (ps_breaker s) (recorded cfg (rs @ [h]) t)"
proof -
  let ?s = "probe_step cfg h t s"
  have ok: "unat (saturating_add (ps_ok s) 1) = min (run_length (rs @ [h])) (2 ^ 32 - 1)" if h
    using assms that by (auto simp: counters_ok_def unat_saturating_add run_length_snoc min_def)
  have fail: "unat (saturating_add (ps_fail s) 1) = min (run_length (rs @ [h])) (2 ^ 32 - 1)" if "\<not> h"
    using assms that by (auto simp: counters_ok_def unat_saturating_add run_length_snoc min_def)
  have th: "unat w \<le> min n (2 ^ 32 - 1) \<longleftrightarrow> unat w \<le> n" for w :: u32 and n
    using unat_bound [of w] by auto
  show "counters_ok (rs @ [h]) ?s"
    using ok fail by (auto simp: counters_ok_def probe_step_def Let_def)
  show "ps_breaker ?s = foldl observe (ps_breaker s) (recorded cfg (rs @ [h]) t)"
    using ok fail th
    by (auto simp: probe_step_def recorded_def Let_def word_le_nat_alt)
qed

lemma probe_steps_history:
  "counters_ok (map fst xs) (foldl (\<lambda>s (h, t). probe_step cfg h t s) \<lparr>ps_fail = 0, ps_ok = 0, ps_breaker = b\<rparr> xs)
   \<and> ps_breaker (foldl (\<lambda>s (h, t). probe_step cfg h t s) \<lparr>ps_fail = 0, ps_ok = 0, ps_breaker = b\<rparr> xs)
       = foldl observe b (probe_history cfg xs)"
proof (induction xs rule: rev_induct)
  case Nil
  show ?case by (simp add: counters_ok_def probe_history_def)
next
  case (snoc x xs)
  obtain h t where x: "x = (h, t)" by (cases x)
  from snoc x show ?case
    using counters_step [of "map fst xs"] by (simp add: probe_history_snoc)
qed

lemma run_length_constant: "rs \<noteq> [] \<Longrightarrow> \<forall>r\<in>set rs. r = c \<Longrightarrow> run_length rs = length rs"
proof -
  assume rs: "rs \<noteq> []" "\<forall>r\<in>set rs. r = c"
  then have "\<forall>x\<in>set rs. x = List.last rs" using last_in_set by metis
  then have "takeWhile (\<lambda>r. r = List.last rs) (rev rs) = rev rs" by simp
  then show ?thesis unfolding run_length_def by (simp only: length_rev)
qed

lemma probe_history_failures:
  "probe_history cfg (map (Pair False) ts) = map Failure (drop (unat (pc_unhealthy_threshold cfg) - 1) ts)"
proof (induction ts rule: rev_induct)
  case (snoc t ts)
  have "run_length (map (\<lambda>_. False) ts @ [False]) = Suc (length ts)"
    using run_length_constant [of "map (\<lambda>_. False) ts @ [False]" False] by auto
  with snoc show ?case
    by (auto simp: probe_history_snoc recorded_def comp_def drop_append)
qed (simp add: probe_history_def)

lemma sleep_loop_sum:
  "(\<forall>s\<in>set (sleep_loop c k r). 0 < s \<and> s \<le> from_millis 250)
   \<and> sum_list (sleep_loop c k r) \<le> r
   \<and> ((\<forall>j. \<not> c j) \<longrightarrow> sum_list (sleep_loop c k r) = r)
   \<and> (\<forall>j\<ge>k. c j \<longrightarrow> length (sleep_loop c k r) \<le> j - k)"
proof (induction c k r rule: sleep_loop.induct)
  case (1 c k r)
  show ?case
  proof (cases "\<not> c k \<and> r \<noteq> 0")
    case True
    let ?s = "min (from_millis 250) r"
    have pos: "0 < ?s" using True by (simp add: from_millis_def)
    define rest where "rest = sleep_loop c (k + 1) (r - ?s)"
    have IH: "\<forall>s\<in>set rest. 0 < s \<and> s \<le> from_millis 250" "sum_list rest \<le> r - ?s"
      "(\<forall>j. \<not> c j) \<longrightarrow> sum_list rest = r - ?s"
      "\<forall>j\<ge>k + 1. c j \<longrightarrow> length rest \<le> j - (k + 1)"
      using 1 [OF True refl] unfolding rest_def by blast+
    have step: "sleep_loop c k r = ?s # rest"
      unfolding rest_def sleep_loop.simps [of c k r] Let_def by (rule if_P [OF True])
    have "length (sleep_loop c k r) \<le> j - k" if "k \<le> j" "c j" for j
    proof -
      have "k + 1 \<le> j" using that True by (cases "k = j") auto
      with IH(4) that(2) have "length rest \<le> j - (k + 1)" by blast
      with step \<open>k + 1 \<le> j\<close> show ?thesis by simp
    qed
    moreover have "\<forall>s\<in>set (sleep_loop c k r). 0 < s \<and> s \<le> from_millis 250"
      unfolding step using IH(1) pos by simp
    moreover have "sum_list (sleep_loop c k r) \<le> r"
      and "(\<forall>j. \<not> c j) \<longrightarrow> sum_list (sleep_loop c k r) = r"
      unfolding step using IH(2,3) by simp_all
    ultimately show ?thesis by blast
  next
    case False
    then have nil: "sleep_loop c k r = []"
      unfolding sleep_loop.simps [of c k r] by (rule if_not_P)
    show ?thesis unfolding nil using False by auto
  qed
qed


subsection \<open>All tasks of a probe\<close>

lemma fold_updates_nth:
  "distinct is \<Longrightarrow> set is \<subseteq> {..<length xs} \<Longrightarrow> k < length xs \<Longrightarrow>
   foldl (\<lambda>xs i. xs[i := f i (xs ! i)]) xs is ! k = (if k \<in> set is then f k (xs ! k) else xs ! k)"
  by (induction "is" arbitrary: xs) (auto simp: nth_list_update)

lemma length_fold_updates: "length (foldl (\<lambda>xs i. xs[i := f i (xs ! i)]) xs is) = length xs"
  by (induction "is" arbitrary: xs) auto

text \<open>Every backend with a breaker gets the outcomes of its own probes, and only those.\<close>

lemma probe_run_nth:
  assumes "k < length (pb_breakers p)"
  shows "probe_run sched p ! k =
    (if k < length (pb_addrs p) then ps_breaker (run_one (pb_cfg p) (pb_breakers p ! k) (sched k))
     else pb_breakers p ! k)"
    and "length (probe_run sched p) = length (pb_breakers p)"
proof -
  let ?f = "\<lambda>i b. ps_breaker (run_one (pb_cfg p) b (sched i))"
  let ?is = "map fst (probe_tasks p)"
  have run: "probe_run sched p = foldl (\<lambda>bs i. bs[i := ?f i (bs ! i)]) (pb_breakers p) ?is"
    by (simp add: probe_run_def foldl_map split_def)
  have set: "set ?is = {i. i < length (pb_addrs p) \<and> i < length (pb_breakers p)}"
    by (force simp: probe_tasks_def enumerate_eq_zip set_zip)
  have "distinct ?is"
    by (auto simp: probe_tasks_def distinct_map inj_on_def enumerate_eq_zip set_zip
        intro!: distinct_filter distinct_zipI1)
  with set assms show "probe_run sched p ! k =
      (if k < length (pb_addrs p) then ps_breaker (run_one (pb_cfg p) (pb_breakers p ! k) (sched k))
       else pb_breakers p ! k)"
    unfolding run by (subst fold_updates_nth) auto
  show "length (probe_run sched p) = length (pb_breakers p)"
    unfolding run by (rule length_fold_updates)
qed

section \<open>Properties\<close>

text \<open>
  C37. The prober feeds the breaker exactly the outcomes its thresholds call for: after any
  sequence of completed probes, the breaker is the one that has seen, in order, a failure for
  each failed probe that is at least the \<open>unhealthy_threshold\<close>-th of its run and a success for
  each healthy probe that is at least the \<open>healthy_threshold\<close>-th of its run, and nothing else;
  a set cancellation flag or a probe that never returns ends the sequence.
\<close>

theorem probe_outcomes_recorded:
  "ps_breaker (run_one cfg b
     (map (\<lambda>(h, t). \<lparr>pi_cancelled = False, pi_outcome = Some h, pi_now = t\<rparr>) xs
      @ \<lparr>pi_cancelled = c, pi_outcome = (if c then r else None), pi_now = t'\<rparr> # rest))
   = foldl observe b (probe_history cfg xs)"
proof -
  let ?is = "map (\<lambda>(h, t). \<lparr>pi_cancelled = False, pi_outcome = Some h, pi_now = t\<rparr>) xs"
  have "run_one cfg b (?is @ \<lparr>pi_cancelled = c, pi_outcome = (if c then r else None), pi_now = t'\<rparr> # rest)
      = run_one cfg b ?is"
    unfolding run_one_def by (rule run_one_stops) simp
  then show ?thesis
    using probe_steps_history [of xs cfg b] by (simp add: run_one_def run_one_loop_steps)
qed

text \<open>
  C39. A backend that only fails its probes is ejected later than \<open>unhealthy_threshold\<close> says: a
  fresh breaker rejects after a run of failed probes only if the run has reached
  \<open>unhealthy_threshold\<close> plus the breaker's own threshold, minus one.
\<close>

theorem probes_eject_late:
  assumes "length ts < 2 ^ 32" and "1 \<le> unat (pc_unhealthy_threshold cfg)"
    and "breaker_check (ps_breaker (run_one cfg (breaker_new t0 bc)
           (map (\<lambda>t. \<lparr>pi_cancelled = False, pi_outcome = Some False, pi_now = t\<rparr>) ts))) now = Reject"
  shows "unat (pc_unhealthy_threshold cfg) + unat (bc_threshold bc) \<le> length ts + 1"
proof -
  let ?es = "map Failure (drop (unat (pc_unhealthy_threshold cfg) - 1) ts)"
  have is_eq: "map (\<lambda>t. \<lparr>pi_cancelled = False, pi_outcome = Some False, pi_now = t\<rparr>) ts =
      map (\<lambda>(h, t). \<lparr>pi_cancelled = False, pi_outcome = Some h, pi_now = t\<rparr>) (map (Pair False) ts)"
    by simp
  have "ps_breaker (run_one cfg (breaker_new t0 bc)
      (map (\<lambda>t. \<lparr>pi_cancelled = False, pi_outcome = Some False, pi_now = t\<rparr>) ts))
    = foldl observe (breaker_new t0 bc) ?es"
    using probe_steps_history [of "map (Pair False) ts" cfg "breaker_new t0 bc"]
    unfolding run_one_def is_eq run_one_loop_steps by (simp add: probe_history_failures)
  with assms(3) have rej: "breaker_check (foldl observe (breaker_new t0 bc) ?es) now = Reject" by simp
  have th: "bc_threshold bc \<noteq> 0"
  proof
    assume "bc_threshold bc = 0"
    with rej show False by (simp add: breaker_check_Reject_iff breaker_new_def observe_threshold)
  qed
  have len: "length ?es < 2 ^ 32" using assms(1) by simp
  have "unat (bc_threshold bc) \<le> failure_run ?es"
    using rej observe_history(1,4) [OF len th, of t0]
    by (simp add: breaker_check_Reject_iff word_le_nat_alt)
  also have "\<dots> \<le> length ts - (unat (pc_unhealthy_threshold cfg) - 1)"
    using failure_run_le [of ?es] by simp
  finally show ?thesis using assms(2) th unat_gt_0 [of "bc_threshold bc"] by linarith
qed

lemma probes_eject_late_witness:
  "breaker_check (ps_breaker (run_one
       \<lparr>pc_path = [], pc_interval = 1, pc_timeout = 1, pc_unhealthy_threshold = 2,
        pc_healthy_threshold = 1, pc_tls = None\<rparr>
       (breaker_new 0 \<lparr>bc_threshold = 1, bc_cooldown = 5000000\<rparr>)
       (map (\<lambda>t. \<lparr>pi_cancelled = False, pi_outcome = Some False, pi_now = t\<rparr>) [0, 0]))) 0 = Reject
   \<and> (2 :: nat) + 1 \<le> length [0 :: instant, 0] + 1"
proof -
  let ?cfg = "\<lparr>pc_path = [], pc_interval = 1, pc_timeout = 1, pc_unhealthy_threshold = 2,
        pc_healthy_threshold = 1, pc_tls = None\<rparr>"
  let ?bc = "\<lparr>bc_threshold = 1, bc_cooldown = 5000000\<rparr>"
  have "breaker_check (ps_breaker (run_one ?cfg (breaker_new 0 ?bc)
       (map (\<lambda>t. \<lparr>pi_cancelled = False, pi_outcome = Some False, pi_now = t\<rparr>) [0, 0]))) 0 = Reject"
    by (simp add: run_one_def probe_step_def saturating_add_def Let_def on_failure_def breaker_new_def
        breaker_check_def now_ms_def u64_or_max_def as_millis_def)
  with probes_eject_late [of "[0, 0]" ?cfg 0 ?bc 0] show ?thesis by simp
qed

text \<open>
  The pause between probes is the configured interval when nothing cancels it, is made of
  steps of at most 250 ms, and ends promptly: once the flag is set by the \<open>j\<close>-th test, at most
  \<open>j\<close> steps have been slept.
\<close>

theorem sleep_is_interruptible:
  "(\<forall>s\<in>set (sleep_loop cancelled 0 interval). 0 < s \<and> s \<le> from_millis 250)
   \<and> ((\<forall>j. \<not> cancelled j) \<longrightarrow> sum_list (sleep_loop cancelled 0 interval) = interval)
   \<and> (\<forall>j. cancelled j \<longrightarrow> length (sleep_loop cancelled 0 interval) \<le> j)
   \<and> sum_list (sleep_loop cancelled 0 interval) \<le> interval"
  using sleep_loop_sum [of cancelled 0 interval] by auto

lemma sleep_is_interruptible_witness:
  "sum_list (sleep_loop (\<lambda>_. False) 0 600000000) = 600000000
   \<and> length (sleep_loop (\<lambda>k. k = 1) 0 600000000) \<le> 1"
  using sleep_is_interruptible [of "\<lambda>_. False" 600000000]
    sleep_is_interruptible [of "\<lambda>k. k = 1" 600000000]
  by simp

text \<open>
  A probe counts as healthy exactly when the URL parses and the backend answers in time
  with a 2xx status whose body can be read; a probe whose response body never ends does not
  return, because only the wait for the response head is under the timeout.
\<close>

theorem probe_once_spec:
  "(probe_once parse_uri exchange scheme addr path timeout = Some True \<longleftrightarrow>
      (\<exists>uri status. parse_uri (probe_url scheme addr path) = Some uri
         \<and> exchange uri timeout = Responded status True \<and> 200 \<le> status \<and> status < 300))
   \<and> (probe_once parse_uri exchange scheme addr path timeout = None \<longleftrightarrow>
      (\<exists>uri status. parse_uri (probe_url scheme addr path) = Some uri
         \<and> exchange uri timeout = Responded status False))"
  by (auto simp: probe_once_def is_success_def split: option.splits probe_reply.splits)

end
