(* ===== verification/Conduit_Serve.thy ===== *)
theory Conduit_Serve
  imports Conduit_Config
begin

text \<open>
  \<^verbatim>\<open>conduit-io\<close>: binding the listeners once per worker, the accept loops, the drain after a
  shutdown and the report. Socket calls are the fields of \<open>net\<close>, indexed by the number of the
  socket; a panic is the value \<open>None\<close>. A worker is a single-threaded runtime, so its code
  between two awaits is one step of \<open>worker_step\<close>; the shutdown flag is set from outside. This is
  the backend of \<^verbatim>\<open>tokio_worker.rs\<close>; \<open>Conduit_Monoio\<close> has the other one.
\<close>

section \<open>Model\<close>

subsection \<open>Specification and errors\<close>

record serve_spec =
  sp_listeners :: "socket_addr list"
  sp_workers :: usize
  sp_cpu_affinity :: bool
  sp_shutdown_deadline :: duration
  sp_tcp_nodelay :: bool
  sp_backlog :: u32
  sp_uring_entries :: u32
  sp_poll_interval :: duration

definition serve_spec_new :: "socket_addr list \<Rightarrow> usize \<Rightarrow> serve_spec" where
  "serve_spec_new listeners workers =
     \<lparr>sp_listeners = listeners, sp_workers = workers, sp_cpu_affinity = True,
      sp_shutdown_deadline = from_secs 30, sp_tcp_nodelay = True, sp_backlog = 1024,
      sp_uring_entries = 1024, sp_poll_interval = from_millis 50\<rparr>"

datatype bind_error =
    NoListeners
  | BindFailed socket_addr string
  | ThreadSpawn string
  | TokioBackendUnimplemented

subsection \<open>Binding\<close>

datatype sock_call =
    SocketNew bool
  | SetNonblocking
  | SetReuseAddress
  | SetReusePort
  | SockBind socket_addr
  | SockListen nat

record net =
  net_call :: "nat \<Rightarrow> sock_call \<Rightarrow> string + unit"
  net_local_addr :: "nat \<Rightarrow> string + socket_addr"

definition is_ipv4 :: "socket_addr \<Rightarrow> bool" where
  "is_ipv4 addr = (case addr of SocketAddrV4 _ _ _ _ _ \<Rightarrow> True | SocketAddrV6 _ _ _ \<Rightarrow> False)"

text \<open>Calls in sequence, up to the first that fails.\<close>

fun calls :: "(sock_call \<Rightarrow> string + unit) \<Rightarrow> sock_call list \<Rightarrow> string + unit" where
  "calls os [] = Inr ()"
| "calls os (c # cs) = (case os c of Inl e \<Rightarrow> Inl e | Inr _ \<Rightarrow> calls os cs)"

text \<open>\<open>bind\<close> on a Unix host; the listener is the number of its socket.\<close>

definition bind_socket :: "net \<Rightarrow> nat \<Rightarrow> socket_addr \<Rightarrow> u32 \<Rightarrow> bool \<Rightarrow> string + nat" where
  "bind_socket N k addr backlog reuse_port =
     (case calls (net_call N k)
             ([SocketNew (is_ipv4 addr), SetNonblocking, SetReuseAddress]
              @ (if reuse_port then [SetReusePort] else []) @ [SockBind addr]) of
        Inl e \<Rightarrow> Inl e
      | Inr _ \<Rightarrow>
          if 2 ^ 31 \<le> unat backlog then Inl ''backlog overflows i32''
          else (case net_call N k (SockListen (unat backlog)) of Inl e \<Rightarrow> Inl e | Inr _ \<Rightarrow> Inr k))"

type_synonym shard = "(socket_addr \<times> nat) list"

text \<open>The inner loop of \<open>serve\<close>: one more socket on the resolved address per other worker.\<close>

fun bind_others ::
  "net \<Rightarrow> u32 \<Rightarrow> socket_addr \<Rightarrow> nat \<Rightarrow> shard list \<Rightarrow> bind_error + nat \<times> shard list" where
  "bind_others N backlog resolved k [] = Inr (k, [])"
| "bind_others N backlog resolved k (slot # slots) =
     (case bind_socket N k resolved backlog True of
        Inl e \<Rightarrow> Inl (BindFailed resolved e)
      | Inr l \<Rightarrow>
          (case bind_others N backlog resolved (Suc k) slots of
             Inl e \<Rightarrow> Inl e
           | Inr (k', slots') \<Rightarrow> Inr (k', (slot @ [(resolved, l)]) # slots')))"

fun bind_listeners ::
  "net \<Rightarrow> u32 \<Rightarrow> nat \<Rightarrow> shard list \<Rightarrow> socket_addr list \<Rightarrow> socket_addr list
   \<Rightarrow> (bind_error + shard list \<times> socket_addr list) option" where
  "bind_listeners N backlog k per_worker bound [] = Some (Inr (per_worker, bound))"
| "bind_listeners N backlog k per_worker bound (addr # addrs) =
     (case bind_socket N k addr backlog True of
        Inl e \<Rightarrow> Some (Inl (BindFailed addr e))
      | Inr first \<Rightarrow>
          (case net_local_addr N first of
             Inl e \<Rightarrow> Some (Inl (BindFailed addr e))
           | Inr resolved \<Rightarrow>
               (case per_worker of
                  [] \<Rightarrow> None
                | slot # slots \<Rightarrow>
                    (case bind_others N backlog resolved (Suc k) slots of
                       Inl e \<Rightarrow> Some (Inl e)
                     | Inr (k', slots') \<Rightarrow>
                         bind_listeners N backlog k' ((slot @ [(resolved, first)]) # slots')
                           (bound @ [resolved]) addrs))))"

fun spawn_workers :: "(nat \<Rightarrow> string + unit) \<Rightarrow> nat \<Rightarrow> shard list \<Rightarrow> bind_error + shard list" where
  "spawn_workers spawn idx [] = Inr []"
| "spawn_workers spawn idx (listeners # rest) =
     (case spawn idx of
        Inl e \<Rightarrow> Inl (ThreadSpawn e)
      | Inr _ \<Rightarrow>
          (case spawn_workers spawn (Suc idx) rest of
             Inl e \<Rightarrow> Inl e
           | Inr handles \<Rightarrow> Inr (listeners # handles)))"

record server =
  sr_workers :: "shard list"
  sr_flag :: bool
  sr_bound :: "socket_addr list"
  sr_started :: instant

definition serve ::
  "net \<Rightarrow> (nat \<Rightarrow> string + unit) \<Rightarrow> instant \<Rightarrow> serve_spec \<Rightarrow> (bind_error + server) option" where
  "serve N spawn now spec =
     (if sp_listeners spec = [] then Some (Inl NoListeners)
      else
        (let per_worker = replicate (unat (sp_workers spec)) [] in
         case bind_listeners N (sp_backlog spec) 0 per_worker [] (sp_listeners spec) of
           None \<Rightarrow> None
         | Some (Inl e) \<Rightarrow> Some (Inl e)
         | Some (Inr (per_worker, bound)) \<Rightarrow>
             (case spawn_workers spawn 0 per_worker of
                Inl e \<Rightarrow> Some (Inl e)
              | Inr handles \<Rightarrow>
                  Some (Inr \<lparr>sr_workers = handles, sr_flag = False, sr_bound = bound,
                             sr_started = now\<rparr>))))"

definition trigger_cancel :: "server \<Rightarrow> server" where
  "trigger_cancel s = s\<lparr>sr_flag := True\<rparr>"

subsection \<open>A worker\<close>

datatype loop_pc = AtCheck | InAccept | Exited

text \<open>\<open>Returned waited a c\<close>: the drain took \<open>waited\<close> and the counts were \<open>a\<close> and \<open>c\<close>.\<close>

datatype phase =
    Accepting
  | Draining instant
  | Returned duration u64 u64

text \<open>
  \<open>wk_inflight\<close> counts the connection tasks that run, \<open>wk_lost\<close> those that panicked: the
  runtime drops such a task before it bumps \<open>completed\<close>.
\<close>

record worker =
  wk_flag :: bool
  wk_loops :: "loop_pc list"
  wk_inflight :: nat
  wk_lost :: nat
  wk_accepted :: u64
  wk_completed :: u64
  wk_phase :: phase
  wk_now :: instant

definition running :: "worker \<Rightarrow> bool" where
  "running s = (case wk_phase s of Returned _ _ _ \<Rightarrow> False | _ \<Rightarrow> True)"

datatype event =
    Cancel
  | LoopBreak nat
  | LoopWait nat
  | LoopAccept nat
  | LoopIdle nat
  | TaskDone
  | TaskPanic
  | LoopsJoined
  | DrainWait
  | DrainEnd
  | Tick instant

definition drained :: "duration \<Rightarrow> instant \<Rightarrow> worker \<Rightarrow> bool" where
  "drained deadline start s \<longleftrightarrow>
     wk_accepted s = wk_completed s \<or> deadline \<le> wk_now s - start"

inductive worker_step :: "duration \<Rightarrow> worker \<Rightarrow> event \<Rightarrow> worker \<Rightarrow> bool" for deadline where
  cancel_flag: "worker_step deadline s Cancel (s\<lparr>wk_flag := True\<rparr>)"
| loop_break: "i < length (wk_loops s) \<Longrightarrow> wk_loops s ! i = AtCheck \<Longrightarrow> wk_flag s \<Longrightarrow>
    worker_step deadline s (LoopBreak i) (s\<lparr>wk_loops := (wk_loops s)[i := Exited]\<rparr>)"
| loop_wait: "i < length (wk_loops s) \<Longrightarrow> wk_loops s ! i = AtCheck \<Longrightarrow> \<not> wk_flag s \<Longrightarrow>
    worker_step deadline s (LoopWait i) (s\<lparr>wk_loops := (wk_loops s)[i := InAccept]\<rparr>)"
| loop_accept: "i < length (wk_loops s) \<Longrightarrow> wk_loops s ! i = InAccept \<Longrightarrow>
    worker_step deadline s (LoopAccept i)
      (s\<lparr>wk_loops := (wk_loops s)[i := AtCheck], wk_accepted := wk_accepted s + 1,
         wk_inflight := Suc (wk_inflight s)\<rparr>)"
| loop_idle: "i < length (wk_loops s) \<Longrightarrow> wk_loops s ! i = InAccept \<Longrightarrow>
    worker_step deadline s (LoopIdle i) (s\<lparr>wk_loops := (wk_loops s)[i := AtCheck]\<rparr>)"
| task_done: "running s \<Longrightarrow> wk_inflight s = Suc n \<Longrightarrow>
    worker_step deadline s TaskDone
      (s\<lparr>wk_inflight := n, wk_completed := wk_completed s + 1\<rparr>)"
| task_panic: "running s \<Longrightarrow> wk_inflight s = Suc n \<Longrightarrow>
    worker_step deadline s TaskPanic (s\<lparr>wk_inflight := n, wk_lost := Suc (wk_lost s)\<rparr>)"
| loops_joined: "wk_phase s = Accepting \<Longrightarrow> set (wk_loops s) \<subseteq> {Exited} \<Longrightarrow>
    worker_step deadline s LoopsJoined (s\<lparr>wk_phase := Draining (wk_now s)\<rparr>)"
| drain_wait: "wk_phase s = Draining start \<Longrightarrow> \<not> drained deadline start s \<Longrightarrow>
    worker_step deadline s DrainWait s"
| drain_end: "wk_phase s = Draining start \<Longrightarrow> drained deadline start s \<Longrightarrow>
    worker_step deadline s DrainEnd
      (s\<lparr>wk_phase := Returned (wk_now s - start) (wk_accepted s) (wk_completed s)\<rparr>)"
| tick: "wk_now s \<le> t \<Longrightarrow> worker_step deadline s (Tick t) (s\<lparr>wk_now := t\<rparr>)"

text \<open>A worker starts with one accept loop per listener.\<close>

definition worker_init :: "nat \<Rightarrow> worker \<Rightarrow> bool" where
  "worker_init n s \<longleftrightarrow>
     s = \<lparr>wk_flag = wk_flag s, wk_loops = replicate n AtCheck, wk_inflight = 0, wk_lost = 0,
          wk_accepted = 0, wk_completed = 0, wk_phase = Accepting, wk_now = wk_now s\<rparr>"

inductive worker_run :: "duration \<Rightarrow> worker \<Rightarrow> event list \<Rightarrow> worker \<Rightarrow> bool" for deadline where
  run_nil: "worker_run deadline s [] s"
| run_cons: "worker_step deadline s e s' \<Longrightarrow> worker_run deadline s' es s'' \<Longrightarrow>
    worker_run deadline s (e # es) s''"

subsection \<open>The report\<close>

record shutdown_report =
  sh_accepted :: u64
  sh_completed :: u64
  sh_elapsed :: duration

text \<open>What a worker's thread hands back when it is joined.\<close>

definition worker_counts_of :: "worker \<Rightarrow> (u64 \<times> u64) option" where
  "worker_counts_of s = (case wk_phase s of Returned _ a c \<Rightarrow> Some (a, c) | _ \<Rightarrow> None)"

text \<open>
  \<open>Server::wait\<close> on the counts of the joined workers, \<open>None\<close> for a worker that panicked.
\<close>

definition wait_tokio :: "instant \<Rightarrow> instant \<Rightarrow> (u64 \<times> u64) option list \<Rightarrow> shutdown_report" where
  "wait_tokio started now joined =
     (let totals = foldl (\<lambda>(a, c) w. case (case w of None \<Rightarrow> (0, 0) | Some p \<Rightarrow> p) of
                            (a', c') \<Rightarrow> (saturating_add a a', saturating_add c c')) (0, 0) joined in
      \<lparr>sh_accepted = fst totals, sh_completed = snd totals, sh_elapsed = now - started\<rparr>)"

section \<open>Lemmas\<close>

subsection \<open>Binding\<close>

lemma bind_socket_Inr: "bind_socket N k addr backlog rp = Inr l \<Longrightarrow> l = k"
  by (auto simp: bind_socket_def split: sum.splits if_splits)

text \<open>Each other worker gets one socket more, numbered upwards from \<open>k\<close>.\<close>

lemma bind_others_Inr:
  assumes "bind_others N backlog resolved k slots = Inr (k', slots')"
  shows "k' = k + length slots \<and> slots' = map (\<lambda>(j, slot). slot @ [(resolved, j)]) (enumerate k slots)"
  using assms
  by (induction slots arbitrary: k k' slots') (force split: sum.splits dest: bind_socket_Inr)+

text \<open>What the workers hold after some addresses: address \<open>i\<close> of worker \<open>w\<close> is socket \<open>n * i + w\<close>.\<close>

definition sharded :: "nat \<Rightarrow> socket_addr list \<Rightarrow> shard list \<Rightarrow> bool" where
  "sharded n bound per_worker \<longleftrightarrow>
     per_worker = map (\<lambda>w. map (\<lambda>i. (bound ! i, n * i + w)) [0..<length bound]) [0..<n]"

lemma sharded_snoc:
  assumes "sharded n bound (slot # slots)" and "n = Suc (length slots)"
  shows "sharded n (bound @ [r]) (map (\<lambda>(j, s). s @ [(r, j)]) (enumerate (n * length bound) (slot # slots)))"
  unfolding sharded_def
proof (rule nth_equalityI)
  fix w
  assume "w < length (map (\<lambda>(j, s). s @ [(r, j)]) (enumerate (n * length bound) (slot # slots)))"
  then have w: "w < n" using assms(2) by simp
  then have "(slot # slots) ! w = map (\<lambda>i. (bound ! i, n * i + w)) [0..<length bound]"
    using assms(1) by (simp add: sharded_def)
  then show "map (\<lambda>(j, s). s @ [(r, j)]) (enumerate (n * length bound) (slot # slots)) ! w =
      map (\<lambda>w. map (\<lambda>i. ((bound @ [r]) ! i, n * i + w)) [0..<length (bound @ [r])]) [0..<n] ! w"
    using w assms(2) by (simp add: nth_enumerate_eq nth_append del: enumerate_simps)
qed (simp add: assms(2))

lemma bind_listeners_Inr:
  assumes "bind_listeners N backlog (n * length bound) per_worker bound addrs = Some (Inr (pw, bound'))"
    and "sharded n bound per_worker" and "0 < n"
  shows "sharded n bound' pw \<and> length bound' = length bound + length addrs"
  using assms
proof (induction addrs arbitrary: per_worker bound)
  case (Cons addr addrs)
  have "length per_worker = n" using Cons.prems(2) by (simp add: sharded_def)
  then obtain slot slots where pw: "per_worker = slot # slots" and n: "n = Suc (length slots)"
    using Cons.prems(3) by (cases per_worker) auto
  let ?k = "n * length bound"
  from Cons.prems(1) pw obtain resolved k' slots' where
    bo: "bind_others N backlog resolved (Suc ?k) slots = Inr (k', slots')"
    and bl: "bind_listeners N backlog k' ((slot @ [(resolved, ?k)]) # slots') (bound @ [resolved]) addrs
      = Some (Inr (pw, bound'))"
    by (auto split: sum.splits dest: bind_socket_Inr)
  have "k' = n * length (bound @ [resolved])"
    and "(slot @ [(resolved, ?k)]) # slots' = map (\<lambda>(j, s). s @ [(resolved, j)]) (enumerate ?k (slot # slots))"
    using bind_others_Inr [OF bo] n by simp_all
  with bl have "sharded n bound' pw \<and> length bound' = length (bound @ [resolved]) + length addrs"
    using sharded_snoc [of n bound slot slots resolved] Cons.prems(2,3) n pw by (intro Cons.IH) simp_all
  then show ?case by simp
qed simp

lemma bind_listeners_total [no_panic]:
  "per_worker \<noteq> [] \<Longrightarrow> bind_listeners N backlog k per_worker bound addrs \<noteq> None"
  by (induction addrs arbitrary: k per_worker bound) (auto split: sum.splits list.splits)

lemma serve_total [no_panic]:
  assumes "sp_workers spec \<noteq> 0"
  shows "serve N spawn now spec \<noteq> None"
proof -
  have "replicate (unat (sp_workers spec)) [] \<noteq> []" using assms by (simp add: unat_eq_0)
  from bind_listeners_total [OF this, of N "sp_backlog spec" 0 "[]" "sp_listeners spec"] show ?thesis
    by (auto simp: serve_def Let_def split: option.splits sum.splits)
qed

lemma spawn_workers_Inr: "spawn_workers spawn idx ws = Inr hs \<Longrightarrow> hs = ws"
  by (induction ws arbitrary: idx hs) (auto split: sum.splits)

lemma sharded_sockets:
  assumes "sharded n bound ws"
  shows "length ws = n" and "\<And>w. w < n \<Longrightarrow> map fst (ws ! w) = bound"
    and "\<And>v w. v < n \<Longrightarrow> w < n \<Longrightarrow> v \<noteq> w \<Longrightarrow> snd ` set (ws ! v) \<inter> snd ` set (ws ! w) = {}"
proof -
  show "length ws = n" using assms by (simp add: sharded_def)
  show "map fst (ws ! w) = bound" if "w < n" for w
    using assms that by (simp add: sharded_def o_def map_nth)
  fix v w
  assume vw: "v < n" "w < n" "v \<noteq> w"
  have "n * i + v \<noteq> n * j + w" for i j
    using vw by (metis mod_mult_self4 mod_less)
  with vw assms show "snd ` set (ws ! v) \<inter> snd ` set (ws ! w) = {}"
    by (auto simp: sharded_def image_image)
qed

subsection \<open>Workers\<close>

text \<open>The counters account for every connection; only a set flag ends an accept loop.\<close>

fun phase_ok :: "duration \<Rightarrow> worker \<Rightarrow> phase \<Rightarrow> bool" where
  "phase_ok deadline s Accepting = True"
| "phase_ok deadline s (Draining start) = (set (wk_loops s) \<subseteq> {Exited} \<and> start \<le> wk_now s)"
| "phase_ok deadline s (Returned waited a c) =
     (set (wk_loops s) \<subseteq> {Exited} \<and> a = wk_accepted s \<and> c = wk_completed s
      \<and> (a = c \<or> deadline \<le> waited))"

definition worker_inv :: "nat \<Rightarrow> duration \<Rightarrow> worker \<Rightarrow> bool" where
  "worker_inv n deadline s \<longleftrightarrow>
     length (wk_loops s) = n
     \<and> wk_accepted s = wk_completed s + of_nat (wk_inflight s + wk_lost s)
     \<and> (Exited \<in> set (wk_loops s) \<longrightarrow> wk_flag s)
     \<and> phase_ok deadline s (wk_phase s)"

lemma exited_nth: "set ls \<subseteq> {Exited} \<Longrightarrow> i < length ls \<Longrightarrow> ls ! i = Exited"
  by (metis nth_mem singletonD subsetD)

lemma live_loop_accepting:
  "worker_inv n deadline s \<Longrightarrow> i < length (wk_loops s) \<Longrightarrow> wk_loops s ! i \<noteq> Exited \<Longrightarrow>
   wk_phase s = Accepting"
  by (cases "wk_phase s") (auto simp: worker_inv_def dest: exited_nth)

lemma set_updateD: "x \<in> set (xs[i := y]) \<Longrightarrow> x = y \<or> x \<in> set xs"
  using set_update_subset_insert by fastforce

lemma worker_step_inv:
  assumes "worker_step deadline s e s'" and inv: "worker_inv n deadline s"
  shows "worker_inv n deadline s'"
  using assms(1)
proof cases
  case (task_done m)
  then show ?thesis using inv by (auto simp: worker_inv_def running_def split: phase.splits)
next
  case (task_panic m)
  then show ?thesis using inv by (auto simp: worker_inv_def running_def split: phase.splits)
next
  case cancel_flag
  then show ?thesis using inv by (cases "wk_phase s") (auto simp: worker_inv_def)
next
  case (tick t)
  then show ?thesis using inv by (cases "wk_phase s") (auto simp: worker_inv_def)
qed (use inv live_loop_accepting [OF inv] in
    \<open>auto simp: worker_inv_def drained_def dest!: set_updateD\<close>)

interpretation worker_life: inductive_invariant "worker_init n"
  "\<lambda>s s'. \<exists>e. worker_step deadline s e s'" "worker_inv n deadline" for n deadline
proof
  fix s s'
  show "worker_init n s \<Longrightarrow> worker_inv n deadline s"
    by (subst (asm) worker_init_def, erule ssubst) (auto simp: worker_inv_def)
  show "worker_inv n deadline s \<Longrightarrow> \<exists>e. worker_step deadline s e s' \<Longrightarrow> worker_inv n deadline s'"
    using worker_step_inv by blast
qed

subsection \<open>Runs\<close>

definition accepts :: "event list \<Rightarrow> nat" where
  "accepts es = length (filter (\<lambda>e. case e of LoopAccept _ \<Rightarrow> True | _ \<Rightarrow> False) es)"

definition waiting :: "worker \<Rightarrow> nat" where
  "waiting s = length (filter (\<lambda>l. l = InAccept) (wk_loops s))"

lemma count_update:
  "i < length xs \<Longrightarrow>
   length (filter P (xs[i := y])) + (if P (xs ! i) then 1 else 0) = length (filter P xs) + (if P y then 1 else 0)"
proof (induction xs arbitrary: i)
  case (Cons x xs)
  then show ?case by (cases i) auto
qed simp

lemma waiting_step:
  assumes "worker_step deadline s e s'" "wk_flag s"
  shows "accepts [e] + waiting s' \<le> waiting s \<and> wk_flag s'"
proof -
  note upd = count_update [of _ "wk_loops s" "\<lambda>l. l = InAccept"]
  from assms show ?thesis
  proof cases
    case (loop_break i)
    then show ?thesis using upd [of i Exited] by (auto simp: accepts_def waiting_def)
  next
    case (loop_accept i)
    then show ?thesis using upd [of i AtCheck] assms(2) by (auto simp: accepts_def waiting_def)
  next
    case (loop_idle i)
    then show ?thesis using upd [of i AtCheck] assms(2) by (auto simp: accepts_def waiting_def)
  qed (auto simp: accepts_def waiting_def)
qed

lemma accepts_Cons: "accepts (e # es) = accepts [e] + accepts es"
  by (simp add: accepts_def)

lemma worker_run_append:
  "worker_run deadline s es s' \<Longrightarrow> worker_run deadline s' es' s'' \<Longrightarrow> worker_run deadline s (es @ es') s''"
  by (induction rule: worker_run.induct) (auto intro: worker_run.intros)

text \<open>With the flag set every accept loop can finish, without another connection.\<close>

definition loop_work :: "worker \<Rightarrow> nat" where
  "loop_work s = length (filter (\<lambda>l. l = InAccept) (wk_loops s))
                 + length (filter (\<lambda>l. l \<noteq> Exited) (wk_loops s))"

lemma loops_finish:
  assumes "wk_flag s"
  shows "\<exists>es s'. worker_run deadline s es s' \<and> set (wk_loops s') \<subseteq> {Exited}
    \<and> s' = s\<lparr>wk_loops := wk_loops s'\<rparr>"
  using assms
proof (induction "loop_work s" arbitrary: s rule: less_induct)
  case less
  show ?case
  proof (cases "set (wk_loops s) \<subseteq> {Exited}")
    case True
    then show ?thesis by (intro exI [of _ "[]"] exI [of _ s]) (auto intro: run_nil)
  next
    case False
    then obtain i where i: "i < length (wk_loops s)" "wk_loops s ! i \<noteq> Exited"
      by (metis in_set_conv_nth singletonI subsetI)
    define l where "l = (if wk_loops s ! i = InAccept then AtCheck else Exited)"
    let ?s = "s\<lparr>wk_loops := (wk_loops s)[i := l]\<rparr>"
    obtain e where e: "worker_step deadline s e ?s"
      using i less.prems loop_idle [of i s deadline] loop_break [of i s deadline]
      by (cases "wk_loops s ! i") (auto simp: l_def)
    have "loop_work ?s < loop_work s"
      using i count_update [OF i(1), of "\<lambda>l. l = InAccept" l] count_update [OF i(1), of "\<lambda>l. l \<noteq> Exited" l]
      by (cases "wk_loops s ! i") (auto simp: loop_work_def l_def split: if_splits)
    from less.hyps [OF this] less.prems obtain es s' where
      "worker_run deadline ?s es s'" "set (wk_loops s') \<subseteq> {Exited}" "s' = ?s\<lparr>wk_loops := wk_loops s'\<rparr>"
      by auto
    with e show ?thesis by (intro exI [of _ "e # es"] exI [of _ s']) (auto intro: run_cons)
  qed
qed

lemma drain_finish:
  assumes "wk_phase s = Draining start"
  shows "\<exists>es s'. worker_run deadline s es s' \<and> \<not> running s'"
proof -
  let ?t = "s\<lparr>wk_now := max (wk_now s) (start + deadline)\<rparr>"
  let ?u = "?t\<lparr>wk_phase := Returned (wk_now ?t - start) (wk_accepted ?t) (wk_completed ?t)\<rparr>"
  have t: "worker_step deadline s (Tick (max (wk_now s) (start + deadline))) ?t" by (rule tick) simp
  have u: "worker_step deadline ?t DrainEnd ?u"
    by (rule drain_end) (auto simp: assms drained_def)
  have "\<not> running ?u" by (simp add: running_def)
  with run_cons [OF t run_cons [OF u run_nil]] show ?thesis by blast
qed

lemma wait_tokio_sums:
  fixes a c :: u64
  assumes "\<And>p. Some p \<in> set joined \<Longrightarrow> unat (snd p) \<le> unat (fst p)"
    and "A + sum_list (map (\<lambda>w. case w of None \<Rightarrow> 0 | Some p \<Rightarrow> unat (fst p)) joined) < 2 ^ 64"
    and "unat a = A" "unat c = C" "C \<le> A"
  shows "foldl (\<lambda>(a, c) w. case (case w of None \<Rightarrow> (0, 0) | Some p \<Rightarrow> p) of
            (a', c') \<Rightarrow> (saturating_add a a', saturating_add c c')) (a, c) joined
     = (of_nat (A + sum_list (map (\<lambda>w. case w of None \<Rightarrow> 0 | Some p \<Rightarrow> unat (fst p)) joined)),
        of_nat (C + sum_list (map (\<lambda>w. case w of None \<Rightarrow> 0 | Some p \<Rightarrow> unat (snd p)) joined)) :: u64)"
  using assms
proof (induction joined arbitrary: a c A C)
  case (Cons w joined)
  define a' c' where ac: "a' = (case w of None \<Rightarrow> 0 | Some p \<Rightarrow> fst p)"
    "c' = (case w of None \<Rightarrow> 0 | Some p \<Rightarrow> snd p)"
  have le: "unat c' \<le> unat a'" using Cons.prems(1) by (auto simp: ac split: option.splits)
  have fit: "A + unat a' + sum_list (map (\<lambda>w. case w of None \<Rightarrow> 0 | Some p \<Rightarrow> unat (fst p)) joined) < 2 ^ 64"
    using Cons.prems(2) by (auto simp: ac split: option.splits)
  have "unat (saturating_add a a') = A + unat a'" "unat (saturating_add c c') = C + unat c'"
    using fit le Cons.prems(3-5) by (simp_all add: unat_saturating_add)
  from Cons.IH [OF Cons.prems(1) fit this] le Cons.prems(5)
  show ?case by (cases w) (auto simp: ac add.assoc split: prod.splits)
qed (auto simp flip: word_unat_eq_iff)

lemma worker_run_steps:
  "worker_run deadline s es s' \<Longrightarrow> (\<lambda>s s'. \<exists>e. worker_step deadline s e s')\<^sup>*\<^sup>* s s'"
  by (induction rule: worker_run.induct) (auto intro: converse_rtranclp_into_rtranclp)

lemma worker_run_inv: "worker_init n s0 \<Longrightarrow> worker_run deadline s0 es s \<Longrightarrow> worker_inv n deadline s"
  using worker_life.reachable_inv worker_run_steps by blast

lemma sum_le_eq_iff:
  fixes f g :: "'a \<Rightarrow> nat"
  assumes "\<And>x. x \<in> set xs \<Longrightarrow> g x \<le> f x"
  shows "sum_list (map g xs) \<le> sum_list (map f xs)"
    and "sum_list (map f xs) = sum_list (map g xs) \<longleftrightarrow> (\<forall>x\<in>set xs. f x = g x)"
proof -
  show le: "sum_list (map g xs) \<le> sum_list (map f xs)"
    using assms by (simp add: sum_list_mono)
  show "sum_list (map f xs) = sum_list (map g xs) \<longleftrightarrow> (\<forall>x\<in>set xs. f x = g x)"
    using assms
  proof (induction xs)
    case (Cons x xs)
    have "sum_list (map g xs) \<le> sum_list (map f xs)"
      using Cons.prems by (simp add: sum_list_mono)
    with Cons show ?case by fastforce
  qed simp
qed

lemma worker_steps_run:
  "(\<lambda>s s'. \<exists>e. worker_step deadline s e s')\<^sup>*\<^sup>* s s' \<Longrightarrow> \<exists>es. worker_run deadline s es s'"
  by (induction rule: converse_rtranclp_induct) (blast intro: worker_run.intros)+

text \<open>
  The counters as numbers: every accepted connection completed, runs or was lost, so below
  \<open>2 ^ 64\<close> accepted connections nothing wraps.
\<close>

definition completions :: "event list \<Rightarrow> nat" where
  "completions es = length (filter (\<lambda>e. e = TaskDone) es)"

lemma completions_Cons: "completions (e # es) = completions [e] + completions es"
  by (simp add: completions_def)

lemma worker_run_accounts:
  "worker_run deadline s es s' \<Longrightarrow>
   completions es + wk_inflight s' + wk_lost s' = wk_inflight s + wk_lost s + accepts es
   \<and> wk_accepted s' = wk_accepted s + of_nat (accepts es)
   \<and> wk_completed s' = wk_completed s + of_nat (completions es)"
proof (induction rule: worker_run.induct)
  case (run_cons s e s' es s'')
  from run_cons.hyps(1)
  have "completions [e] + wk_inflight s' + wk_lost s' = wk_inflight s + wk_lost s + accepts [e]
    \<and> wk_accepted s' = wk_accepted s + of_nat (accepts [e])
    \<and> wk_completed s' = wk_completed s + of_nat (completions [e])"
    by cases (simp_all add: completions_def accepts_def)
  with run_cons.IH show ?case
    by (simp add: accepts_Cons [of e es] completions_Cons [of e es])
qed (simp add: completions_def accepts_def)

lemma worker_counts:
  assumes "worker_init n s0" "worker_run deadline s0 es s" "accepts es < 2 ^ 64"
  shows "unat (wk_accepted s) = accepts es"
    and "unat (wk_completed s) + wk_inflight s + wk_lost s = accepts es"
proof -
  note acc = worker_run_accounts [OF assms(2)]
  have init: "wk_inflight s0 = 0" "wk_lost s0 = 0" "wk_accepted s0 = 0" "wk_completed s0 = 0"
    using assms(1) unfolding worker_init_def by (metis worker.select_convs)+
  with acc assms(3) have "completions es < 2 ^ 64" by linarith
  with acc init assms(3) show "unat (wk_accepted s) = accepts es"
    and "unat (wk_completed s) + wk_inflight s + wk_lost s = accepts es"
    by (simp_all add: unat_of_nat take_bit_nat_eq_self)
qed

text \<open>What a worker's counts mean once it has returned.\<close>

lemma returned_exact:
  assumes inv: "worker_inv n deadline s"
    and ret: "wk_phase s = Returned waited a c" and fits: "wk_inflight s + wk_lost s < 2 ^ 64"
  shows "(n \<noteq> 0 \<longrightarrow> wk_flag s) \<and> (a \<noteq> c \<longrightarrow> deadline \<le> waited)
    \<and> (a = c \<longleftrightarrow> wk_inflight s = 0 \<and> wk_lost s = 0)"
proof -
  have "n \<noteq> 0 \<Longrightarrow> wk_flag s"
    using inv ret exited_nth [of "wk_loops s" 0] nth_mem [of 0 "wk_loops s"]
    by (auto simp: worker_inv_def)
  moreover have "of_nat (wk_inflight s + wk_lost s) = (0 :: u64) \<longleftrightarrow> wk_inflight s + wk_lost s = 0"
    using fits of_nat_inverse [of "wk_inflight s + wk_lost s" "0 :: u64"] by auto
  ultimately show ?thesis using inv ret by (auto simp: worker_inv_def)
qed

subsection \<open>Runs for the witnesses\<close>

definition idle_worker :: "nat \<Rightarrow> worker" where
  "idle_worker n =
     \<lparr>wk_flag = False, wk_loops = replicate n AtCheck, wk_inflight = 0, wk_lost = 0,
      wk_accepted = 0, wk_completed = 0, wk_phase = Accepting, wk_now = 0\<rparr>"

lemma idle_worker_init: "worker_init n (idle_worker n)"
  by (simp add: worker_init_def idle_worker_def)

lemma replicate_2: "replicate 2 x = [x, x]"
  by (simp add: numeral_2_eq_2)

text \<open>One connection is accepted, the flag is set, and the drain waits it out.\<close>

lemma sample_run:
  "worker_run 5 (idle_worker 1)
     [LoopWait 0, LoopAccept 0, Cancel, LoopBreak 0, LoopsJoined, DrainWait, Tick 5, DrainEnd]
     \<lparr>wk_flag = True, wk_loops = [Exited], wk_inflight = 1, wk_lost = 0,
      wk_accepted = 1, wk_completed = 0, wk_phase = Returned 5 1 0, wk_now = 5\<rparr>"
  unfolding idle_worker_def
  by (rule run_cons, rule loop_wait, simp, simp, simp,
      rule run_cons, rule loop_accept, simp, simp,
      rule run_cons, rule cancel_flag,
      rule run_cons, rule loop_break, simp, simp, simp,
      rule run_cons, rule loops_joined, simp, simp,
      rule run_cons, rule drain_wait, simp, simp add: drained_def,
      rule run_cons, rule tick, simp,
      rule run_cons, rule drain_end, simp, simp add: drained_def, simp add: run_nil)

definition loopback :: net where
  "loopback = \<lparr>net_call = (\<lambda>k c. Inr ()), net_local_addr = (\<lambda>k. Inr (SocketAddrV4 127 0 0 1 8080))\<rparr>"

section \<open>Properties\<close>

text \<open>
  Binding: for a positive worker count \<open>serve\<close> never panics, and a server it returns has
  one shard per worker, each listening on every resolved address in the configured order, no
  socket shared between two workers, with the shutdown flag clear.
\<close>

theorem serve_shards:
  assumes "sp_workers spec \<noteq> 0"
  shows "\<exists>r. serve N spawn now spec = Some r \<and>
    (\<forall>srv. r = Inr srv \<longrightarrow>
       length (sr_workers srv) = unat (sp_workers spec)
       \<and> length (sr_bound srv) = length (sp_listeners spec)
       \<and> (\<forall>w < length (sr_workers srv). map fst (sr_workers srv ! w) = sr_bound srv)
       \<and> (\<forall>v < length (sr_workers srv). \<forall>w < length (sr_workers srv). v \<noteq> w \<longrightarrow>
            snd ` set (sr_workers srv ! v) \<inter> snd ` set (sr_workers srv ! w) = {})
       \<and> \<not> sr_flag srv)"
proof -
  let ?n = "unat (sp_workers spec)"
  have n: "0 < ?n" using assms by (simp add: unat_gt_0)
  have "sharded ?n [] (replicate ?n [])" by (simp add: sharded_def map_replicate_const)
  note bound = bind_listeners_Inr [where bound = "[]", simplified, OF _ this n]
  show ?thesis
  proof (cases "serve N spawn now spec")
    case None
    with serve_total [OF assms] show ?thesis by blast
  next
    case (Some r)
    have srv: "length (sr_bound srv) = length (sp_listeners spec)
        \<and> sharded ?n (sr_bound srv) (sr_workers srv) \<and> \<not> sr_flag srv" if "r = Inr srv" for srv
      using Some that bound
      by (auto simp: serve_def Let_def dest!: spawn_workers_Inr
          split: if_splits option.splits sum.splits)
    show ?thesis
    proof (intro exI [of _ r] conjI allI impI)
      fix sv
      assume sv: "r = Inr sv"
      note shard = sharded_sockets [OF srv [OF sv, THEN conjunct2, THEN conjunct1]]
      show "length (sr_workers sv) = ?n" by (rule shard(1))
      show "map fst (sr_workers sv ! w) = sr_bound sv" if "w < length (sr_workers sv)" for w
        using shard that by simp
      show "snd ` set (sr_workers sv ! v) \<inter> snd ` set (sr_workers sv ! w) = {}"
        if "v < length (sr_workers sv)" "w < length (sr_workers sv)" "v \<noteq> w" for v w
        using shard that by simp
    qed (use Some srv in auto)
  qed
qed

theorem serve_shards_witness:
  "\<exists>srv. serve loopback (\<lambda>_. Inr ()) 0 (serve_spec_new [SocketAddrV4 127 0 0 1 0] 2) = Some (Inr srv)
     \<and> length (sr_workers srv) = 2 \<and> map fst (sr_workers srv ! 1) = sr_bound srv"
proof -
  let ?r = "serve loopback (\<lambda>_. Inr ()) 0 (serve_spec_new [SocketAddrV4 127 0 0 1 0] 2)"
  obtain srv where srv: "?r = Some (Inr srv)"
    by (simp add: serve_def serve_spec_new_def loopback_def bind_socket_def replicate_2)
  with serve_shards [of "serve_spec_new [SocketAddrV4 127 0 0 1 0] 2" loopback "\<lambda>_. Inr ()" 0]
  have "length (sr_workers srv) = 2 \<and> map fst (sr_workers srv ! 1) = sr_bound srv"
    by (auto simp: serve_spec_new_def)
  with srv show ?thesis by blast
qed

text \<open>
  C9. What a worker reports: it returns only after the shutdown flag was set (if it had a
  listener), the reported counts differ only if the drain lasted the whole deadline, and they
  are equal exactly when every connection ever accepted was handled to completion: none is
  cut off and no handler panicked.
\<close>

theorem worker_report_exact:
  assumes "worker_init n s0" and "worker_run deadline s0 es s"
    and "wk_phase s = Returned waited a c" and "wk_inflight s + wk_lost s < 2 ^ 64"
  shows "(n \<noteq> 0 \<longrightarrow> wk_flag s) \<and> (a \<noteq> c \<longrightarrow> deadline \<le> waited)
    \<and> (a = c \<longleftrightarrow> wk_inflight s = 0 \<and> wk_lost s = 0)"
  by (rule returned_exact [OF worker_run_inv [OF assms(1,2)] assms(3,4)])

theorem worker_report_exact_witness:
  "\<exists>s. worker_run 5 (idle_worker 1)
     [LoopWait 0, LoopAccept 0, Cancel, LoopBreak 0, LoopsJoined, DrainWait, Tick 5, DrainEnd] s
   \<and> wk_phase s = Returned 5 1 0 \<and> wk_flag s"
  using sample_run worker_report_exact [OF idle_worker_init sample_run] by fastforce

text \<open>
  After shutdown is requested a worker accepts at most the connections its loops were
  already waiting for, one per listener.
\<close>

theorem accepts_after_cancel:
  assumes "wk_flag s" and "worker_run deadline s es s'"
  shows "accepts es \<le> waiting s \<and> waiting s \<le> length (wk_loops s)"
proof -
  from assms(2,1) have "accepts es + waiting s' \<le> waiting s"
  proof (induction rule: worker_run.induct)
    case (run_cons s e s' es s'')
    with waiting_step [of deadline s e s'] show ?case by (simp add: accepts_Cons [of e es])
  qed (simp add: accepts_def)
  then show ?thesis by (simp add: waiting_def length_filter_le)
qed

theorem accepts_after_cancel_witness:
  "accepts [LoopAccept 0, LoopBreak 0] \<le> 1"
proof -
  let ?s = "(idle_worker 1)\<lparr>wk_flag := True, wk_loops := [InAccept]\<rparr>"
  have "worker_run 5 ?s [LoopAccept 0, LoopBreak 0]
      (?s\<lparr>wk_loops := [Exited], wk_accepted := 1, wk_inflight := 1\<rparr>)"
    by (rule run_cons, rule loop_accept, simp, simp, rule run_cons, rule loop_break,
        simp, simp, simp, simp add: idle_worker_def run_nil)
  from accepts_after_cancel [OF _ this] show ?thesis by (simp add: waiting_def)
qed

text \<open>
  Shutdown is never stuck: from every state a worker can be in once the flag is set, it
  can return, even if no connection task ever finishes.
\<close>

theorem worker_can_return:
  assumes "worker_init n s0" and "worker_run deadline s0 es s" and "wk_flag s"
  shows "\<exists>es' s'. worker_run deadline s es' s' \<and> \<not> running s'"
proof (cases "wk_phase s")
  case Accepting
  obtain es1 s1 where s1: "worker_run deadline s es1 s1" "set (wk_loops s1) \<subseteq> {Exited}"
    "s1 = s\<lparr>wk_loops := wk_loops s1\<rparr>"
    using loops_finish [OF assms(3)] by blast
  have "wk_phase s1 = Accepting" by (subst s1(3)) (simp add: Accepting)
  then have "worker_step deadline s1 LoopsJoined (s1\<lparr>wk_phase := Draining (wk_now s1)\<rparr>)"
    using s1(2) by (rule loops_joined)
  moreover obtain es2 s2 where "worker_run deadline (s1\<lparr>wk_phase := Draining (wk_now s1)\<rparr>) es2 s2" "\<not> running s2"
    using drain_finish [of "s1\<lparr>wk_phase := Draining (wk_now s1)\<rparr>" "wk_now s1" deadline] by auto
  ultimately show ?thesis using s1(1) by (blast intro: worker_run_append run_cons)
next
  case (Draining start)
  then show ?thesis by (rule drain_finish)
next
  case (Returned waited a c)
  then show ?thesis using run_nil by (fastforce simp: running_def)
qed

theorem worker_can_return_witness:
  "\<exists>es s. worker_run 5 ((idle_worker 2)\<lparr>wk_flag := True\<rparr>) es s \<and> \<not> running s"
proof -
  have "worker_run 5 (idle_worker 2) [Cancel] ((idle_worker 2)\<lparr>wk_flag := True\<rparr>)"
    by (rule run_cons [OF cancel_flag run_nil])
  from worker_can_return [OF idle_worker_init this] show ?thesis by simp
qed

text \<open>
  The aggregate: when every worker's count of completed connections is at most its count
  of accepted ones and the total fits in 64 bits, the report is balanced exactly when every
  worker that joined was balanced; a worker that panicked does not show in it.
\<close>

theorem wait_report_balanced:
  assumes "\<forall>p. Some p \<in> set joined \<longrightarrow> unat (snd p) \<le> unat (fst p)"
    and "sum_list (map (\<lambda>w. case w of None \<Rightarrow> 0 | Some p \<Rightarrow> unat (fst p)) joined) < 2 ^ 64"
  shows "sh_accepted (wait_tokio t0 t joined) = sh_completed (wait_tokio t0 t joined) \<longleftrightarrow>
    (\<forall>p. Some p \<in> set joined \<longrightarrow> fst p = snd p)"
proof -
  let ?f = "\<lambda>w. case w of None \<Rightarrow> 0 | Some p \<Rightarrow> unat (fst p)"
  let ?g = "\<lambda>w. case w of None \<Rightarrow> 0 | Some p \<Rightarrow> unat (snd p)"
  have le: "?g w \<le> ?f w" if "w \<in> set joined" for w
    using that assms(1) by (auto split: option.splits)
  have "sum_list (map ?g joined) \<le> sum_list (map ?f joined)" by (rule sum_le_eq_iff(1)) (rule le)
  with assms(2) have "(of_nat (sum_list (map ?f joined)) :: u64) = of_nat (sum_list (map ?g joined)) \<longleftrightarrow>
      sum_list (map ?f joined) = sum_list (map ?g joined)"
    by (simp add: word_of_nat_eq_iff take_bit_nat_eq_self)
  moreover have "\<dots> \<longleftrightarrow> (\<forall>w\<in>set joined. ?f w = ?g w)" by (rule sum_le_eq_iff(2)) (rule le)
  moreover have "\<dots> \<longleftrightarrow> (\<forall>p. Some p \<in> set joined \<longrightarrow> fst p = snd p)"
    by (fastforce simp: word_unat_eq_iff split: option.splits)
  ultimately show ?thesis
    using wait_tokio_sums [of joined 0 0 0 0] assms by (simp add: wait_tokio_def)
qed

theorem wait_report_balanced_witness:
  "sh_accepted (wait_tokio 0 9 [Some (3, 3), None, Some (2, 1)])
     \<noteq> sh_completed (wait_tokio 0 9 [Some (3, 3), None, Some (2, 1)])"
  by (subst wait_report_balanced) (auto intro!: exI [of _ 2] exI [of _ 1])

end
