(* ===== verification/Conduit_Monoio.thy ===== *)
theory Conduit_Monoio
  imports Conduit_Serve
begin

text \<open>
  \<^verbatim>\<open>conduit-io/src/monoio_worker.rs\<close>, the backend on Linux: sockets are bound as in \<open>Conduit_Serve\<close>,
  workers may be pinned to cores, the counters are plain cells of the worker's only thread, the
  main task awaits the accept tasks one after another, and the totals are added without a
  check. What the runtime does with a connection task that panics is not in the sources:
  \<open>catches\<close> says whether it contains the panic, as the other runtime does, or lets it unwind
  through the worker thread. A worker that does not panic behaves like the other backend's.
\<close>

section \<open>Model\<close>

subsection \<open>Starting\<close>

text \<open>Worker \<open>idx\<close> gets the core \<open>cores[idx]\<close>, if pinning is on and there is one.\<close>

record monoio_server =
  ms_threads :: "(nat option \<times> shard) list"
  ms_flag :: bool
  ms_bound :: "socket_addr list"
  ms_started :: instant

fun spawn_pinned ::
  "(nat \<Rightarrow> string + unit) \<Rightarrow> nat list \<Rightarrow> nat \<Rightarrow> shard list \<Rightarrow> bind_error + (nat option \<times> shard) list" where
  "spawn_pinned spawn cores idx [] = Inr []"
| "spawn_pinned spawn cores idx (listeners # rest) =
     (let core = (if idx < length cores then Some (cores ! idx) else None) in
      case spawn idx of
        Inl e \<Rightarrow> Inl (ThreadSpawn e)
      | Inr _ \<Rightarrow>
          (case spawn_pinned spawn cores (Suc idx) rest of
             Inl e \<Rightarrow> Inl e
           | Inr handles \<Rightarrow> Inr ((core, listeners) # handles)))"

definition serve_monoio ::
  "net \<Rightarrow> (nat \<Rightarrow> string + unit) \<Rightarrow> nat list option \<Rightarrow> instant \<Rightarrow> serve_spec
   \<Rightarrow> (bind_error + monoio_server) option" where
  "serve_monoio N spawn core_ids now spec =
     (if sp_listeners spec = [] then Some (Inl NoListeners)
      else
        (let per_worker = replicate (unat (sp_workers spec)) [] in
         case bind_listeners N (sp_backlog spec) 0 per_worker [] (sp_listeners spec) of
           None \<Rightarrow> None
         | Some (Inl e) \<Rightarrow> Some (Inl e)
         | Some (Inr (per_worker, bound)) \<Rightarrow>
             (let cores = (if sp_cpu_affinity spec
                           then (case core_ids of None \<Rightarrow> [] | Some ids \<Rightarrow> ids) else []) in
              case spawn_pinned spawn cores 0 per_worker of
                Inl e \<Rightarrow> Some (Inl e)
              | Inr handles \<Rightarrow>
                  Some (Inr \<lparr>ms_threads = handles, ms_flag = False, ms_bound = bound,
                             ms_started = now\<rparr>))))"

subsection \<open>A worker\<close>

datatype uring_stage =
    Awaiting nat
  | UringDraining instant
  | UringReturned duration u64 u64
  | UringPanicked

text \<open>\<open>Awaiting k\<close>: the main task has awaited \<open>k\<close> accept tasks and waits for the next one.\<close>

record uring_worker =
  uw_flag :: bool
  uw_tasks :: "loop_pc list"
  uw_inflight :: nat
  uw_lost :: nat
  uw_accepted :: u64
  uw_completed :: u64
  uw_stage :: uring_stage
  uw_now :: instant

text \<open>
  The beginning of \<open>run\<close>: without a runtime the worker returns at once (\<open>None\<close>), and a listener
  that cannot be converted is skipped.
\<close>

definition uring_start ::
  "bool \<Rightarrow> (nat \<Rightarrow> bool) \<Rightarrow> shard \<Rightarrow> bool \<Rightarrow> instant \<Rightarrow> uring_worker option" where
  "uring_start runtime from_std listeners flag now =
     (if \<not> runtime then None
      else Some \<lparr>uw_flag = flag,
                 uw_tasks = map (\<lambda>_. AtCheck) (filter (\<lambda>(addr, l). from_std l) listeners),
                 uw_inflight = 0, uw_lost = 0, uw_accepted = 0, uw_completed = 0,
                 uw_stage = Awaiting 0, uw_now = now\<rparr>)"

definition uring_live :: "uring_worker \<Rightarrow> bool" where
  "uring_live s = (case uw_stage s of Awaiting _ \<Rightarrow> True | UringDraining _ \<Rightarrow> True | _ \<Rightarrow> False)"

inductive uring_step :: "bool \<Rightarrow> duration \<Rightarrow> uring_worker \<Rightarrow> uring_worker \<Rightarrow> bool"
  for catches deadline where
  u_cancel: "uring_step catches deadline s (s\<lparr>uw_flag := True\<rparr>)"
| u_break: "uring_live s \<Longrightarrow> i < length (uw_tasks s) \<Longrightarrow> uw_tasks s ! i = AtCheck \<Longrightarrow> uw_flag s \<Longrightarrow>
    uring_step catches deadline s (s\<lparr>uw_tasks := (uw_tasks s)[i := Exited]\<rparr>)"
| u_wait: "uring_live s \<Longrightarrow> i < length (uw_tasks s) \<Longrightarrow> uw_tasks s ! i = AtCheck \<Longrightarrow> \<not> uw_flag s \<Longrightarrow>
    uring_step catches deadline s (s\<lparr>uw_tasks := (uw_tasks s)[i := InAccept]\<rparr>)"
| u_accept: "uring_live s \<Longrightarrow> i < length (uw_tasks s) \<Longrightarrow> uw_tasks s ! i = InAccept \<Longrightarrow>
    uring_step catches deadline s
      (s\<lparr>uw_tasks := (uw_tasks s)[i := AtCheck], uw_accepted := uw_accepted s + 1,
         uw_inflight := Suc (uw_inflight s)\<rparr>)"
| u_idle: "uring_live s \<Longrightarrow> i < length (uw_tasks s) \<Longrightarrow> uw_tasks s ! i = InAccept \<Longrightarrow>
    uring_step catches deadline s (s\<lparr>uw_tasks := (uw_tasks s)[i := AtCheck]\<rparr>)"
| u_done: "uring_live s \<Longrightarrow> uw_inflight s = Suc n \<Longrightarrow>
    uring_step catches deadline s (s\<lparr>uw_inflight := n, uw_completed := uw_completed s + 1\<rparr>)"
| u_lost: "uring_live s \<Longrightarrow> uw_inflight s = Suc n \<Longrightarrow> catches \<Longrightarrow>
    uring_step catches deadline s (s\<lparr>uw_inflight := n, uw_lost := Suc (uw_lost s)\<rparr>)"
| u_panic: "uring_live s \<Longrightarrow> uw_inflight s = Suc n \<Longrightarrow> \<not> catches \<Longrightarrow>
    uring_step catches deadline s (s\<lparr>uw_stage := UringPanicked\<rparr>)"
| u_awaited: "uw_stage s = Awaiting k \<Longrightarrow> k < length (uw_tasks s) \<Longrightarrow> uw_tasks s ! k = Exited \<Longrightarrow>
    uring_step catches deadline s (s\<lparr>uw_stage := Awaiting (Suc k)\<rparr>)"
| u_drain: "uw_stage s = Awaiting k \<Longrightarrow> k = length (uw_tasks s) \<Longrightarrow>
    uring_step catches deadline s (s\<lparr>uw_stage := UringDraining (uw_now s)\<rparr>)"
| u_return: "uw_stage s = UringDraining start \<Longrightarrow>
    uw_accepted s = uw_completed s \<or> deadline \<le> uw_now s - start \<Longrightarrow>
    uring_step catches deadline s
      (s\<lparr>uw_stage := UringReturned (uw_now s - start) (uw_accepted s) (uw_completed s)\<rparr>)"
| u_tick: "uw_now s \<le> t \<Longrightarrow> uring_step catches deadline s (s\<lparr>uw_now := t\<rparr>)"

text \<open>What the thread hands back when it is joined: \<open>None\<close> for a panic.\<close>

definition uring_joined :: "uring_worker option \<Rightarrow> (u64 \<times> u64) option" where
  "uring_joined w =
     (case w of
        None \<Rightarrow> Some (0, 0)
      | Some s \<Rightarrow> (case uw_stage s of UringReturned _ a c \<Rightarrow> Some (a, c) | _ \<Rightarrow> None))"

subsection \<open>The report\<close>

text \<open>The additions wrap in a release build.\<close>

definition wait_monoio :: "instant \<Rightarrow> instant \<Rightarrow> (u64 \<times> u64) option list \<Rightarrow> shutdown_report" where
  "wait_monoio started now joined =
     (let totals = foldl (\<lambda>(a, c) w. case w of
                            None \<Rightarrow> (a, c) | Some (a', c') \<Rightarrow> (a + a', c + c')) (0, 0) joined in
      \<lparr>sh_accepted = fst totals, sh_completed = snd totals, sh_elapsed = now - started\<rparr>)"

section \<open>Lemmas\<close>

text \<open>Pinning changes which core a worker runs on and nothing else.\<close>

lemma spawn_pinned_workers:
  "map_sum id (map snd) (spawn_pinned spawn cores idx ws) = spawn_workers spawn idx ws"
proof (induction ws arbitrary: idx)
  case (Cons w ws)
  show ?case
  proof (cases "spawn idx")
    case (Inr u)
    then show ?thesis
      using Cons.IH [of "Suc idx", symmetric]
      by (cases "spawn_pinned spawn cores (Suc idx) ws") (simp_all add: Let_def)
  qed (simp add: Let_def)
qed simp

lemma spawn_pinned_Inr:
  "spawn_pinned spawn cores idx ws = Inr hs \<Longrightarrow> spawn_workers spawn idx ws = Inr (map snd hs)"
  "spawn_pinned spawn cores idx ws = Inl e \<Longrightarrow> spawn_workers spawn idx ws = Inl e"
  using spawn_pinned_workers [of spawn cores idx ws] by auto

text \<open>Totals that fit in 64 bits are added alike.\<close>

lemma wait_monoio_tokio:
  assumes "\<forall>p. Some p \<in> set joined \<longrightarrow> unat (snd p) \<le> unat (fst p)"
    and "sum_list (map (\<lambda>w. case w of None \<Rightarrow> 0 | Some p \<Rightarrow> unat (fst p)) joined) < 2 ^ 64"
  shows "wait_monoio t0 t joined = wait_tokio t0 t joined"
proof -
  have "foldl (\<lambda>(a, c) w. case w of None \<Rightarrow> (a, c) | Some (a', c') \<Rightarrow> (a + a', c + c')) (a, c) joined
     = (a + of_nat (sum_list (map (\<lambda>w. case w of None \<Rightarrow> 0 | Some p \<Rightarrow> unat (fst p)) joined)),
        c + of_nat (sum_list (map (\<lambda>w. case w of None \<Rightarrow> 0 | Some p \<Rightarrow> unat (snd p)) joined)))"
    for a c :: u64
    by (induction joined arbitrary: a c) (auto split: option.split)
  with assms wait_tokio_sums [of joined 0 0 0 0] show ?thesis
    by (simp add: wait_monoio_def wait_tokio_def)
qed

subsection \<open>A worker as one of the other backend\<close>

definition as_tokio :: "uring_worker \<Rightarrow> worker" where
  "as_tokio s =
     \<lparr>wk_flag = uw_flag s, wk_loops = uw_tasks s, wk_inflight = uw_inflight s, wk_lost = uw_lost s,
      wk_accepted = uw_accepted s, wk_completed = uw_completed s,
      wk_phase = (case uw_stage s of
                    UringDraining start \<Rightarrow> Draining start
                  | UringReturned waited a c \<Rightarrow> Returned waited a c
                  | _ \<Rightarrow> Accepting),
      wk_now = uw_now s\<rparr>"

definition uring_init :: "uring_worker \<Rightarrow> bool" where
  "uring_init s \<longleftrightarrow> (\<exists>from_std listeners flag now. uring_start True from_std listeners flag now = Some s)"

text \<open>The accept tasks awaited so far have ended, and stay so.\<close>

definition uring_inv :: "uring_worker \<Rightarrow> bool" where
  "uring_inv s \<longleftrightarrow>
     (\<forall>k. uw_stage s = Awaiting k \<longrightarrow> k \<le> length (uw_tasks s) \<and> (\<forall>i<k. uw_tasks s ! i = Exited))"

text \<open>The steps of a worker that has not panicked.\<close>

definition calm_step :: "bool \<Rightarrow> duration \<Rightarrow> uring_worker \<Rightarrow> uring_worker \<Rightarrow> bool" where
  "calm_step catches deadline s s' \<longleftrightarrow> uring_step catches deadline s s' \<and> uw_stage s' \<noteq> UringPanicked"

lemma uring_step_inv: "uring_inv s \<Longrightarrow> uring_step catches deadline s s' \<Longrightarrow> uring_inv s'"
  by (erule uring_step.cases) (auto simp: uring_inv_def nth_list_update less_Suc_eq)

lemma uring_step_sim:
  assumes "uring_inv s" "calm_step catches deadline s s'"
  shows "as_tokio s' = as_tokio s \<or> (\<exists>e. worker_step deadline (as_tokio s) e (as_tokio s'))"
proof -
  have calm: "uring_step catches deadline s s'" "uw_stage s' \<noteq> UringPanicked"
    using assms(2) by (simp_all add: calm_step_def)
  have run: "uring_live s \<Longrightarrow> running (as_tokio s)"
    by (auto simp: uring_live_def running_def as_tokio_def split: uring_stage.splits)
  from calm show ?thesis
  proof cases
    case u_cancel
    then show ?thesis using cancel_flag [of deadline "as_tokio s"] by (auto simp: as_tokio_def)
  next
    case (u_break i)
    then show ?thesis using loop_break [of i "as_tokio s" deadline] by (auto simp: as_tokio_def)
  next
    case (u_wait i)
    then show ?thesis using loop_wait [of i "as_tokio s" deadline] by (auto simp: as_tokio_def)
  next
    case (u_accept i)
    then show ?thesis using loop_accept [of i "as_tokio s" deadline] by (auto simp: as_tokio_def)
  next
    case (u_idle i)
    then show ?thesis using loop_idle [of i "as_tokio s" deadline] by (auto simp: as_tokio_def)
  next
    case (u_done n)
    then show ?thesis using task_done [OF run, of n deadline] by (auto simp: as_tokio_def)
  next
    case (u_lost n)
    then show ?thesis using task_panic [OF run, of n deadline] by (auto simp: as_tokio_def)
  next
    case (u_drain k)
    then have "set (uw_tasks s) \<subseteq> {Exited}"
      using assms(1) by (auto simp: uring_inv_def in_set_conv_nth)
    with u_drain show ?thesis using loops_joined [of "as_tokio s" deadline] by (auto simp: as_tokio_def)
  next
    case (u_return start)
    then show ?thesis
      using drain_end [of "as_tokio s" start deadline] by (auto simp: as_tokio_def drained_def)
  next
    case (u_tick t)
    then show ?thesis using tick [of "as_tokio s" t deadline] by (auto simp: as_tokio_def)
  qed (use calm in \<open>auto simp: as_tokio_def\<close>)
qed

interpretation uring: simulation uring_init "calm_step catches deadline" uring_inv as_tokio
  "\<lambda>s s'. \<exists>e. worker_step deadline s e s'" for catches deadline
proof
  fix s s'
  show "uring_init s \<Longrightarrow> uring_inv s"
    by (auto simp: uring_init_def uring_start_def uring_inv_def)
  show "uring_inv s \<Longrightarrow> calm_step catches deadline s s' \<Longrightarrow> uring_inv s'"
    by (auto simp: calm_step_def intro: uring_step_inv)
  assume "uring_inv s" "calm_step catches deadline s s'"
  then show "(\<lambda>s s'. \<exists>e. worker_step deadline s e s')\<^sup>*\<^sup>* (as_tokio s) (as_tokio s')"
    using uring_step_sim by (metis (mono_tags, lifting) r_into_rtranclp rtranclp.rtrancl_refl)
qed

subsection \<open>A run for the witness\<close>

text \<open>One connection is accepted and handled, then the flag is set and the worker returns.\<close>

definition uring_at :: "bool \<Rightarrow> loop_pc \<Rightarrow> nat \<Rightarrow> u64 \<Rightarrow> u64 \<Rightarrow> uring_stage \<Rightarrow> uring_worker" where
  "uring_at flag pc inflight a c st =
     \<lparr>uw_flag = flag, uw_tasks = [pc], uw_inflight = inflight, uw_lost = 0, uw_accepted = a,
      uw_completed = c, uw_stage = st, uw_now = 0\<rparr>"

lemma sample_uring_steps:
  defines "step \<equiv> calm_step False 5"
  shows "step (uring_at False AtCheck 0 0 0 (Awaiting 0)) (uring_at False InAccept 0 0 0 (Awaiting 0))"
    and "step (uring_at False InAccept 0 0 0 (Awaiting 0)) (uring_at False AtCheck 1 1 0 (Awaiting 0))"
    and "step (uring_at False AtCheck 1 1 0 (Awaiting 0)) (uring_at False AtCheck 0 1 1 (Awaiting 0))"
    and "step (uring_at False AtCheck 0 1 1 (Awaiting 0)) (uring_at True AtCheck 0 1 1 (Awaiting 0))"
    and "step (uring_at True AtCheck 0 1 1 (Awaiting 0)) (uring_at True Exited 0 1 1 (Awaiting 0))"
    and "step (uring_at True Exited 0 1 1 (Awaiting 0)) (uring_at True Exited 0 1 1 (Awaiting 1))"
    and "step (uring_at True Exited 0 1 1 (Awaiting 1)) (uring_at True Exited 0 1 1 (UringDraining 0))"
    and "step (uring_at True Exited 0 1 1 (UringDraining 0)) (uring_at True Exited 0 1 1 (UringReturned 0 1 1))"
  unfolding step_def calm_step_def
  using u_wait [of "uring_at False AtCheck 0 0 0 (Awaiting 0)" 0 False 5]
    u_accept [of "uring_at False InAccept 0 0 0 (Awaiting 0)" 0 False 5]
    u_done [of "uring_at False AtCheck 1 1 0 (Awaiting 0)" 0 False 5]
    u_cancel [of False 5 "uring_at False AtCheck 0 1 1 (Awaiting 0)"]
    u_break [of "uring_at True AtCheck 0 1 1 (Awaiting 0)" 0 False 5]
    u_awaited [of "uring_at True Exited 0 1 1 (Awaiting 0)" 0 False 5]
    u_drain [of "uring_at True Exited 0 1 1 (Awaiting 1)" 1 False 5]
    u_return [of "uring_at True Exited 0 1 1 (UringDraining 0)" 0 5 False]
  by (simp_all add: uring_at_def uring_live_def)

lemma sample_uring_run:
  "(calm_step False 5)\<^sup>*\<^sup>* (uring_at False AtCheck 0 0 0 (Awaiting 0))
     (uring_at True Exited 0 1 1 (UringReturned 0 1 1))"
  using sample_uring_steps by (meson converse_rtranclp_into_rtranclp rtranclp.rtrancl_refl)

section \<open>Properties\<close>

text \<open>
  C12. A \<open>monoio\<close> worker is a \<open>tokio\<close> worker: everything a worker can do without panicking, from the
  moment it has its runtime, is a run of the other backend's worker with as many accept loops
  as listeners were converted. So it returns only after shutdown was requested (if it had a
  listener), its counts differ only if the drain took the whole deadline, and they are equal
  exactly when every connection it accepted was handled to completion.
\<close>

theorem monoio_refines_tokio:
  assumes "uring_start True from_std listeners flag now = Some s0"
    and "(calm_step catches deadline)\<^sup>*\<^sup>* s0 s"
  shows "\<exists>es. worker_run deadline (as_tokio s0) es (as_tokio s)
    \<and> worker_init (length (filter (\<lambda>(addr, l). from_std l) listeners)) (as_tokio s0)
    \<and> (\<forall>waited a c. uw_stage s = UringReturned waited a c \<and> uw_inflight s + uw_lost s < 2 ^ 64 \<longrightarrow>
          (uw_tasks s \<noteq> [] \<longrightarrow> uw_flag s) \<and> (a \<noteq> c \<longrightarrow> deadline \<le> waited)
          \<and> (a = c \<longleftrightarrow> uw_inflight s = 0 \<and> uw_lost s = 0))"
proof -
  let ?n = "length (filter (\<lambda>(addr, l). from_std l) listeners)"
  have "uring_init s0" using assms(1) unfolding uring_init_def by blast
  from uring.reachable_sim [OF this assms(2)]
  obtain es where run: "worker_run deadline (as_tokio s0) es (as_tokio s)"
    using worker_steps_run by blast
  have init: "worker_init ?n (as_tokio s0)"
    using assms(1) by (auto simp: uring_start_def worker_init_def as_tokio_def map_replicate_const)
  have "worker_inv ?n deadline (as_tokio s)" by (rule worker_run_inv [OF init run])
  then show ?thesis using run init returned_exact [of ?n deadline "as_tokio s"]
    by (auto simp: as_tokio_def worker_inv_def)
qed

theorem monoio_refines_tokio_witness:
  "\<exists>es. worker_run 5 (as_tokio (uring_at False AtCheck 0 0 0 (Awaiting 0))) es
     (as_tokio (uring_at True Exited 0 1 1 (UringReturned 0 1 1)))"
proof -
  have "uring_start True (\<lambda>_. True) [(SocketAddrV4 127 0 0 1 8080, 0)] False 0 =
      Some (uring_at False AtCheck 0 0 0 (Awaiting 0))"
    by (simp add: uring_start_def uring_at_def)
  from monoio_refines_tokio [OF this sample_uring_run] show ?thesis by blast
qed

text \<open>
  The two backends agree: for the same socket calls the \<open>monoio\<close> backend fails with the
  same error or listens on the same sockets, shard by shard, as the \<open>tokio\<close> one, and, as long
  as the totals fit in 64 bits, both report the same counts.
\<close>

theorem backends_agree:
  "map_option (map_sum id (\<lambda>s. (map snd (ms_threads s), ms_flag s, ms_bound s, ms_started s)))
     (serve_monoio N spawn core_ids now spec)
   = map_option (map_sum id (\<lambda>s. (sr_workers s, sr_flag s, sr_bound s, sr_started s)))
       (serve N spawn now spec)
   \<and> ((\<forall>p. Some p \<in> set joined \<longrightarrow> unat (snd p) \<le> unat (fst p))
      \<and> sum_list (map (\<lambda>w. case w of None \<Rightarrow> 0 | Some p \<Rightarrow> unat (fst p)) joined) < 2 ^ 64
      \<longrightarrow> wait_monoio t0 t joined = wait_tokio t0 t joined)"
proof (intro conjI impI)
  show "map_option (map_sum id (\<lambda>s. (map snd (ms_threads s), ms_flag s, ms_bound s, ms_started s)))
      (serve_monoio N spawn core_ids now spec)
    = map_option (map_sum id (\<lambda>s. (sr_workers s, sr_flag s, sr_bound s, sr_started s)))
        (serve N spawn now spec)"
    by (auto simp: serve_monoio_def serve_def Let_def split: option.split sum.split
        dest: spawn_pinned_Inr)
next
  assume "(\<forall>p. Some p \<in> set joined \<longrightarrow> unat (snd p) \<le> unat (fst p))
      \<and> sum_list (map (\<lambda>w. case w of None \<Rightarrow> 0 | Some p \<Rightarrow> unat (fst p)) joined) < 2 ^ 64"
  then show "wait_monoio t0 t joined = wait_tokio t0 t joined" using wait_monoio_tokio by blast
qed

theorem backends_agree_witness:
  "wait_monoio 0 9 [Some (3, 3), None, Some (2, 1)] = wait_tokio 0 9 [Some (3, 3), None, Some (2, 1)]"
  using backends_agree [of loopback "\<lambda>_. Inr ()" None 0 "serve_spec_new [] 1" "[Some (3, 3), None, Some (2, 1)]" 0 9]
  by auto

end
