(* ===== verification/Conduit_Main.thy ===== *)
theory Conduit_Main
  imports Conduit_Conn Conduit_Health Conduit_Monoio
begin

text \<open>
  \<^verbatim>\<open>conduit/src/main.rs\<close>, the binary: what each thread is given, the dispatcher slots of the HTTP
  workers, hot reload on SIGHUP, the exit code, and the shutdown protocol between the main
  thread and the others as a step relation. The one-request part of the file is
  \<open>Conduit_Proxy\<close>, the \<open>/upstreams\<close> page \<open>Conduit_Admin\<close>.
\<close>

section \<open>Model\<close>

subsection \<open>What the threads are given\<close>

definition build_serve_spec :: "usize option \<Rightarrow> config \<Rightarrow> serve_spec" where
  "build_serve_spec avail cfg =
     (serve_spec_new (sc_listen_http (cf_server cfg)) (resolve_workers avail (sc_workers (cf_server cfg))))
       \<lparr>sp_cpu_affinity := sc_cpu_affinity (cf_server cfg)\<rparr>"

text \<open>The live dispatchers, each in its own swappable cell: the primary and one per HTTP worker.\<close>

record ('re, 'cl) dispatch_bundle =
  db_primary :: "('re, 'cl) dispatch"
  db_http_workers :: "('re, 'cl) dispatch list"

text \<open>Dispatchers built one after another from one document; the \<open>i\<close>-th reads the clocks \<open>clk i\<close>.\<close>

fun build_dispatches ::
  "('re, 'hm) crates \<Rightarrow> ('cert, 'key, 'roots) tls_crates \<Rightarrow> (nat \<Rightarrow> nat \<Rightarrow> instant) \<Rightarrow> config
   \<Rightarrow> nat \<Rightarrow> nat \<Rightarrow> ('re, ('cert, 'key, 'roots) connector) dispatch list option" where
  "build_dispatches X Y clk cfg i 0 = Some []"
| "build_dispatches X Y clk cfg i (Suc n) =
     (case dispatch_from_config X Y (clk i) cfg of
        None \<Rightarrow> None
      | Some d \<Rightarrow>
          (case build_dispatches X Y clk cfg (Suc i) n of
             None \<Rightarrow> None
           | Some ds \<Rightarrow> Some (d # ds)))"

definition build_dispatch_bundle ::
  "('re, 'hm) crates \<Rightarrow> ('cert, 'key, 'roots) tls_crates \<Rightarrow> (nat \<Rightarrow> nat \<Rightarrow> instant) \<Rightarrow> config \<Rightarrow> nat
   \<Rightarrow> ('re, ('cert, 'key, 'roots) connector) dispatch_bundle option" where
  "build_dispatch_bundle X Y clk cfg n_http_workers =
     (case dispatch_from_config X Y (clk 0) cfg of
        None \<Rightarrow> None
      | Some primary \<Rightarrow>
          (case build_dispatches X Y clk cfg 1 n_http_workers of
             None \<Rightarrow> None
           | Some http_workers \<Rightarrow>
               Some \<lparr>db_primary = primary, db_http_workers = http_workers\<rparr>))"

text \<open>The \<open>setup\<close> closure of \<open>start_http_server\<close>: the slot of the caller and the new counter.\<close>

definition setup_slot :: "usize \<Rightarrow> usize \<Rightarrow> usize \<times> nat" where
  "setup_slot n counter = (counter + 1, unat (counter mod n))"

fun setup_calls :: "usize \<Rightarrow> usize \<Rightarrow> nat \<Rightarrow> nat list" where
  "setup_calls n counter 0 = []"
| "setup_calls n counter (Suc k) =
     (case setup_slot n counter of (counter', idx) \<Rightarrow> idx # setup_calls n counter' k)"

definition spawn_https ::
  "('cert, 'key, 'roots) tls_crates \<Rightarrow> ('key, 'sk) sign_crates \<Rightarrow> config
   \<Rightarrow> (('cert, 'sk) certified_key server_config_tls \<times> ('cert, 'sk) certified_key resolver) option option" where
  "spawn_https Y S cfg =
     (if sc_listen_https (cf_server cfg) = [] then Some None
      else (case cf_tls cfg of
              None \<Rightarrow> Some None
            | Some tls_cfg \<Rightarrow>
                (case load_server_config_with_resolver Y S tls_cfg of
                   None \<Rightarrow> None
                 | Some (Inl e) \<Rightarrow> Some None
                 | Some (Inr pair) \<Rightarrow> Some (Some pair))))"

definition spawn_h3 ::
  "('cert, 'key, 'roots) tls_crates \<Rightarrow> ('key, 'sk) sign_crates
   \<Rightarrow> (('cert, 'sk) certified_key server_config_tls \<Rightarrow> string + 'quic) \<Rightarrow> config \<Rightarrow> 'quic option option" where
  "spawn_h3 Y S try_from cfg =
     (if sc_listen_h3 (cf_server cfg) = [] then Some None
      else (case cf_tls cfg of
              None \<Rightarrow> Some None
            | Some tls_cfg \<Rightarrow>
                (case load_server_config Y S tls_cfg of
                   None \<Rightarrow> None
                 | Some (Inl e) \<Rightarrow> Some None
                 | Some (Inr rustls_cfg) \<Rightarrow>
                     (case quic_server_config try_from (rustls_cfg\<lparr>sv_alpn_protocols := [''h3'']\<rparr>) of
                        Inl e \<Rightarrow> Some None
                      | Inr quic_cfg \<Rightarrow> Some (Some quic_cfg)))))"

text \<open>The probes of \<open>spawn_health_thread\<close>, built from a snapshot of the primary dispatcher.\<close>

definition health_probe ::
  "('cert, 'key, 'roots) tls_crates \<Rightarrow> ('re, 'cl) dispatch \<Rightarrow> upstream_cfg
   \<Rightarrow> ('cert, 'key, 'roots) connector probe option" where
  "health_probe Y snapshot u =
     (case uc_health_check u of
        None \<Rightarrow> None
      | Some hc \<Rightarrow>
          (case map_get (d_upstreams snapshot) (uc_name u) of
             None \<Rightarrow> None
           | Some upstream \<Rightarrow>
               (case probe_new Y (u_addrs upstream) (u_breakers upstream)
                       \<lparr>pc_path = hc_path hc, pc_interval = dstr_get (hc_interval hc),
                        pc_timeout = dstr_get (hc_timeout hc),
                        pc_unhealthy_threshold = hc_unhealthy_threshold hc,
                        pc_healthy_threshold = hc_healthy_threshold hc,
                        pc_tls = map_option tls_options_from_config (uc_tls u)\<rparr> of
                  Inr p \<Rightarrow> Some p
                | Inl e \<Rightarrow> None)))"

definition health_probes ::
  "('cert, 'key, 'roots) tls_crates \<Rightarrow> ('re, 'cl) dispatch \<Rightarrow> config
   \<Rightarrow> ('cert, 'key, 'roots) connector probe list" where
  "health_probes Y snapshot cfg = List.map_filter (health_probe Y snapshot) (cf_upstreams cfg)"

text \<open>
  The thread of \<open>spawn_health_thread\<close>: one task per probe, all joined; without a runtime it ends at
  once. The value is the breakers of each probe's upstream at the end.
\<close>

definition health_thread ::
  "string + unit \<Rightarrow> (nat \<Rightarrow> nat \<Rightarrow> probe_iteration list) \<Rightarrow> 'cl probe list \<Rightarrow> breaker list list option" where
  "health_thread runtime sched probes =
     (if probes = [] then None
      else (case runtime of
              Inl e \<Rightarrow> Some (map pb_breakers probes)
            | Inr _ \<Rightarrow> Some (map (\<lambda>(k, p). probe_run (sched k) p) (enumerate 0 probes))))"

subsection \<open>Hot reload\<close>

text \<open>
  What the world holds when a SIGHUP is handled: the \<open>done\<close> flag, the file system for the
  configuration and for the certificates, the environment and the clocks.
\<close>

record ('cert, 'key, 'roots) reload_world =
  rw_done :: bool
  rw_read_to_string :: "string \<Rightarrow> string + string"
  rw_env :: "string option"
  rw_is_file :: "string \<Rightarrow> bool"
  rw_tls :: "('cert, 'key, 'roots) tls_crates"
  rw_clk :: "nat \<Rightarrow> nat \<Rightarrow> instant"

text \<open>The cells the reload thread owns: every dispatcher, primary first, and the resolver.\<close>

record ('re, 'cl, 'ck) live =
  lv_dispatches :: "('re, 'cl) dispatch list"
  lv_resolver :: "'ck resolver option"

definition reload_once ::
  "('re, 'hm) crates \<Rightarrow> ('key, 'sk) sign_crates \<Rightarrow> (string \<Rightarrow> string + config) \<Rightarrow> string
   \<Rightarrow> ('cert, 'key, 'roots) reload_world
   \<Rightarrow> ('re, ('cert, 'key, 'roots) connector, ('cert, 'sk) certified_key) live
   \<Rightarrow> ('re, ('cert, 'key, 'roots) connector, ('cert, 'sk) certified_key) live option" where
  "reload_once X S from_str path w lv =
     (case load_config (rw_read_to_string w) from_str (rw_env w) (rw_is_file w) path of
        Inl e \<Rightarrow> Some lv
      | Inr cfg \<Rightarrow>
          (case build_dispatches X (rw_tls w) (rw_clk w) cfg 0 (length (lv_dispatches lv)) of
             None \<Rightarrow> None
           | Some ds \<Rightarrow>
               (let lv = lv\<lparr>lv_dispatches := ds\<rparr> in
                case (lv_resolver lv, cf_tls cfg) of
                  (Some resolver, Some tls_cfg) \<Rightarrow>
                    (case resolver_reload (rw_tls w) S (tc_certs tls_cfg) resolver of
                       None \<Rightarrow> None
                     | Some (resolver', _) \<Rightarrow> Some (lv\<lparr>lv_resolver := Some resolver'\<rparr>))
                | _ \<Rightarrow> Some lv)))"

text \<open>\<open>install_reload_handler\<close> over the signals that arrive.\<close>

fun reload_loop ::
  "('re, 'hm) crates \<Rightarrow> ('key, 'sk) sign_crates \<Rightarrow> (string \<Rightarrow> string + config) \<Rightarrow> string
   \<Rightarrow> ('cert, 'key, 'roots) reload_world list
   \<Rightarrow> ('re, ('cert, 'key, 'roots) connector, ('cert, 'sk) certified_key) live
   \<Rightarrow> ('re, ('cert, 'key, 'roots) connector, ('cert, 'sk) certified_key) live option" where
  "reload_loop X S from_str path [] lv = Some lv"
| "reload_loop X S from_str path (w # ws) lv =
     (if rw_done w then Some lv
      else (case reload_once X S from_str path w lv of
              None \<Rightarrow> None
            | Some lv' \<Rightarrow> reload_loop X S from_str path ws lv'))"

subsection \<open>The shutdown protocol\<close>

text \<open>What the main thread blocks on, in order; \<open>Exit\<close> is its return.\<close>

datatype main_pc =
    WaitServer | JoinReload | JoinHealth | JoinAdmin | JoinHttps | JoinH3 | JoinSignal | Exit

text \<open>
  The flags the threads share and, per thread, whether it still runs. The HTTP server counts
  as one thread that ends some time after its flag is set; a thread that was never started, or
  gave up when it could not bind, is not running.
\<close>

record proc =
  pr_main :: main_pc
  pr_http_flag :: bool
  pr_reload_done :: bool
  pr_health_cancel :: bool
  pr_admin_cancel :: bool
  pr_https_cancel :: bool
  pr_h3_cancel :: bool
  pr_signal_done :: bool
  th_http :: bool
  th_reload :: bool
  th_health :: bool
  th_admin :: bool
  th_https :: bool
  th_h3 :: bool
  th_signal :: bool

datatype sig_event = Sighup | Sigterm | ThreadEnds | MainStep

inductive proc_step :: "proc \<Rightarrow> sig_event \<Rightarrow> proc \<Rightarrow> bool" where
  sighup_done: "th_reload p \<Longrightarrow> pr_reload_done p \<Longrightarrow>
    proc_step p Sighup (p\<lparr>th_reload := False\<rparr>)"
| sighup_reload: "th_reload p \<Longrightarrow> \<not> pr_reload_done p \<Longrightarrow> proc_step p Sighup p"
| sigterm_done: "th_signal p \<Longrightarrow> pr_signal_done p \<Longrightarrow>
    proc_step p Sigterm (p\<lparr>th_signal := False\<rparr>)"
| sigterm_shutdown: "th_signal p \<Longrightarrow> \<not> pr_signal_done p \<Longrightarrow>
    proc_step p Sigterm (p\<lparr>th_signal := False, pr_http_flag := True, pr_https_cancel := True,
      pr_h3_cancel := True, pr_admin_cancel := True\<rparr>)"
| http_ends: "th_http p \<Longrightarrow> pr_http_flag p \<Longrightarrow> proc_step p ThreadEnds (p\<lparr>th_http := False\<rparr>)"
| health_ends: "th_health p \<Longrightarrow> pr_health_cancel p \<Longrightarrow>
    proc_step p ThreadEnds (p\<lparr>th_health := False\<rparr>)"
| admin_ends: "th_admin p \<Longrightarrow> pr_admin_cancel p \<Longrightarrow> proc_step p ThreadEnds (p\<lparr>th_admin := False\<rparr>)"
| https_ends: "th_https p \<Longrightarrow> pr_https_cancel p \<Longrightarrow> proc_step p ThreadEnds (p\<lparr>th_https := False\<rparr>)"
| h3_ends: "th_h3 p \<Longrightarrow> pr_h3_cancel p \<Longrightarrow> proc_step p ThreadEnds (p\<lparr>th_h3 := False\<rparr>)"
| main_server: "pr_main p = WaitServer \<Longrightarrow> \<not> th_http p \<Longrightarrow>
    proc_step p MainStep (p\<lparr>pr_main := JoinReload, pr_reload_done := True\<rparr>)"
| main_reload: "pr_main p = JoinReload \<Longrightarrow> \<not> th_reload p \<Longrightarrow>
    proc_step p MainStep (p\<lparr>pr_main := JoinHealth, pr_health_cancel := True\<rparr>)"
| main_health: "pr_main p = JoinHealth \<Longrightarrow> \<not> th_health p \<Longrightarrow>
    proc_step p MainStep (p\<lparr>pr_main := JoinAdmin, pr_admin_cancel := True\<rparr>)"
| main_admin: "pr_main p = JoinAdmin \<Longrightarrow> \<not> th_admin p \<Longrightarrow>
    proc_step p MainStep (p\<lparr>pr_main := JoinHttps, pr_https_cancel := True\<rparr>)"
| main_https: "pr_main p = JoinHttps \<Longrightarrow> \<not> th_https p \<Longrightarrow>
    proc_step p MainStep (p\<lparr>pr_main := JoinH3, pr_h3_cancel := True\<rparr>)"
| main_h3: "pr_main p = JoinH3 \<Longrightarrow> \<not> th_h3 p \<Longrightarrow>
    proc_step p MainStep (p\<lparr>pr_main := JoinSignal, pr_signal_done := True\<rparr>)"
| main_signal: "pr_main p = JoinSignal \<Longrightarrow> \<not> th_signal p \<Longrightarrow>
    proc_step p MainStep (p\<lparr>pr_main := Exit\<rparr>)"

text \<open>After startup no flag is set; which threads run depends on the document.\<close>

definition proc_init :: "proc \<Rightarrow> bool" where
  "proc_init p \<longleftrightarrow>
     pr_main p = WaitServer \<and> \<not> pr_http_flag p \<and> \<not> pr_reload_done p \<and> \<not> pr_health_cancel p
     \<and> \<not> pr_admin_cancel p \<and> \<not> pr_https_cancel p \<and> \<not> pr_h3_cancel p \<and> \<not> pr_signal_done p"

inductive proc_run :: "proc \<Rightarrow> sig_event list \<Rightarrow> proc \<Rightarrow> bool" where
  proc_nil: "proc_run p [] p"
| proc_cons: "proc_step p e p' \<Longrightarrow> proc_run p' es p'' \<Longrightarrow> proc_run p (e # es) p''"

section \<open>Lemmas\<close>

subsection \<open>Building dispatchers\<close>

text \<open>What the code states when it unwraps: a socket address renders as an authority.\<close>

definition authority_ok :: "('re, 'hm) crates \<Rightarrow> bool" where
  "authority_ok X \<longleftrightarrow> (\<forall>a. authority_try_from X (addr_to_string a) \<noteq> None)"

lemma build_authorities_total [no_panic]: "authority_ok X \<Longrightarrow> build_authorities X as \<noteq> None"
  by (induction as) (auto simp: authority_ok_def split: option.splits)

lemma dispatch_total [no_panic]:
  assumes "authority_ok X"
  shows "dispatch_from_config X Y clk cfg \<noteq> None"
proof -
  have "upstream_from_config X Y clk u \<noteq> None" for u
    using build_authorities_total [OF assms, of "uc_addrs u"]
    by (auto simp: upstream_from_config_def with_tls_def Let_def split: sum.splits option.splits)
  then show ?thesis by (simp add: dispatch_from_config_def map_from_config_bind_all)
qed

lemma build_dispatches_nth:
  "build_dispatches X Y clk cfg i n = Some ds \<Longrightarrow>
   length ds = n \<and> (\<forall>j<n. dispatch_from_config X Y (clk (i + j)) cfg = Some (ds ! j))"
proof (induction n arbitrary: i ds)
  case (Suc n)
  then obtain d ds' where d: "dispatch_from_config X Y (clk i) cfg = Some d"
    and ds': "build_dispatches X Y clk cfg (Suc i) n = Some ds'" and "ds = d # ds'"
    by (auto split: option.splits)
  moreover note Suc.IH [OF ds']
  ultimately show ?case by (auto simp: less_Suc_eq_0_disj)
qed simp

lemma build_dispatches_total [no_panic]: "authority_ok X \<Longrightarrow> build_dispatches X Y clk cfg i n \<noteq> None"
proof (induction n arbitrary: i)
  case (Suc n)
  then obtain d ds where "dispatch_from_config X Y (clk i) cfg = Some d"
    and "build_dispatches X Y clk cfg (Suc i) n = Some ds"
    using dispatch_total [of X Y "clk i" cfg] by blast
  then show ?case by simp
qed simp

subsection \<open>Reloads\<close>

definition loads :: "(string \<Rightarrow> string + config) \<Rightarrow> string \<Rightarrow> ('cert, 'key, 'roots) reload_world \<Rightarrow> config option" where
  "loads from_str path w =
     (case load_config (rw_read_to_string w) from_str (rw_env w) (rw_is_file w) path of
        Inl e \<Rightarrow> None | Inr cfg \<Rightarrow> Some cfg)"

text \<open>The last signal, of those before the thread was told to stop, whose document loaded.\<close>

definition effective ::
  "(string \<Rightarrow> string + config) \<Rightarrow> string \<Rightarrow> ('cert, 'key, 'roots) reload_world list
   \<Rightarrow> ('cert, 'key, 'roots) reload_world option" where
  "effective from_str path ws =
     List.find (\<lambda>w. loads from_str path w \<noteq> None) (rev (takeWhile (\<lambda>w. \<not> rw_done w) ws))"

lemma effective_Cons:
  "effective from_str path (w # ws) =
     (if rw_done w then None
      else case effective from_str path ws of
             Some v \<Rightarrow> Some v
           | None \<Rightarrow> if loads from_str path w \<noteq> None then Some w else None)"
  by (auto simp: effective_def find_append split: option.split)

text \<open>The dispatchers of a reload that took effect.\<close>

definition built_by ::
  "('re, 'hm) crates \<Rightarrow> config \<Rightarrow> ('cert, 'key, 'roots) reload_world
   \<Rightarrow> ('re, ('cert, 'key, 'roots) connector) dispatch list \<Rightarrow> bool" where
  "built_by X cfg w ds \<longleftrightarrow>
     (\<forall>j<length ds. dispatch_from_config X (rw_tls w) (rw_clk w j) cfg = Some (ds ! j))"

lemma reload_once_cases:
  assumes "authority_ok X"
  shows "\<exists>lv'. reload_once X S from_str path w lv = Some lv'
    \<and> length (lv_dispatches lv') = length (lv_dispatches lv)
    \<and> (case loads from_str path w of
         None \<Rightarrow> lv' = lv
       | Some cfg \<Rightarrow> built_by X cfg w (lv_dispatches lv'))"
proof (cases "load_config (rw_read_to_string w) from_str (rw_env w) (rw_is_file w) path")
  case (Inl e)
  then show ?thesis by (simp add: reload_once_def loads_def)
next
  case (Inr cfg)
  obtain ds where ds: "build_dispatches X (rw_tls w) (rw_clk w) cfg 0 (length (lv_dispatches lv)) = Some ds"
    using build_dispatches_total [OF assms] by blast
  have "\<exists>rs. reload_once X S from_str path w lv = Some (lv\<lparr>lv_dispatches := ds, lv_resolver := rs\<rparr>)"
  proof (cases "lv_resolver lv = None \<or> cf_tls cfg = None")
    case True
    then have "reload_once X S from_str path w lv = Some (lv\<lparr>lv_dispatches := ds, lv_resolver := lv_resolver lv\<rparr>)"
      using Inr ds by (auto simp: reload_once_def Let_def split: option.splits)
    then show ?thesis by blast
  next
    case False
    then obtain r t where rt: "lv_resolver lv = Some r" "cf_tls cfg = Some t" by auto
    obtain res where "build_table (rw_tls w) S (tc_certs t) = Some res" using build_table_not_None by blast
    with rt Inr ds show ?thesis by (simp add: reload_once_def Let_def resolver_reload_swap) blast
  qed
  with Inr build_dispatches_nth [OF ds] show ?thesis
    by (auto simp: loads_def built_by_def)
qed

lemma reload_loop_cases:
  assumes "authority_ok X"
  shows "\<exists>lv'. reload_loop X S from_str path ws lv = Some lv'
    \<and> length (lv_dispatches lv') = length (lv_dispatches lv)
    \<and> (case effective from_str path ws of
         None \<Rightarrow> lv' = lv
       | Some w \<Rightarrow> (\<exists>cfg. loads from_str path w = Some cfg \<and> built_by X cfg w (lv_dispatches lv')))"
proof (induction ws arbitrary: lv)
  case Nil
  then show ?case by (simp add: effective_def)
next
  case (Cons w ws)
  obtain lv1 where once: "reload_once X S from_str path w lv = Some lv1"
      "length (lv_dispatches lv1) = length (lv_dispatches lv)"
      "case loads from_str path w of None \<Rightarrow> lv1 = lv | Some cfg \<Rightarrow> built_by X cfg w (lv_dispatches lv1)"
    using reload_once_cases [OF assms] by blast
  obtain lv2 where rest: "reload_loop X S from_str path ws lv1 = Some lv2"
      "length (lv_dispatches lv2) = length (lv_dispatches lv1)"
      "case effective from_str path ws of None \<Rightarrow> lv2 = lv1
       | Some w \<Rightarrow> (\<exists>cfg. loads from_str path w = Some cfg \<and> built_by X cfg w (lv_dispatches lv2))"
    using Cons.IH [of lv1] by blast
  show ?case
    using once rest
    by (cases "rw_done w"; cases "effective from_str path ws"; cases "loads from_str path w")
      (auto simp: effective_Cons)
qed

subsection \<open>Slots\<close>

lemma setup_calls_nth:
  "setup_calls n counter k = map (\<lambda>j. unat ((counter + of_nat j) mod n)) [0..<k]"
  by (induction k arbitrary: counter)
    (simp_all add: setup_slot_def upt_conv_Cons map_Suc_upt [symmetric] o_def add.assoc del: upt_Suc)

lemma count_list_distinct: "distinct xs \<Longrightarrow> count_list xs x = (if x \<in> set xs then 1 else 0)"
  by (induction xs) auto

lemma count_mod_upt:
  "0 < n \<Longrightarrow> i < n \<Longrightarrow> count_list (map (\<lambda>j. j mod n) [0..<n * l]) i = l"
proof (induction l)
  case (Suc l)
  have "map (\<lambda>j. j mod n) [n * l..<n * l + n] = [0..<n]"
    by (rule nth_equalityI) simp_all
  moreover have "count_list [0..<n] i = 1"
    using Suc.prems by (simp add: count_list_distinct)
  moreover have "[0..<n * Suc l] = [0..<n * l] @ [n * l..<n * l + n]"
    using upt_add_eq_append [of 0 "n * l" n] by (simp add: add.commute)
  ultimately show ?case using Suc by simp
qed simp

subsection \<open>Shutdown\<close>

lemma proc_run_append: "proc_run p es p' \<Longrightarrow> proc_run p' es' p'' \<Longrightarrow> proc_run p (es @ es') p''"
  by (induction rule: proc_run.induct) (auto intro: proc_run.intros)

text \<open>Where the main thread is says which flags it has set and which threads it has joined.\<close>

definition pc_rank :: "main_pc \<Rightarrow> nat" where
  "pc_rank pc = (case pc of WaitServer \<Rightarrow> 0 | JoinReload \<Rightarrow> 1 | JoinHealth \<Rightarrow> 2 | JoinAdmin \<Rightarrow> 3
                 | JoinHttps \<Rightarrow> 4 | JoinH3 \<Rightarrow> 5 | JoinSignal \<Rightarrow> 6 | Exit \<Rightarrow> 7)"

definition proc_inv :: "proc \<Rightarrow> bool" where
  "proc_inv p \<longleftrightarrow>
     (1 \<le> pc_rank (pr_main p) \<longrightarrow> pr_reload_done p \<and> \<not> th_http p)
     \<and> (2 \<le> pc_rank (pr_main p) \<longrightarrow> pr_health_cancel p \<and> \<not> th_reload p)
     \<and> (3 \<le> pc_rank (pr_main p) \<longrightarrow> pr_admin_cancel p \<and> \<not> th_health p)
     \<and> (4 \<le> pc_rank (pr_main p) \<longrightarrow> pr_https_cancel p \<and> \<not> th_admin p)
     \<and> (5 \<le> pc_rank (pr_main p) \<longrightarrow> pr_h3_cancel p \<and> \<not> th_https p)
     \<and> (6 \<le> pc_rank (pr_main p) \<longrightarrow> pr_signal_done p \<and> \<not> th_h3 p)
     \<and> (7 \<le> pc_rank (pr_main p) \<longrightarrow> \<not> th_signal p)
     \<and> (pr_reload_done p \<longrightarrow> 1 \<le> pc_rank (pr_main p))"

interpretation shutdown: inductive_invariant proc_init "\<lambda>p p'. \<exists>e. proc_step p e p'" proc_inv
proof
  fix p p'
  show "proc_init p \<Longrightarrow> proc_inv p" by (auto simp: proc_init_def proc_inv_def pc_rank_def)
  assume inv: "proc_inv p" and "\<exists>e. proc_step p e p'"
  then obtain e where "proc_step p e p'" by blast
  then show "proc_inv p'" by cases (use inv in \<open>auto simp: proc_inv_def pc_rank_def\<close>)
qed

lemma proc_run_inv: "proc_inv p \<Longrightarrow> proc_run p es p' \<Longrightarrow> proc_inv p'"
  by (rotate_tac, induction rule: proc_run.induct) (auto intro: shutdown.step_inv)

text \<open>A live signal thread has not shut anything down yet; a dead one has, or was told not to.\<close>

definition signal_inv :: "proc \<Rightarrow> bool" where
  "signal_inv p \<longleftrightarrow> (th_signal p \<or> pr_http_flag p \<or> pr_signal_done p)
     \<and> (pr_signal_done p \<longrightarrow> 6 \<le> pc_rank (pr_main p))"

lemma proc_run_signal: "signal_inv p \<Longrightarrow> proc_run p es p' \<Longrightarrow> signal_inv p'"
proof (rotate_tac, induction rule: proc_run.induct)
  case (proc_cons p e p' es p'')
  from proc_cons.hyps(1) proc_cons.prems have "signal_inv p'"
    by cases (auto simp: signal_inv_def pc_rank_def)
  then show ?case by (rule proc_cons.IH)
qed simp

text \<open>A thread whose flag is set can end, or has.\<close>

lemma settle:
  assumes "th \<Longrightarrow> proc_step p e q" and "\<not> th \<Longrightarrow> q = p"
  shows "\<exists>es. proc_run p es q"
  using assms proc_nil proc_cons by (cases th) blast+

lemma thread_settles:
  "pr_http_flag p \<Longrightarrow> \<exists>es. proc_run p es (p\<lparr>th_http := False\<rparr>)"
  "pr_reload_done p \<Longrightarrow> \<exists>es. proc_run p es (p\<lparr>th_reload := False\<rparr>)"
  "pr_health_cancel p \<Longrightarrow> \<exists>es. proc_run p es (p\<lparr>th_health := False\<rparr>)"
  "pr_admin_cancel p \<Longrightarrow> \<exists>es. proc_run p es (p\<lparr>th_admin := False\<rparr>)"
  "pr_https_cancel p \<Longrightarrow> \<exists>es. proc_run p es (p\<lparr>th_https := False\<rparr>)"
  "pr_h3_cancel p \<Longrightarrow> \<exists>es. proc_run p es (p\<lparr>th_h3 := False\<rparr>)"
  "pr_signal_done p \<Longrightarrow> \<exists>es. proc_run p es (p\<lparr>th_signal := False\<rparr>)"
  by (rule settle, erule (1) http_ends sighup_done health_ends admin_ends https_ends h3_ends sigterm_done, simp)+

text \<open>The server can end: it has, or its flag is set, or the signal thread is there to set it.\<close>

lemma server_settles:
  assumes "signal_inv p" "pr_main p = WaitServer"
  shows "\<exists>es q. proc_run p es q \<and> pr_main q = WaitServer \<and> \<not> th_http q"
proof (cases "pr_http_flag p")
  case True
  then show ?thesis using thread_settles(1) assms(2) by fastforce
next
  case False
  then have "th_signal p" "\<not> pr_signal_done p"
    using assms by (auto simp: signal_inv_def pc_rank_def)
  note shutdown_step = sigterm_shutdown [OF this]
  obtain es where "proc_run (p\<lparr>th_signal := False, pr_http_flag := True, pr_https_cancel := True,
      pr_h3_cancel := True, pr_admin_cancel := True\<rparr>) es (p\<lparr>th_signal := False, pr_http_flag := True,
      pr_https_cancel := True, pr_h3_cancel := True, pr_admin_cancel := True, th_http := False\<rparr>)"
    using thread_settles(1) by fastforce
  with proc_cons [OF shutdown_step] assms(2) show ?thesis by fastforce
qed

text \<open>From each stage the main thread can reach the next one.\<close>

lemma next_stage:
  assumes "proc_inv p" "signal_inv p" "pr_main p \<noteq> Exit"
  shows "\<exists>es p'. proc_run p es p' \<and> pc_rank (pr_main p') = Suc (pc_rank (pr_main p))"
proof -
  have step: ?thesis if "\<exists>es. proc_run p es q" "proc_step q MainStep r"
    "pc_rank (pr_main r) = Suc (pc_rank (pr_main p))" for q r
    using that by (blast intro: proc_run_append proc_cons proc_nil)
  note inv = assms(1) [unfolded proc_inv_def]
  show ?thesis
  proof (cases "pr_main p")
    case WaitServer
    then obtain es q where "proc_run p es q" "pr_main q = WaitServer" "\<not> th_http q"
      using server_settles assms(2) by blast
    with WaitServer show ?thesis by (intro step [OF _ main_server]) (auto simp: pc_rank_def)
  next
    case JoinReload
    with inv show ?thesis by (intro step [OF thread_settles(2) main_reload]) (auto simp: pc_rank_def)
  next
    case JoinHealth
    with inv show ?thesis by (intro step [OF thread_settles(3) main_health]) (auto simp: pc_rank_def)
  next
    case JoinAdmin
    with inv show ?thesis by (intro step [OF thread_settles(4) main_admin]) (auto simp: pc_rank_def)
  next
    case JoinHttps
    with inv show ?thesis by (intro step [OF thread_settles(5) main_https]) (auto simp: pc_rank_def)
  next
    case JoinH3
    with inv show ?thesis by (intro step [OF thread_settles(6) main_h3]) (auto simp: pc_rank_def)
  next
    case JoinSignal
    with inv show ?thesis by (intro step [OF thread_settles(7) main_signal]) (auto simp: pc_rank_def)
  qed (use assms(3) in simp)
qed

lemma reach_exit:
  assumes "proc_inv p" "signal_inv p"
  shows "\<exists>es p'. proc_run p es p' \<and> pr_main p' = Exit"
  using assms
proof (induction "7 - pc_rank (pr_main p)" arbitrary: p rule: less_induct)
  case less
  show ?case
  proof (cases "pr_main p = Exit")
    case True
    then show ?thesis using proc_nil by blast
  next
    case False
    obtain es p1 where p1: "proc_run p es p1" "pc_rank (pr_main p1) = Suc (pc_rank (pr_main p))"
      using next_stage [OF less.prems False] by blast
    have "pc_rank (pr_main p) < 7" using False by (cases "pr_main p") (simp_all add: pc_rank_def)
    with p1(2) have "7 - pc_rank (pr_main p1) < 7 - pc_rank (pr_main p)" by simp
    then obtain es' p2 where "proc_run p1 es' p2" "pr_main p2 = Exit"
      using less.hyps [of p1] proc_run_inv [OF less.prems(1) p1(1)]
        proc_run_signal [OF less.prems(2) p1(1)] by blast
    with p1(1) show ?thesis by (blast intro: proc_run_append)
  qed
qed

subsection \<open>Inputs for the witnesses\<close>

definition sample_world :: "string + string \<Rightarrow> (string, string, string list) reload_world" where
  "sample_world content =
     \<lparr>rw_done = False, rw_read_to_string = (\<lambda>_. content), rw_env = None, rw_is_file = (\<lambda>_. True),
      rw_tls = sample_tls_crates, rw_clk = (\<lambda>_ _. 0)\<rparr>"

lemma sample_authority_ok: "authority_ok sample_crates"
  by (simp add: authority_ok_def sample_crates_def)

text \<open>All threads of a configuration with every plane run.\<close>

definition started :: "bool \<Rightarrow> proc" where
  "started http =
     \<lparr>pr_main = WaitServer, pr_http_flag = False, pr_reload_done = False, pr_health_cancel = False,
      pr_admin_cancel = False, pr_https_cancel = False, pr_h3_cancel = False, pr_signal_done = False,
      th_http = http, th_reload = True, th_health = True, th_admin = True, th_https = True,
      th_h3 = True, th_signal = True\<rparr>"

lemma started_init: "proc_init (started http)"
  by (simp add: proc_init_def started_def)

section \<open>Properties\<close>

text \<open>
  C34. Hot reload: for any sequence of SIGHUPs, each seeing its own files, the reload thread
  does not panic and keeps the number of dispatchers; if no document loaded (before the thread
  was told to stop) nothing changed, certificates included, and otherwise every dispatcher,
  the primary and each worker's, is the one built from the last document that loaded.
\<close>

theorem reload_last_good:
  assumes "authority_ok X"
  shows "\<exists>lv'. reload_loop X S from_str path ws lv = Some lv'
    \<and> length (lv_dispatches lv') = length (lv_dispatches lv)
    \<and> (case effective from_str path ws of
         None \<Rightarrow> lv' = lv
       | Some w \<Rightarrow> (\<exists>cfg. loads from_str path w = Some cfg \<and> built_by X cfg w (lv_dispatches lv')))"
  using assms by (rule reload_loop_cases)

theorem reload_last_good_witness:
  "\<forall>d. \<exists>lv. reload_loop sample_crates sample_sign_crates (\<lambda>t. if t = ''ok'' then Inr sample_config else Inl ''bad'')
      ''conduit.toml'' [sample_world (Inr ''ok''), sample_world (Inr ''typo''), sample_world (Inl ''gone'')]
      \<lparr>lv_dispatches = [d, d], lv_resolver = None\<rparr> = Some lv
   \<and> built_by sample_crates sample_config (sample_world (Inr ''ok'')) (lv_dispatches lv)
   \<and> length (lv_dispatches lv) = 2"
proof -
  let ?from = "\<lambda>t. if t = ''ok'' then Inr sample_config else Inl ''bad''"
  have "check_logic sample_config \<lparr>vo_allow_insecure_tls = False\<rparr> = Inr ()"
    by (simp add: check_logic_def check_upstream_tls_def check_upstream_health_def
        check_tls_section_def sample_defs)
  then have ok: "loads ?from ''conduit.toml'' (sample_world (Inr ''ok'')) = Some sample_config"
    by (simp add: loads_def sample_world_def load_config_def parse_config_def check_def
        check_filesystem_def sample_config_def de_config_def)
  have bad: "loads ?from ''conduit.toml'' (sample_world (Inr ''typo'')) = None"
    "loads ?from ''conduit.toml'' (sample_world (Inl ''gone'')) = None"
    by (simp_all add: loads_def sample_world_def load_config_def parse_config_def)
  have "effective ?from ''conduit.toml''
      [sample_world (Inr ''ok''), sample_world (Inr ''typo''), sample_world (Inl ''gone'')]
      = Some (sample_world (Inr ''ok''))"
    using ok bad by (simp add: effective_def) (simp add: sample_world_def)
  then show ?thesis
    using ok reload_last_good [OF sample_authority_ok, of sample_sign_crates ?from "''conduit.toml''"
        "[sample_world (Inr ''ok''), sample_world (Inr ''typo''), sample_world (Inl ''gone'')]"
        "\<lparr>lv_dispatches = [d, d], lv_resolver = None\<rparr>" for d]
    by fastforce
qed

text \<open>
  Worker slots: whatever the interleaving of the workers, the \<open>n * l\<close> setup calls of \<open>n\<close>
  workers with \<open>l\<close> listeners hand out every dispatcher slot exactly \<open>l\<close> times, and every slot
  handed out exists.
\<close>

theorem worker_slots_balanced:
  assumes "n \<noteq> 0" and "unat n * l < 2 ^ 64"
  shows "set (setup_calls n 0 (unat n * l)) \<subseteq> {0..<unat n}
    \<and> (\<forall>i < unat n. count_list (setup_calls n 0 (unat n * l)) i = l)"
proof -
  have n: "0 < unat n" using assms(1) by (simp add: unat_gt_0)
  have "unat ((of_nat j :: usize) mod n) = j mod unat n" if "j < unat n * l" for j
    using that assms(2) by (simp add: unat_mod_distrib unat_of_nat)
  then have "setup_calls n 0 (unat n * l) = map (\<lambda>j. j mod unat n) [0..<unat n * l]"
    by (simp add: setup_calls_nth)
  then show ?thesis using n count_mod_upt [OF n] by auto
qed

theorem worker_slots_balanced_witness: "count_list (setup_calls 4 0 8) 3 = 2"
  using worker_slots_balanced [of 4 2] by simp





text \<open>
  C33. But it takes a SIGHUP: as long as none arrives, the main thread never gets past joining
  the reload thread, however many SIGTERMs were handled; the reload thread looks at its flag
  only when a signal wakes it.
\<close>

theorem exit_needs_sighup:
  assumes "proc_init p" and "th_reload p" and "proc_run p es p'" and "Sighup \<notin> set es"
  shows "pr_main p' = WaitServer \<or> pr_main p' = JoinReload"
proof -
  have "pr_main p = WaitServer \<or> pr_main p = JoinReload" using assms(1) by (simp add: proc_init_def)
  from assms(3,2,4) this have "(pr_main p' = WaitServer \<or> pr_main p' = JoinReload) \<and> th_reload p'"
  proof (induction rule: proc_run.induct)
    case (proc_cons p e p' es p'')
    from proc_cons.hyps(1) proc_cons.prems
    have "th_reload p' \<and> (pr_main p' = WaitServer \<or> pr_main p' = JoinReload)" by cases auto
    with proc_cons show ?case by simp
  qed simp
  then show ?thesis ..
qed

theorem exit_needs_sighup_witness:
  "\<exists>p. proc_run (started True) [Sigterm, ThreadEnds, MainStep] p \<and> pr_main p = JoinReload"
proof -
  let ?p1 = "(started True)\<lparr>th_signal := False, pr_http_flag := True, pr_https_cancel := True,
      pr_h3_cancel := True, pr_admin_cancel := True\<rparr>"
  let ?p2 = "?p1\<lparr>th_http := False\<rparr>"
  let ?p3 = "?p2\<lparr>pr_main := JoinReload, pr_reload_done := True\<rparr>"
  have "proc_step (started True) Sigterm ?p1" by (rule sigterm_shutdown) (simp_all add: started_def)
  moreover have "proc_step ?p1 ThreadEnds ?p2" by (rule http_ends) (simp_all add: started_def)
  moreover have "proc_step ?p2 MainStep ?p3" by (rule main_server) (simp_all add: started_def)
  ultimately have run: "proc_run (started True) [Sigterm, ThreadEnds, MainStep] ?p3"
    by (blast intro: proc_cons proc_nil)
  from exit_needs_sighup [OF started_init _ run] run show ?thesis by (auto simp: started_def)
qed

text \<open>
  Without a plain-HTTP listener a SIGHUP is a shutdown: the main thread is already joining
  the reload thread, so the first reload signal ends it, and the process goes on to cancel the
  HTTPS and H3 listeners without any SIGTERM.
\<close>

theorem https_only_sighup_stops:
  assumes "proc_init p" and "\<not> th_http p" and "th_reload p"
  shows "\<exists>es p'. proc_run p es p' \<and> Sigterm \<notin> set es \<and> count_list es Sighup = 1
    \<and> pr_https_cancel p' \<and> pr_main p' = JoinHttps"
proof -
  let ?p1 = "p\<lparr>pr_main := JoinReload, pr_reload_done := True\<rparr>"
  let ?p2 = "?p1\<lparr>th_reload := False\<rparr>"
  let ?p3 = "?p2\<lparr>pr_main := JoinHealth, pr_health_cancel := True\<rparr>"
  let ?p4 = "?p3\<lparr>th_health := False\<rparr>"
  let ?p5 = "?p4\<lparr>pr_main := JoinAdmin, pr_admin_cancel := True\<rparr>"
  let ?p6 = "?p5\<lparr>th_admin := False\<rparr>"
  let ?p7 = "?p6\<lparr>pr_main := JoinHttps, pr_https_cancel := True\<rparr>"
  have idle: "\<exists>es. proc_run q es r \<and> set es \<subseteq> {ThreadEnds}"
    if "th \<Longrightarrow> proc_step q ThreadEnds r" "\<not> th \<Longrightarrow> r = q" for th q r
    using that proc_nil [of q] proc_cons [OF _ proc_nil, of q ThreadEnds r] by (cases th) force+
  obtain es1 where es1: "proc_run ?p3 es1 ?p4" "set es1 \<subseteq> {ThreadEnds}"
    using idle [of "th_health ?p3" ?p3 ?p4, OF health_ends] by force
  obtain es2 where es2: "proc_run ?p5 es2 ?p6" "set es2 \<subseteq> {ThreadEnds}"
    using idle [of "th_admin ?p5" ?p5 ?p6, OF admin_ends] by force
  have "proc_step p MainStep ?p1" using assms by (intro main_server) (simp_all add: proc_init_def)
  moreover have "proc_step ?p1 Sighup ?p2" using assms by (intro sighup_done) simp_all
  moreover have "proc_step ?p2 MainStep ?p3" by (rule main_reload) simp_all
  moreover have "proc_step ?p4 MainStep ?p5" by (rule main_health) simp_all
  moreover have "proc_step ?p6 MainStep ?p7" by (rule main_admin) simp_all
  ultimately have "proc_run p ([MainStep, Sighup, MainStep] @ es1 @ MainStep # es2 @ [MainStep]) ?p7"
    using es1 es2 by (blast intro: proc_run_append proc_cons proc_nil append_Cons [THEN subst])
  moreover have "count_list es Sighup = 0" if "set es \<subseteq> {ThreadEnds}" for es
    using that by (auto simp: count_list_0_iff)
  ultimately show ?thesis using es1(2) es2(2)
    by (intro exI [of _ "[MainStep, Sighup, MainStep] @ es1 @ MainStep # es2 @ [MainStep]"] exI [of _ ?p7])
      auto
qed

theorem https_only_sighup_stops_witness:
  "\<exists>es p. proc_run (started False) es p \<and> Sigterm \<notin> set es \<and> pr_https_cancel p"
  using https_only_sighup_stops [OF started_init] by (fastforce simp: started_def)

end
