(* ===== verification/Conduit_Exit.thy ===== *)
theory Conduit_Exit
  imports Conduit_Main
begin

text \<open>
  \<open>main\<close> of \<^verbatim>\<open>conduit/src/main.rs\<close> from the loaded document to the exit code: which threads come
  up, in the order the code starts them, and what the process reports at the end. The threads
  themselves and the shutdown between them are in \<open>Conduit_Main\<close>.
\<close>

section \<open>Model\<close>

text \<open>
  What the process meets when it starts. \<open>bo_*_up\<close> say whether a thread that was started got a
  runtime and could bind (or, for the signal threads, install its handler): if not it ends at
  once.
\<close>

record ('cert, 'key, 'roots, 'sk, 'quic) boot =
  bo_tls :: "('cert, 'key, 'roots) tls_crates"
  bo_sign :: "('key, 'sk) sign_crates"
  bo_quic :: "('cert, 'sk) certified_key server_config_tls \<Rightarrow> string + 'quic"
  bo_clk :: "nat \<Rightarrow> nat \<Rightarrow> instant"
  bo_parallelism :: "usize option"
  bo_net :: net
  bo_spawn :: "nat \<Rightarrow> string + unit"
  bo_now :: instant
  bo_https_up :: bool
  bo_h3_up :: bool
  bo_admin_up :: bool
  bo_health_up :: bool
  bo_reload_up :: bool
  bo_signal_up :: bool

text \<open>The process once it is up.\<close>

record ('re, 'cl, 'ck) booted =
  bt_proc :: proc
  bt_server :: "server option"
  bt_dispatches :: "('re, 'cl) dispatch_bundle"
  bt_resolver :: "'ck resolver option"
  bt_probes :: "'cl probe list"

definition plain_http :: "net \<Rightarrow> (nat \<Rightarrow> string + unit) \<Rightarrow> instant \<Rightarrow> config \<Rightarrow> serve_spec
  \<Rightarrow> (bind_error + server option) option" where
  "plain_http N spawn now cfg spec =
     (if sc_listen_http (cf_server cfg) = [] then Some (Inr None)
      else map_option (map_sum id Some) (serve N spawn now spec))"

text \<open>\<open>main\<close> up to the point where it blocks; \<open>Inl\<close> is an exit code.\<close>

definition main_start ::
  "('re, 'hm) crates \<Rightarrow> ('cert, 'key, 'roots, 'sk, 'quic) boot \<Rightarrow> config_error + config \<Rightarrow> bool
   \<Rightarrow> (nat + ('re, ('cert, 'key, 'roots) connector, ('cert, 'sk) certified_key) booted) option" where
  "main_start X B loaded check_only =
     (case loaded of
        Inl e \<Rightarrow> Some (Inl 2)
      | Inr cfg \<Rightarrow>
          if check_only then Some (Inl 0)
          else if sc_listen_http (cf_server cfg) = [] \<and> sc_listen_https (cf_server cfg) = []
                  \<and> sc_listen_h3 (cf_server cfg) = []
          then Some (Inl 78)
          else
            (let spec = build_serve_spec (bo_parallelism B) cfg in
             case build_dispatch_bundle X (bo_tls B) (bo_clk B) cfg (unat (sp_workers spec)) of
               None \<Rightarrow> None
             | Some dispatches \<Rightarrow>
                 (case spawn_https (bo_tls B) (bo_sign B) cfg of
                    None \<Rightarrow> None
                  | Some https \<Rightarrow>
                      (case spawn_h3 (bo_tls B) (bo_sign B) (bo_quic B) cfg of
                         None \<Rightarrow> None
                       | Some h3 \<Rightarrow>
                           (let probes = health_probes (bo_tls B) (db_primary dispatches) cfg in
                            case plain_http (bo_net B) (bo_spawn B) (bo_now B) cfg spec of
                              None \<Rightarrow> None
                            | Some (Inl e) \<Rightarrow> Some (Inl 1)
                            | Some (Inr srv) \<Rightarrow>
                                Some (Inr
                                  \<lparr>bt_proc =
                                     \<lparr>pr_main = WaitServer, pr_http_flag = False, pr_reload_done = False,
                                      pr_health_cancel = False, pr_admin_cancel = False,
                                      pr_https_cancel = False, pr_h3_cancel = False,
                                      pr_signal_done = False, th_http = (srv \<noteq> None),
                                      th_reload = bo_reload_up B,
                                      th_health = (probes \<noteq> [] \<and> bo_health_up B),
                                      th_admin = bo_admin_up B,
                                      th_https = (https \<noteq> None \<and> bo_https_up B),
                                      th_h3 = (h3 \<noteq> None \<and> bo_h3_up B),
                                      th_signal = bo_signal_up B\<rparr>,
                                   bt_server = srv, bt_dispatches = dispatches,
                                   bt_resolver = map_option snd https, bt_probes = probes\<rparr>))))))"

text \<open>
  The end of \<open>main\<close>: \<open>counts\<close> are what the workers of the server hand back when they are joined,
  \<open>t\<close> the instant after the last join, \<open>wait\<close> the backend's way of adding them up.
\<close>

definition exit_code ::
  "(instant \<Rightarrow> instant \<Rightarrow> (u64 \<times> u64) option list \<Rightarrow> shutdown_report)
   \<Rightarrow> ('re, 'cl, 'ck) booted \<Rightarrow> (u64 \<times> u64) option list \<Rightarrow> instant \<Rightarrow> nat" where
  "exit_code wait b counts t =
     (let report = (case bt_server b of
                      None \<Rightarrow> \<lparr>sh_accepted = 0, sh_completed = 0, sh_elapsed = 0\<rparr>
                    | Some s \<Rightarrow> wait (sr_started s) t counts) in
      if sh_accepted report = sh_completed report then 0 else 1)"

section \<open>Lemmas\<close>

text \<open>A worker of the server that has returned, after the events \<open>es\<close>.\<close>

definition worker_ended :: "duration \<Rightarrow> shard \<Rightarrow> event list \<Rightarrow> worker \<Rightarrow> bool" where
  "worker_ended deadline listeners es s \<longleftrightarrow>
     (\<exists>n s0. n \<le> length listeners \<and> worker_init n s0 \<and> worker_run deadline s0 es s) \<and> \<not> running s"

lemma worker_ended_counts:
  assumes "worker_ended deadline listeners es s" "accepts es < 2 ^ 64"
  shows "\<exists>a c. worker_counts_of s = Some (a, c) \<and> unat a = accepts es \<and> unat c \<le> unat a
    \<and> (a = c \<longleftrightarrow> wk_inflight s = 0 \<and> wk_lost s = 0)"
proof -
  obtain n s0 where run: "worker_init n s0" "worker_run deadline s0 es s"
    using assms(1) by (auto simp: worker_ended_def)
  obtain waited a c where ret: "wk_phase s = Returned waited a c"
    using assms(1) by (auto simp: worker_ended_def running_def split: phase.splits)
  have "a = wk_accepted s" "c = wk_completed s"
    using worker_run_inv [OF run] ret by (simp_all add: worker_inv_def)
  with worker_counts [OF run assms(2)] ret show ?thesis
    by (intro exI [of _ a] exI [of _ c]) (auto simp: worker_counts_of_def word_unat_eq_iff)
qed

lemma load_server_total [no_panic]: "load_server_config_with_resolver Y S c \<noteq> None"
  using build_table_not_None [of Y S "tc_certs c"]
  by (auto simp: load_server_config_with_resolver_def resolver_from_config_def split: sum.splits)

lemma spawn_https_total [no_panic]: "spawn_https Y S cfg \<noteq> None"
  by (auto simp: spawn_https_def no_panic split: option.split sum.split)

lemma spawn_h3_total [no_panic]: "spawn_h3 Y S try_from cfg \<noteq> None"
  by (auto simp: spawn_h3_def load_server_config_def no_panic split: option.split sum.split)

lemma build_dispatch_bundle_total [no_panic]: "authority_ok X \<Longrightarrow> build_dispatch_bundle X Y clk cfg n \<noteq> None"
  by (auto simp: build_dispatch_bundle_def no_panic split: option.split)

lemma plain_http_total [no_panic]: "sp_workers spec \<noteq> 0 \<Longrightarrow> plain_http N spawn now cfg spec \<noteq> None"
  by (simp add: plain_http_def no_panic del: not_None_eq)

lemma plain_http_iff:
  "plain_http N spawn now cfg spec = Some (Inl e) \<longleftrightarrow>
     sc_listen_http (cf_server cfg) \<noteq> [] \<and> serve N spawn now spec = Some (Inl e)"
  "plain_http N spawn now cfg spec = Some (Inr srv) \<longleftrightarrow>
     (case srv of
        None \<Rightarrow> sc_listen_http (cf_server cfg) = []
      | Some s \<Rightarrow> sc_listen_http (cf_server cfg) \<noteq> [] \<and> serve N spawn now spec = Some (Inr s))"
proof -
  have "map_sum id Some r = Inl e \<longleftrightarrow> r = Inl e" for r :: "bind_error + server" by (cases r) auto
  moreover have "map_sum id Some r = Inr srv \<longleftrightarrow> (\<exists>s. srv = Some s \<and> r = Inr s)"
    for r :: "bind_error + server" by (cases r) auto
  ultimately show "plain_http N spawn now cfg spec = Some (Inl e) \<longleftrightarrow>
      sc_listen_http (cf_server cfg) \<noteq> [] \<and> serve N spawn now spec = Some (Inl e)"
    "plain_http N spawn now cfg spec = Some (Inr srv) \<longleftrightarrow>
       (case srv of
          None \<Rightarrow> sc_listen_http (cf_server cfg) = []
        | Some s \<Rightarrow> sc_listen_http (cf_server cfg) \<noteq> [] \<and> serve N spawn now spec = Some (Inr s))"
    by (auto simp: plain_http_def split: option.split)
qed

lemma build_serve_spec_workers:
  "sp_workers (build_serve_spec avail cfg) = resolve_workers avail (sc_workers (cf_server cfg))"
  by (simp add: build_serve_spec_def serve_spec_new_def)

lemma health_probes_configured:
  "health_probes Y snapshot cfg \<noteq> [] \<Longrightarrow> \<exists>u\<in>set (cf_upstreams cfg). uc_health_check u \<noteq> None"
  by (auto simp: health_probes_def map_filter_def filter_empty_conv health_probe_def
      split: option.splits)

lemma spawned_tls:
  "spawn_https Y S cfg = Some (Some p) \<Longrightarrow> sc_listen_https (cf_server cfg) \<noteq> [] \<and> cf_tls cfg \<noteq> None"
  "spawn_h3 Y S try_from cfg = Some (Some q) \<Longrightarrow> sc_listen_h3 (cf_server cfg) \<noteq> [] \<and> cf_tls cfg \<noteq> None"
  by (auto simp: spawn_https_def spawn_h3_def split: if_splits option.splits)

subsection \<open>A start for the witnesses\<close>

definition sample_boot :: "(string, string, string list, string, unit) boot" where
  "sample_boot =
     \<lparr>bo_tls = sample_tls_crates, bo_sign = sample_sign_crates, bo_quic = (\<lambda>_. Inr ()),
      bo_clk = (\<lambda>_ _. 0), bo_parallelism = Some 1, bo_net = loopback, bo_spawn = (\<lambda>_. Inr ()),
      bo_now = 0, bo_https_up = True, bo_h3_up = True, bo_admin_up = True, bo_health_up = True,
      bo_reload_up = True, bo_signal_up = True\<rparr>"

lemma sample_workers: "resolve_workers (bo_parallelism sample_boot) (sc_workers (cf_server sample_config)) = 1"
  by (simp add: sample_boot_def sample_defs workers_default_def resolve_workers_def)

lemma sample_serve:
  "serve (bo_net sample_boot) (bo_spawn sample_boot) (bo_now sample_boot)
     (build_serve_spec (bo_parallelism sample_boot) sample_config) =
   Some (Inr \<lparr>sr_workers = [[(SocketAddrV4 127 0 0 1 8080, 0)]], sr_flag = False,
              sr_bound = [SocketAddrV4 127 0 0 1 8080], sr_started = 0\<rparr>)"
  by (simp add: build_serve_spec_def sample_boot_def sample_defs workers_default_def resolve_workers_def
      serve_def serve_spec_new_def loopback_def bind_socket_def)

section \<open>Properties\<close>



text \<open>
  C10. The exit code reports the drain: when every worker of the plain-HTTP server has returned, fewer
  than \<open>2 ^ 64\<close> connections were accepted in all and no worker panicked, the process ends with 0
  if every connection any worker ever accepted was handled to completion, and with 1 if some
  connection was cut off at the deadline or its handler panicked; with either backend.
\<close>

theorem exit_code_reports_drain:
  assumes "main_start X B (Inr cfg) False = Some (Inr b)" and "bt_server b = Some srv"
    and "list_all2 (\<lambda>listeners (es, s). worker_ended deadline listeners es s) (sr_workers srv) ws"
    and "sum_list (map (accepts \<circ> fst) ws) < 2 ^ 64"
    and "wait = wait_tokio \<or> wait = wait_monoio"
  shows "exit_code wait b (map (worker_counts_of \<circ> snd) ws) t =
    (if \<forall>(es, s)\<in>set ws. wk_inflight s = 0 \<and> wk_lost s = 0 then 0 else 1)"
proof -
  let ?joined = "map (worker_counts_of \<circ> snd) ws"
  have counts: "\<exists>a c. worker_counts_of s = Some (a, c) \<and> unat a = accepts es \<and> unat c \<le> unat a
      \<and> (a = c \<longleftrightarrow> wk_inflight s = 0 \<and> wk_lost s = 0)" if mem: "(es, s) \<in> set ws" for es s
  proof -
    obtain listeners where "worker_ended deadline listeners es s"
      using mem assms(3) by (fastforce simp: list_all2_conv_all_nth in_set_conv_nth)
    moreover have "accepts es \<le> sum_list (map (accepts \<circ> fst) ws)"
      using mem by (intro member_le_sum_list) force+
    ultimately show ?thesis using worker_ended_counts assms(4) by fastforce
  qed
  have le: "\<forall>p. Some p \<in> set ?joined \<longrightarrow> unat (snd p) \<le> unat (fst p)"
    using counts by fastforce
  have "map (\<lambda>w. case w of None \<Rightarrow> 0 | Some p \<Rightarrow> unat (fst p)) ?joined = map (accepts \<circ> fst) ws"
    using counts by fastforce
  with assms(4) have fits: "sum_list (map (\<lambda>w. case w of None \<Rightarrow> 0 | Some p \<Rightarrow> unat (fst p)) ?joined) < 2 ^ 64"
    by argo
  have "wait t0 t ?joined = wait_tokio t0 t ?joined" for t0
    using assms(5) wait_monoio_tokio [OF le fits] by auto
  moreover have "(\<forall>p. Some p \<in> set ?joined \<longrightarrow> fst p = snd p) \<longleftrightarrow>
      (\<forall>x\<in>set ws. \<forall>p. worker_counts_of (snd x) = Some p \<longrightarrow> fst p = snd p)"
    by (force simp: image_iff)
  moreover have "\<dots> \<longleftrightarrow> (\<forall>(es, s)\<in>set ws. wk_inflight s = 0 \<and> wk_lost s = 0)"
  proof (rule ball_cong)
    fix x
    assume "x \<in> set ws"
    with counts [of "fst x" "snd x"]
    show "(\<forall>p. worker_counts_of (snd x) = Some p \<longrightarrow> fst p = snd p) =
        (case x of (es, s) \<Rightarrow> wk_inflight s = 0 \<and> wk_lost s = 0)"
      by (cases x) auto
  qed simp
  ultimately show ?thesis
    using assms(2) wait_report_balanced [OF le fits] by (simp add: exit_code_def)
qed

theorem exit_code_reports_drain_witness:
  "\<exists>b. main_start sample_crates sample_boot (Inr sample_config) False = Some (Inr b)
     \<and> exit_code wait_monoio b [Some (1, 0)] 9 = 1"
proof -
  obtain dispatches where "build_dispatch_bundle sample_crates (bo_tls sample_boot) (bo_clk sample_boot)
      sample_config 1 = Some dispatches"
    using build_dispatch_bundle_total [OF sample_authority_ok] by blast
  then obtain b where b: "main_start sample_crates sample_boot (Inr sample_config) False = Some (Inr b)"
    "bt_server b = Some \<lparr>sr_workers = [[(SocketAddrV4 127 0 0 1 8080, 0)]], sr_flag = False,
       sr_bound = [SocketAddrV4 127 0 0 1 8080], sr_started = 0\<rparr>"
    using sample_serve sample_workers
    by (auto simp: main_start_def Let_def build_serve_spec_workers plain_http_def spawn_https_def
        spawn_h3_def sample_defs)
  let ?es = "[LoopWait 0, LoopAccept 0, Cancel, LoopBreak 0, LoopsJoined, DrainWait, Tick 5, DrainEnd]"
  let ?s = "\<lparr>wk_flag = True, wk_loops = [Exited], wk_inflight = 1, wk_lost = 0,
      wk_accepted = 1, wk_completed = 0, wk_phase = Returned 5 1 0, wk_now = 5\<rparr>"
  have "worker_ended 5 [(SocketAddrV4 127 0 0 1 8080, 0)] ?es ?s"
    using sample_run idle_worker_init [of 1] by (fastforce simp: worker_ended_def running_def)
  with exit_code_reports_drain [OF b, of 5 "[(?es, ?s)]" wait_monoio 9] b(1)
  show ?thesis by (auto simp: accepts_def worker_counts_of_def)
qed

end
