(* ===== verification/Conduit_Report.thy ===== *)
theory Conduit_Report
  imports Conduit_Exit
begin

text \<open>
  What the process tells its operator: the command line of \<^verbatim>\<open>conduit/src/main.rs\<close> (parsed by
  \<open>clap\<close>), the messages of the errors that end a start (\<^verbatim>\<open>conduit-config/src/error.rs\<close>,
  \<^verbatim>\<open>conduit-io/src/lib.rs\<close>), what \<open>main\<close> and \<open>print_chain\<close> write to standard error, and the
  set-up of logging (\<^verbatim>\<open>conduit/src/log.rs\<close>).
\<close>

section \<open>Model\<close>

record cli =
  cl_config :: string
  cl_check :: bool
  cl_log_json :: bool

subsection \<open>Messages\<close>

definition ticked :: "string \<Rightarrow> string" where
  "ticked s = [CHR 0x60] @ s @ [CHR 0x60]"

fun config_error_display :: "config_error \<Rightarrow> string" where
  "config_error_display (Read path source) = ''failed to read config file '' @ ticked path"
| "config_error_display (Toml source) = ''config syntax error''"
| "config_error_display (UnknownUpstream index name) =
     ''route #'' @ show_nat index @ '' references unknown upstream '' @ ticked name"
| "config_error_display (UpstreamNoAddrs index name) =
     ''upstream #'' @ show_nat index @ '' '' @ ticked name @ '' has no addresses''"
| "config_error_display (DuplicateUpstream name) = ''duplicate upstream name '' @ ticked name"
| "config_error_display NoRoutes = ''config has no [[route]] entries''"
| "config_error_display TlsRequired =
     ''server.listen_https or server.listen_h3 is set but [tls] is missing''"
| "config_error_display TlsNoCerts = ''[tls] section has no certs''"
| "config_error_display (CertMissing sni path) =
     ''cert file '' @ ticked path @ '' for sni '' @ ticked sni @ '' does not exist or is not a regular file''"
| "config_error_display (KeyMissing sni path) =
     ''key file '' @ ticked path @ '' for sni '' @ ticked sni @ '' does not exist or is not a regular file''"
| "config_error_display (RouteMatchEmpty index) =
     ''route #'' @ show_nat index @ '' match block has no host or path constraint''"
| "config_error_display (RoutePathConflict index) =
     ''route #'' @ show_nat index @ '' sets both path_prefix and path_exact''"
| "config_error_display (RetryAttemptsZero index) =
     ''route #'' @ show_nat index @ '' has retry.attempts = 0; omit the retry block instead''"
| "config_error_display (UpstreamMtlsMismatch name) =
     ''upstream '' @ ticked name @ '' tls.client_cert and tls.client_key must both be set, or both unset''"
| "config_error_display (UpstreamInsecureTlsNotOptedIn name) =
     ''upstream '' @ ticked name @ '' tls.verify = false rejected; set ''
     @ ''CONDUIT_ALLOW_INSECURE_TLS=1 in the environment to allow''"
| "config_error_display (HealthCheckBadDuration name field) =
     ''upstream '' @ ticked name @ '' health_check.'' @ field @ '' must be > 0''"

fun bind_error_display :: "bind_error \<Rightarrow> string" where
  "bind_error_display NoListeners = ''listener list is empty''"
| "bind_error_display (BindFailed addr source) = ''bind failed for '' @ addr_to_string addr"
| "bind_error_display (ThreadSpawn source) = ''worker thread spawn failed''"
| "bind_error_display TokioBackendUnimplemented =
     ''tokio runtime backend is not yet implemented; build for Linux for production use, ''
     @ ''or wait for Phase 11''"

text \<open>A \<open>dyn Error\<close>: how it prints, and the error it wraps. Wrapped library errors are leaves.\<close>

datatype err_chain = ErrNode (err_text: string) (err_source: "err_chain option")

definition config_error_chain :: "config_error \<Rightarrow> err_chain" where
  "config_error_chain e =
     ErrNode (config_error_display e)
       (case e of
          Read path source \<Rightarrow> Some (ErrNode source None)
        | Toml source \<Rightarrow> Some (ErrNode source None)
        | _ \<Rightarrow> None)"

definition bind_error_chain :: "bind_error \<Rightarrow> err_chain" where
  "bind_error_chain e =
     ErrNode (bind_error_display e)
       (case e of
          BindFailed addr source \<Rightarrow> Some (ErrNode source None)
        | ThreadSpawn source \<Rightarrow> Some (ErrNode source None)
        | _ \<Rightarrow> None)"

text \<open>The loop of \<open>print_chain\<close> over the sources; the lines written.\<close>

fun print_sources :: "err_chain option \<Rightarrow> string list" where
  "print_sources None = []"
| "print_sources (Some (ErrNode msg source)) = (''  caused by: '' @ msg) # print_sources source"

definition print_chain :: "err_chain \<Rightarrow> string list" where
  "print_chain err = (''  error: '' @ err_text err) # print_sources (err_source err)"

subsection \<open>Logging\<close>

text \<open>
  \<^verbatim>\<open>conduit/src/log.rs\<close>: \<open>try_from_env\<close> and \<open>env_filter_new\<close> are the filter parser of the
  logging library; installing the subscriber panics when the process already has one.
\<close>

record 'f subscriber =
  su_filter :: 'f
  su_json :: bool

definition log_init ::
  "(string \<Rightarrow> 'e + 'f) \<Rightarrow> (string \<Rightarrow> 'f) \<Rightarrow> bool \<Rightarrow> 'f subscriber option \<Rightarrow> 'f subscriber option" where
  "log_init try_from_env env_filter_new json installed =
     (let filter = (case try_from_env ''CONDUIT_LOG'' of Inr f \<Rightarrow> f | Inl _ \<Rightarrow> env_filter_new ''info'') in
      case installed of
        None \<Rightarrow> Some \<lparr>su_filter = filter, su_json = json\<rparr>
      | Some _ \<Rightarrow> None)"

subsection \<open>Starting\<close>

text \<open>\<open>main\<close> from the command line on: the lines on standard error, and what \<open>main_start\<close> yields.\<close>

definition main_begin ::
  "('re, 'hm) crates \<Rightarrow> ('cert, 'key, 'roots, 'sk, 'quic) boot
   \<Rightarrow> (string \<Rightarrow> string + string) \<Rightarrow> (string \<Rightarrow> string + config) \<Rightarrow> string option \<Rightarrow> (string \<Rightarrow> bool) \<Rightarrow> cli
   \<Rightarrow> string list
      \<times> (nat + ('re, ('cert, 'key, 'roots) connector, ('cert, 'sk) certified_key) booted) option" where
  "main_begin X B rd from_str env is_file cli =
     (let loaded = load_config rd from_str env is_file (cl_config cli);
          result = main_start X B loaded (cl_check cli) in
      (case loaded of
         Inl err \<Rightarrow>
           (''conduit: invalid config at '' @ cl_config cli) # print_chain (config_error_chain err)
       | Inr cfg \<Rightarrow>
           if result = Some (Inl 1)
           then (case plain_http (bo_net B) (bo_spawn B) (bo_now B) cfg (build_serve_spec (bo_parallelism B) cfg) of
                   Some (Inl e) \<Rightarrow> print_chain (bind_error_chain e)
                 | _ \<Rightarrow> [])
           else [],
       result))"

section \<open>Lemmas\<close>

text \<open>\<open>print_chain\<close> writes every error of the chain once, from the outside in.\<close>

primrec chain_texts :: "err_chain \<Rightarrow> string list" where
  "chain_texts (ErrNode msg source) =
     msg # (case map_option chain_texts source of None \<Rightarrow> [] | Some ts \<Rightarrow> ts)"

lemma print_chain_lines:
  "print_chain e = (''  error: '' @ hd (chain_texts e)) # map ((@) ''  caused by: '') (tl (chain_texts e))"
proof -
  have "print_sources (Some e) = map ((@) ''  caused by: '') (chain_texts e)" for e
  proof (induction e)
    case (ErrNode msg source)
    then show ?case by (cases source) (simp_all del: print_sources.simps(2) add: print_sources.simps)
  qed
  then show ?thesis by (cases e) (auto simp: print_chain_def split: option.split)
qed

lemma main_start_codes:
  "main_start X B loaded check_only = Some (Inl 2) \<longleftrightarrow> (\<exists>e. loaded = Inl e)"
  "main_start X B loaded check_only = Some (Inl 1) \<Longrightarrow>
     \<exists>cfg e. loaded = Inr cfg \<and> plain_http (bo_net B) (bo_spawn B) (bo_now B) cfg
       (build_serve_spec (bo_parallelism B) cfg) = Some (Inl e)"
  by (auto simp: main_start_def Let_def split: sum.splits option.splits if_splits)

text \<open>Logging comes up once: in a fresh process, whatever the variable holds, and not again.\<close>

lemma log_init_once:
  "\<exists>sub. log_init try_from_env env_filter_new json None = Some sub \<and> su_json sub = json
     \<and> ((\<exists>f. try_from_env ''CONDUIT_LOG'' = Inr f \<and> su_filter sub = f) \<or> su_filter sub = env_filter_new ''info'')
     \<and> log_init try_from_env env_filter_new json' (Some sub) = None"
  by (auto simp: log_init_def Let_def split: sum.split)

section \<open>Properties\<close>

text \<open>
  A start that fails says why, and only then: standard error gets lines exactly when the process
  ends with code 1 or 2; with code 2 they are the path, the message of the error and that of the
  error it wraps, if any, and with code 1 they are those of the bind error.
\<close>

theorem startup_reports:
  "let (err, result) = main_begin X B rd from_str env is_file cli in
   (err \<noteq> [] \<longleftrightarrow> result = Some (Inl 1) \<or> result = Some (Inl 2))
   \<and> (result = Some (Inl 2) \<longleftrightarrow> (\<exists>e. load_config rd from_str env is_file (cl_config cli) = Inl e
        \<and> err = (''conduit: invalid config at '' @ cl_config cli)
                # (''  error: '' @ config_error_display e)
                # (case e of Read path source \<Rightarrow> [''  caused by: '' @ source]
                   | Toml source \<Rightarrow> [''  caused by: '' @ source] | _ \<Rightarrow> [])))"
proof (cases "load_config rd from_str env is_file (cl_config cli)")
  case (Inl e)
  then have "main_start X B (Inl e) (cl_check cli) = Some (Inl 2)" by (simp add: main_start_def)
  with Inl show ?thesis
    by (auto simp: main_begin_def Let_def print_chain_def config_error_chain_def split: config_error.split)
next
  case (Inr cfg)
  have "main_start X B (Inr cfg) (cl_check cli) \<noteq> Some (Inl 2)" by (simp add: main_start_codes)
  moreover have "main_start X B (Inr cfg) (cl_check cli) = Some (Inl 1) \<Longrightarrow>
      \<exists>e. plain_http (bo_net B) (bo_spawn B) (bo_now B) cfg (build_serve_spec (bo_parallelism B) cfg) = Some (Inl e)"
    using main_start_codes(2) [of X B "Inr cfg" "cl_check cli"] by auto
  ultimately show ?thesis using Inr by (auto simp: main_begin_def Let_def print_chain_def)
qed

end
