(* ===== verification/Conduit_Scrape.thy ===== *)
theory Conduit_Scrape
  imports Conduit_Proxy "HOL-Library.Multiset"
begin

text \<open>
  \<^verbatim>\<open>conduit-control/src/metrics.rs\<close> at the grain of its atomics. A request updates the counters
  by single \<open>fetch_add\<close>s and a scrape (\<open>render\<close>) reads them by single \<open>load\<close>s, so the updates of
  any number of requests interleave with each other and with the loads. The steps are
  sequentially consistent; \<open>Relaxed\<close> orders the accesses of one counter only, and what depends
  on the order of two counters holds where the hardware keeps it (as x86 does).
\<close>

section \<open>Model\<close>

datatype counter =
    RequestsTotal
  | RequestsNoRoute
  | RequestsUpstreamUnknown
  | RequestsUpstreamFailed
  | Responses nat
  | DurationUsSum
  | DurationBucket nat
  | ClassSum nat
  | ClassBucket nat nat

fun load :: "metrics_handle \<Rightarrow> counter \<Rightarrow> u64" where
  "load m RequestsTotal = mh_requests_total m"
| "load m RequestsNoRoute = mh_requests_no_route m"
| "load m RequestsUpstreamUnknown = mh_requests_upstream_unknown m"
| "load m RequestsUpstreamFailed = mh_requests_upstream_failed m"
| "load m (Responses idx) = class_responses m idx"
| "load m DurationUsSum = mh_duration_us_sum m"
| "load m (DurationBucket i) = mh_duration_buckets m ! i"
| "load m (ClassSum idx) = ch_sum_us (mh_duration_by_class m ! idx)"
| "load m (ClassBucket idx i) = ch_buckets (mh_duration_by_class m ! idx) ! i"

fun fetch_add :: "metrics_handle \<Rightarrow> counter \<times> u64 \<Rightarrow> metrics_handle" where
  "fetch_add m (RequestsTotal, v) = m\<lparr>mh_requests_total := mh_requests_total m + v\<rparr>"
| "fetch_add m (RequestsNoRoute, v) = m\<lparr>mh_requests_no_route := mh_requests_no_route m + v\<rparr>"
| "fetch_add m (RequestsUpstreamUnknown, v) =
     m\<lparr>mh_requests_upstream_unknown := mh_requests_upstream_unknown m + v\<rparr>"
| "fetch_add m (RequestsUpstreamFailed, v) =
     m\<lparr>mh_requests_upstream_failed := mh_requests_upstream_failed m + v\<rparr>"
| "fetch_add m (Responses idx, v) =
     (if idx = 0 then m\<lparr>mh_responses_2xx := mh_responses_2xx m + v\<rparr>
      else if idx = 1 then m\<lparr>mh_responses_3xx := mh_responses_3xx m + v\<rparr>
      else if idx = 2 then m\<lparr>mh_responses_4xx := mh_responses_4xx m + v\<rparr>
      else m\<lparr>mh_responses_5xx := mh_responses_5xx m + v\<rparr>)"
| "fetch_add m (DurationUsSum, v) = m\<lparr>mh_duration_us_sum := mh_duration_us_sum m + v\<rparr>"
| "fetch_add m (DurationBucket i, v) =
     m\<lparr>mh_duration_buckets := (mh_duration_buckets m)[i := mh_duration_buckets m ! i + v]\<rparr>"
| "fetch_add m (ClassSum idx, v) =
     (let h = mh_duration_by_class m ! idx in
      m\<lparr>mh_duration_by_class := (mh_duration_by_class m)[idx := h\<lparr>ch_sum_us := ch_sum_us h + v\<rparr>]\<rparr>)"
| "fetch_add m (ClassBucket idx i, v) =
     (let h = mh_duration_by_class m ! idx in
      m\<lparr>mh_duration_by_class := (mh_duration_by_class m)
          [idx := h\<lparr>ch_buckets := (ch_buckets h)[i := ch_buckets h ! i + v]\<rparr>]\<rparr>)"

text \<open>The updates each observation makes, in program order.\<close>

definition duration_adds :: "duration \<Rightarrow> u16 \<Rightarrow> (counter \<times> u64) list" where
  "duration_adds elapsed status =
     (let us = u64_or_max (as_micros elapsed);
          bucket = bucket_index (as_secs elapsed) in
      (if bucket < length LATENCY_BUCKETS_S then [(DurationBucket bucket, 1)] else [])
      @ [(DurationUsSum, us)]
      @ (case class_index status of
           None \<Rightarrow> []
         | Some idx \<Rightarrow>
             (if bucket < length LATENCY_BUCKETS_S then [(ClassBucket idx bucket, 1)] else [])
             @ [(ClassSum idx, us)]))"

definition status_adds :: "u16 \<Rightarrow> (counter \<times> u64) list" where
  "status_adds status = (case class_index status of None \<Rightarrow> [] | Some idx \<Rightarrow> [(Responses idx, 1)])"

fun adds :: "observation \<Rightarrow> (counter \<times> u64) list" where
  "adds Started = [(RequestsTotal, 1)]"
| "adds (Took d s) = duration_adds d s"
| "adds (Answered s) = status_adds s"
| "adds RouteMissing = [(RequestsNoRoute, 1)]"
| "adds UpstreamUnknown = [(RequestsUpstreamUnknown, 1)]"
| "adds UpstreamFailed = [(RequestsUpstreamFailed, 1)]"

definition request_adds :: "duration \<Rightarrow> dispatch_error + ('hm, 'b) response \<Rightarrow> (counter \<times> u64) list" where
  "request_adds elapsed result = concat (map adds (request_observations elapsed result))"

text \<open>The loads of \<open>render\<close>, in program order; the total and the class counters are loaded twice.\<close>

definition render_loads :: "counter list" where
  "render_loads =
     [RequestsTotal, RequestsNoRoute, RequestsUpstreamUnknown, RequestsUpstreamFailed,
      Responses 0, Responses 1, Responses 2, Responses 3]
     @ map DurationBucket [0..<12] @ [RequestsTotal, DurationUsSum]
     @ concat (map (\<lambda>idx. map (ClassBucket idx) [0..<12] @ [Responses idx, ClassSum idx]) [0..<4])"

definition loaded_counters :: "u64 list \<Rightarrow> metrics_handle" where
  "loaded_counters vs =
     metrics_new\<lparr>mh_requests_total := vs ! 0, mh_requests_no_route := vs ! 1,
       mh_requests_upstream_unknown := vs ! 2, mh_requests_upstream_failed := vs ! 3,
       mh_responses_2xx := vs ! 4, mh_responses_3xx := vs ! 5,
       mh_responses_4xx := vs ! 6, mh_responses_5xx := vs ! 7\<rparr>"

definition class_offset :: "nat \<Rightarrow> nat" where
  "class_offset idx = 22 + 14 * idx"

definition loaded_buckets :: "nat \<Rightarrow> u64 list \<Rightarrow> u64 list" where
  "loaded_buckets k vs = take 12 (drop k vs)"

definition scrape_lines :: "(rat \<Rightarrow> string) \<Rightarrow> u64 list \<Rightarrow> expo_line list" where
  "scrape_lines show_f64 vs =
     counter_lines (loaded_counters vs)
     @ [Comment ''HELP conduit_request_duration_seconds Wall-clock latency of proxied requests.'',
        Comment ''TYPE conduit_request_duration_seconds histogram'']
     @ histogram_lines show_f64 ''conduit_request_duration_seconds'' [] (loaded_buckets 8 vs)
         (vs ! 20) (vs ! 21)
     @ [Comment ''HELP conduit_request_duration_seconds_by_class Latency split by status class.'',
        Comment ''TYPE conduit_request_duration_seconds_by_class histogram'']
     @ concat (map (\<lambda>(idx, class).
           histogram_lines show_f64 ''conduit_request_duration_seconds_by_class'' [(''class'', class)]
             (loaded_buckets (class_offset idx) vs) (vs ! (class_offset idx + 12))
             (vs ! (class_offset idx + 13)))
         (enumerate 0 CLASS_LABELS))"

text \<open>
  A request in progress: what it will have observed when it is done, and how many of its
  updates it has made. It waits for the dispatcher after the first; its future may be dropped
  there, and nowhere else.
\<close>

record meter =
  mt_elapsed :: duration
  mt_result :: "dispatch_error + (unit, unit) response"
  mt_done :: nat
  mt_dropped :: bool

record scrape_sys =
  ss_metrics :: metrics_handle
  ss_requests :: "meter list"
  ss_loaded :: "u64 list"

definition meter_adds :: "meter \<Rightarrow> (counter \<times> u64) list" where
  "meter_adds t = request_adds (mt_elapsed t) (mt_result t)"

definition scrape_init :: "scrape_sys \<Rightarrow> bool" where
  "scrape_init s \<longleftrightarrow> s = \<lparr>ss_metrics = metrics_new, ss_requests = [], ss_loaded = []\<rparr>"

inductive scrape_step :: "scrape_sys \<Rightarrow> scrape_sys \<Rightarrow> bool" where
  arrive: "scrape_step s (s\<lparr>ss_requests := ss_requests s
     @ [\<lparr>mt_elapsed = elapsed, mt_result = result, mt_done = 0, mt_dropped = False\<rparr>]\<rparr>)"
| add: "i < length (ss_requests s) \<Longrightarrow> t = ss_requests s ! i \<Longrightarrow> \<not> mt_dropped t
    \<Longrightarrow> mt_done t < length (meter_adds t)
    \<Longrightarrow> scrape_step s (s\<lparr>ss_metrics := fetch_add (ss_metrics s) (meter_adds t ! mt_done t),
          ss_requests := (ss_requests s)[i := t\<lparr>mt_done := mt_done t + 1\<rparr>]\<rparr>)"
| drop_future: "i < length (ss_requests s) \<Longrightarrow> t = ss_requests s ! i \<Longrightarrow> \<not> mt_dropped t
    \<Longrightarrow> mt_done t = 1
    \<Longrightarrow> scrape_step s (s\<lparr>ss_requests := (ss_requests s)[i := t\<lparr>mt_dropped := True\<rparr>]\<rparr>)"
| load: "length (ss_loaded s) < length render_loads
    \<Longrightarrow> scrape_step s (s\<lparr>ss_loaded := ss_loaded s
          @ [load (ss_metrics s) (render_loads ! length (ss_loaded s))]\<rparr>)"
| rescrape: "length (ss_loaded s) = length render_loads \<Longrightarrow> scrape_step s (s\<lparr>ss_loaded := []\<rparr>)"

inductive_cases scrape_stepE: "scrape_step s s'"

text \<open>Requests whose duration updates have begun and whose last update is still to come.\<close>

definition between :: "meter \<Rightarrow> bool" where
  "between t \<longleftrightarrow> 1 < mt_done t \<and> mt_done t < length (meter_adds t)"

definition in_between :: "scrape_sys \<Rightarrow> nat" where
  "in_between s = count_if between (ss_requests s)"

text \<open>What a request has observed once it has come to rest.\<close>

definition meter_rests :: "meter \<Rightarrow> bool" where
  "meter_rests t \<longleftrightarrow> mt_dropped t \<or> mt_done t = length (meter_adds t)"

definition meter_observations :: "meter \<Rightarrow> observation list" where
  "meter_observations t =
     (if mt_dropped t then [Started] else request_observations (mt_elapsed t) (mt_result t))"

section \<open>Lemmas: one counter at a time\<close>

definition metrics_shape :: "metrics_handle \<Rightarrow> bool" where
  "metrics_shape m \<longleftrightarrow>
     length (mh_duration_buckets m) = 12 \<and> length (mh_duration_by_class m) = 4
     \<and> (\<forall>c<4. length (ch_buckets (mh_duration_by_class m ! c)) = 12)"

fun counter_ok :: "counter \<Rightarrow> bool" where
  "counter_ok (Responses idx) = (idx < 4)"
| "counter_ok (DurationBucket i) = (i < 12)"
| "counter_ok (ClassSum idx) = (idx < 4)"
| "counter_ok (ClassBucket idx i) = (idx < 4 \<and> i < 12)"
| "counter_ok _ = True"

text \<open>The counters that only ever grow by one.\<close>

fun unit_counter :: "counter \<Rightarrow> bool" where
  "unit_counter DurationUsSum = False"
| "unit_counter (ClassSum _) = False"
| "unit_counter _ = True"

lemma shape_new [simp]: "metrics_shape metrics_new"
  by (simp add: metrics_shape_def metrics_new_def buckets_sorted)

lemma nth_list_update_if: "xs[i := x] ! j = (if i = j \<and> i < length xs then x else xs ! j)"
  by (cases "i < length xs") (simp_all add: nth_list_update list_update_beyond)

lemma shape_fetch_add [simp]: "metrics_shape m \<Longrightarrow> metrics_shape (fetch_add m cv)"
  by (cases "(m, cv)" rule: fetch_add.cases)
    (auto simp: metrics_shape_def Let_def nth_list_update_if)

lemma load_fetch_add:
  assumes "metrics_shape m" and "counter_ok a" and "counter_ok c"
  shows "load (fetch_add m (a, v)) c = load m c + (if a = c then v else 0)"
  using assms
  by (cases a; cases c)
    (auto simp: metrics_shape_def Let_def nth_list_update class_responses_def)

lemma load_new: "counter_ok c \<Longrightarrow> load metrics_new c = 0"
  by (cases c) (simp_all add: metrics_new_def class_responses_def buckets_sorted)

lemma metrics_eqI:
  assumes "metrics_shape m" and "metrics_shape m'" and loads: "\<And>c. counter_ok c \<Longrightarrow> load m c = load m' c"
  shows "m = m'"
proof -
  have "ch_buckets (mh_duration_by_class m ! c) = ch_buckets (mh_duration_by_class m' ! c)
      \<and> ch_sum_us (mh_duration_by_class m ! c) = ch_sum_us (mh_duration_by_class m' ! c)" if "c < 4" for c
    using assms(1,2) that loads [of "ClassBucket c _"] loads [of "ClassSum c"]
    by (auto simp: metrics_shape_def intro!: nth_equalityI)
  then have "mh_duration_by_class m = mh_duration_by_class m'"
    using assms(1,2) by (auto simp: metrics_shape_def intro!: nth_equalityI class_histogram.equality)
  moreover have "mh_duration_buckets m = mh_duration_buckets m'"
    using assms(1,2) loads [of "DurationBucket _"] by (auto simp: metrics_shape_def intro!: nth_equalityI)
  ultimately show ?thesis
    using loads [of RequestsTotal] loads [of RequestsNoRoute] loads [of RequestsUpstreamUnknown]
      loads [of RequestsUpstreamFailed] loads [of DurationUsSum] loads [of "Responses 0"]
      loads [of "Responses 1"] loads [of "Responses 2"] loads [of "Responses 3"]
    by (simp add: class_responses_def)
qed

text \<open>An observation is its updates made one after the other.\<close>

lemma fold_duration_adds: "foldl fetch_add m (duration_adds d s) = observe_request_duration d s m"
proof (cases "class_index s")
  case None
  then show ?thesis by (simp add: duration_adds_def observe_request_duration_def Let_def bump_def)
next
  case (Some c)
  then show ?thesis
    by (cases "c < length (mh_duration_by_class m)")
      (simp_all add: duration_adds_def observe_request_duration_def Let_def bump_def list_update_beyond)
qed

lemma fold_adds: "foldl fetch_add m (adds e) = record_observation m e"
  by (cases e)
    (auto simp: fold_duration_adds status_adds_def observe_status_def observe_request_start_def
      observe_no_route_def observe_upstream_unknown_def observe_upstream_failed_def split: option.split)

lemma fold_concat_adds: "foldl fetch_add m (concat (map adds es)) = foldl record_observation m es"
  by (induction es arbitrary: m) (simp_all add: fold_adds)

lemma fold_request_adds:
  "foldl fetch_add m (request_adds d r) = foldl record_observation m (request_observations d r)"
  by (simp add: request_adds_def fold_concat_adds)

definition added :: "counter \<Rightarrow> (counter \<times> u64) list \<Rightarrow> u64" where
  "added c xs = sum_list (map snd (filter (\<lambda>(a, v). a = c) xs))"

definition hits :: "counter \<Rightarrow> (counter \<times> u64) list \<Rightarrow> nat" where
  "hits c xs = count_if (\<lambda>(a, v). a = c) xs"

lemma added_simps [simp]:
  "added c [] = 0"
  "added c ((a, v) # xs) = (if a = c then v else 0) + added c xs"
  "added c (xs @ ys) = added c xs + added c ys"
  by (simp_all add: added_def)

lemma hits_simps [simp]:
  "hits c [] = 0"
  "hits c ((a, v) # xs) = (if a = c then 1 else 0) + hits c xs"
  "hits c (xs @ ys) = hits c xs + hits c ys"
  by (simp_all add: hits_def count_if_def)

lemma load_fold:
  assumes "\<forall>(a, v) \<in> set xs. counter_ok a" and "counter_ok c"
  shows "metrics_shape m \<Longrightarrow> metrics_shape (foldl fetch_add m xs)
    \<and> load (foldl fetch_add m xs) c = load m c + added c xs"
  using assms(1)
proof (induction xs arbitrary: m)
  case (Cons x xs)
  obtain a v where x: "x = (a, v)" by (cases x)
  with Cons load_fetch_add [OF Cons.prems(1) _ assms(2), of a v] show ?case by simp
qed simp


lemma hits_take_le: "hits c (take n xs) \<le> hits c xs"
  using hits_simps(3) [of c "take n xs" "drop n xs"] by simp

lemma added_hits:
  "\<forall>(a, v) \<in> set xs. unit_counter a \<longrightarrow> v = 1 \<Longrightarrow> unit_counter c \<Longrightarrow> added c xs = of_nat (hits c xs)"
  by (induction xs) auto

text \<open>The updates of one request.\<close>

lemma request_adds_cases:
  obtains os where "request_adds d r =
      (RequestsTotal, 1) # duration_adds d (status_for_metrics r) @ os @ status_adds (status_for_metrics r)"
    and "os = [] \<or> os = [(RequestsNoRoute, 1)] \<or> os = [(RequestsUpstreamUnknown, 1)]
      \<or> os = [(RequestsUpstreamFailed, 1)]"
proof -
  let ?os = "concat (map adds (outcome_observations r))"
  show thesis
    by (rule that [of ?os])
      (auto simp: request_adds_def request_observations_def outcome_observations_def
        split: sum.split dispatch_error.split)
qed

lemma request_adds_ok:
  "\<forall>(a, v) \<in> set (request_adds d r). counter_ok a \<and> (unit_counter a \<longrightarrow> v = 1)"
proof (rule request_adds_cases [of d r])
  fix os :: "(counter \<times> u64) list"
  let ?s = "status_for_metrics r"
  have "\<forall>(a, v) \<in> set (duration_adds d ?s) \<union> set (status_adds ?s). counter_ok a \<and> (unit_counter a \<longrightarrow> v = 1)"
    using class_index_less [of ?s]
    by (auto simp: duration_adds_def status_adds_def Let_def buckets_sorted split: option.split)
  moreover assume "request_adds d r = (RequestsTotal, 1) # duration_adds d ?s @ os @ status_adds ?s"
    and "os = [] \<or> os = [(RequestsNoRoute, 1)] \<or> os = [(RequestsUpstreamUnknown, 1)]
      \<or> os = [(RequestsUpstreamFailed, 1)]"
  ultimately show ?thesis by auto
qed

lemma duration_hits:
  "hits (DurationBucket j) (duration_adds d s) = (if bucket_index (as_secs d) = j \<and> j < 12 then 1 else 0)"
  "hits (ClassBucket c j) (duration_adds d s) =
     (if class_index s = Some c \<and> bucket_index (as_secs d) = j \<and> j < 12 then 1 else 0)"
  "hits RequestsTotal (duration_adds d s) = 0" "hits RequestsNoRoute (duration_adds d s) = 0"
  "hits RequestsUpstreamUnknown (duration_adds d s) = 0"
  "hits RequestsUpstreamFailed (duration_adds d s) = 0" "hits (Responses c) (duration_adds d s) = 0"
  by (auto simp: duration_adds_def Let_def buckets_sorted split: option.split)

lemma status_hits:
  "hits a (status_adds s) = (case class_index s of None \<Rightarrow> 0 | Some c \<Rightarrow> if a = Responses c then 1 else 0)"
  by (auto simp: status_adds_def split: option.split)

lemma request_hits:
  "unit_counter a \<Longrightarrow> hits a (request_adds d r) \<le> 1"
  "hits (DurationBucket j) (request_adds d r) = (if bucket_index (as_secs d) = j \<and> j < 12 then 1 else 0)"
  "hits (ClassBucket c j) (request_adds d r) =
     (if class_index (status_for_metrics r) = Some c \<and> bucket_index (as_secs d) = j \<and> j < 12 then 1 else 0)"
  "hits (Responses c) (request_adds d r) = (if class_index (status_for_metrics r) = Some c then 1 else 0)"
     apply (rule request_adds_cases [of d r]; cases a; elim disjE; force simp: duration_hits status_hits split: option.split)
    apply (rule request_adds_cases [of d r]; elim disjE; simp add: duration_hits status_hits split: option.split)+
  done

lemma request_bucket_hits:
  "(\<Sum>j<12. hits (DurationBucket j) (request_adds d r)) \<le> 1"
  "(\<Sum>j<12. hits (ClassBucket c j) (request_adds d r)) \<le> hits (Responses c) (request_adds d r)"
  by (simp_all add: request_hits sum.If_cases Int_insert_right)

lemma sum_hits_take: "(\<Sum>j\<in>A. hits (f j) (take n xs)) \<le> (\<Sum>j\<in>A. hits (f j) xs)"
  by (rule sum_mono) (rule hits_take_le)

lemma buckets_after_start:
  "(\<Sum>j<12. hits (DurationBucket j) (take n (request_adds d r))) \<le> hits RequestsTotal (take n (request_adds d r))"
proof (cases n)
  case (Suc k)
  have "(\<Sum>j<12. hits (DurationBucket j) (take n (request_adds d r))) \<le> 1"
    by (rule order_trans [OF sum_hits_take request_bucket_hits(1)])
  with Suc show ?thesis by (rule_tac request_adds_cases [of d r]) simp
qed simp

lemma class_buckets_before_status:
  "(\<Sum>j<12. hits (ClassBucket c j) (take n (request_adds d r)))
   \<le> hits (Responses c) (take n (request_adds d r)) + (if 1 < n \<and> n < length (request_adds d r) then 1 else 0)"
proof -
  consider "n = 0 \<or> n = 1" | "length (request_adds d r) \<le> n" | "1 < n \<and> n < length (request_adds d r)"
    by linarith
  then show ?thesis
  proof cases
    case 1
    then show ?thesis by (rule_tac request_adds_cases [of d r]) auto
  next
    case 2
    then show ?thesis using request_bucket_hits(2) by (simp add: trans_le_add1)
  next
    case 3
    have "(\<Sum>j<12. hits (ClassBucket c j) (take n (request_adds d r))) \<le> 1"
      by (rule order_trans [OF sum_hits_take order_trans [OF request_bucket_hits(2) request_hits(1)]]) simp
    with 3 show ?thesis by simp
  qed
qed

section \<open>Lemmas: all requests at once\<close>

definition made :: "meter \<Rightarrow> (counter \<times> u64) list" where
  "made t = take (mt_done t) (meter_adds t)"

definition tally :: "counter \<Rightarrow> scrape_sys \<Rightarrow> nat" where
  "tally c s = sum_list (map (\<lambda>t. hits c (made t)) (ss_requests s))"

definition scrape_inv :: "scrape_sys \<Rightarrow> bool" where
  "scrape_inv s \<longleftrightarrow>
     metrics_shape (ss_metrics s)
     \<and> (\<forall>c. counter_ok c \<longrightarrow>
          load (ss_metrics s) c = sum_list (map (\<lambda>t. added c (made t)) (ss_requests s)))
     \<and> (\<forall>t\<in>set (ss_requests s). mt_dropped t \<longrightarrow> mt_done t = 1)"

lemma sum_list_map_update:
  fixes f :: "'a \<Rightarrow> 'b::comm_monoid_add"
  assumes "i < length xs" and "f y = f (xs ! i) + d"
  shows "sum_list (map f (xs[i := y])) = sum_list (map f xs) + d"
  using assms
proof (induction xs arbitrary: i)
  case (Cons x xs)
  then show ?case by (cases i) (simp_all add: ac_simps)
qed simp

lemma made_Suc:
  "mt_done t < length (meter_adds t) \<Longrightarrow>
     made (t\<lparr>mt_done := mt_done t + 1\<rparr>) = made t @ [meter_adds t ! mt_done t]"
  by (simp add: made_def meter_adds_def take_Suc_conv_app_nth)

lemma made_dropped [simp]: "made (t\<lparr>mt_dropped := b\<rparr>) = made t"
  by (simp add: made_def meter_adds_def)

lemma meter_add_ok: "(a, v) \<in> set (meter_adds t) \<Longrightarrow> counter_ok a \<and> (unit_counter a \<longrightarrow> v = 1)"
  using request_adds_ok unfolding meter_adds_def by fastforce

lemma inv_init: "scrape_init s \<Longrightarrow> scrape_inv s"
  by (simp add: scrape_init_def scrape_inv_def load_new)

lemma inv_step: "scrape_step s s' \<Longrightarrow> scrape_inv s \<Longrightarrow> scrape_inv s'"
proof (induction rule: scrape_step.induct)
  case (arrive s elapsed result)
  then show ?case by (auto simp: scrape_inv_def made_def)
next
  case (add i s t)
  obtain a v where av: "meter_adds t ! mt_done t = (a, v)" by (cases "meter_adds t ! mt_done t")
  with add.hyps meter_add_ok have a: "counter_ok a" by (metis nth_mem)
  let ?t = "t\<lparr>mt_done := mt_done t + 1\<rparr>"
  have "added c (made ?t) = added c (made (ss_requests s ! i)) + (if a = c then v else 0)" for c
    using made_Suc [OF add.hyps(4)] add.hyps(2) av by simp
  then have "sum_list (map (\<lambda>t. added c (made t)) ((ss_requests s)[i := ?t]))
      = sum_list (map (\<lambda>t. added c (made t)) (ss_requests s)) + (if a = c then v else 0)" for c
    using add.hyps(1) by (intro sum_list_map_update)
  then show ?case
    using add a av load_fetch_add [of "ss_metrics s" a _ v]
    by (auto simp: scrape_inv_def dest!: set_update_subset_insert [THEN subsetD])
next
  case (drop_future i s t)
  then have "map (\<lambda>t. added c (made t)) ((ss_requests s)[i := t\<lparr>mt_dropped := True\<rparr>])
      = map (\<lambda>t. added c (made t)) (ss_requests s)" for c
    by (simp add: map_update list_update_same_conv)
  with drop_future show ?case
    by (auto simp: scrape_inv_def dest!: set_update_subset_insert [THEN subsetD])
qed (simp_all add: scrape_inv_def)

interpretation scrape: inductive_invariant scrape_init scrape_step scrape_inv
  by unfold_locales (auto intro: inv_init inv_step)

lemma sum_list_of_nat: "sum_list (map (\<lambda>t. of_nat (f t)) ts) = of_nat (sum_list (map f ts))"
  by (induction ts) simp_all

lemma tally_bound: "unit_counter c \<Longrightarrow> tally c s \<le> length (ss_requests s)"
proof -
  assume "unit_counter c"
  then have one: "hits c (made t) \<le> 1" for t
    unfolding made_def meter_adds_def by (intro order_trans [OF hits_take_le request_hits(1)])
  have "sum_list (map (\<lambda>t. hits c (made t)) ts) \<le> length ts" for ts
  proof (induction ts)
    case (Cons t ts)
    then show ?case using one [of t] by simp
  qed simp
  then show ?thesis by (simp add: tally_def)
qed

lemma load_tally:
  assumes "scrape_inv s" and "counter_ok c" and "unit_counter c" and "length (ss_requests s) < 2 ^ 64"
  shows "unat (load (ss_metrics s) c) = tally c s"
proof -
  have "added c (made t) = of_nat (hits c (made t))" for t
    using assms(3) meter_add_ok by (intro added_hits) (auto simp: made_def dest!: in_set_takeD)
  then have "load (ss_metrics s) c = of_nat (tally c s)"
    using assms(1,2) by (simp add: scrape_inv_def tally_def sum_list_of_nat)
  moreover have "tally c s < 2 ^ 64" using tally_bound [OF assms(3)] assms(4) by (rule le_less_trans)
  ultimately show ?thesis by (simp add: unat_of_nat take_bit_nat_eq_self)
qed

lemma tally_mono:
  assumes "scrape_step s s'"
  shows "tally c s \<le> tally c s' \<and> length (ss_requests s) \<le> length (ss_requests s')"
  using assms
proof (induction rule: scrape_step.induct)
  case (add i s t)
  obtain a v where av: "meter_adds t ! mt_done t = (a, v)" by (cases "meter_adds t ! mt_done t")
  let ?t = "t\<lparr>mt_done := mt_done t + 1\<rparr>"
  have "hits c (made ?t) = hits c (made (ss_requests s ! i)) + (if a = c then 1 else 0)"
    using made_Suc [OF add.hyps(4)] add.hyps(2) av by simp
  then have "sum_list (map (\<lambda>t. hits c (made t)) ((ss_requests s)[i := ?t]))
      = sum_list (map (\<lambda>t. hits c (made t)) (ss_requests s)) + (if a = c then 1 else 0)"
    using add.hyps(1) by (intro sum_list_map_update)
  then show ?case by (simp add: tally_def)
next
  case (drop_future i s t)
  then have "map (\<lambda>t. hits c (made t)) ((ss_requests s)[i := t\<lparr>mt_dropped := True\<rparr>])
      = map (\<lambda>t. hits c (made t)) (ss_requests s)"
    by (simp add: map_update list_update_same_conv)
  with drop_future show ?case by (simp add: tally_def)
qed (simp_all add: tally_def)

lemma tally_buckets: "(\<Sum>j<12. tally (DurationBucket j) s) \<le> tally RequestsTotal s"
proof -
  have "(\<Sum>j<12. sum_list (map (\<lambda>t. hits (DurationBucket j) (made t)) ts))
      \<le> sum_list (map (\<lambda>t. hits RequestsTotal (made t)) ts)" for ts
    by (induction ts)
      (simp_all add: sum.distrib add_mono buckets_after_start made_def meter_adds_def)
  then show ?thesis by (simp add: tally_def)
qed

lemma tally_class_buckets:
  "(\<Sum>j<12. tally (ClassBucket c j) s) \<le> tally (Responses c) s + in_between s"
proof -
  have one: "(\<Sum>j<12. hits (ClassBucket c j) (made t)) \<le> hits (Responses c) (made t) + (if between t then 1 else 0)" for t
    using class_buckets_before_status [of c "mt_done t" "mt_elapsed t" "mt_result t"]
    by (simp add: made_def meter_adds_def between_def)
  have "(\<Sum>j<12. sum_list (map (\<lambda>t. hits (ClassBucket c j) (made t)) ts))
      \<le> sum_list (map (\<lambda>t. hits (Responses c) (made t)) ts) + count_if between ts" for ts
  proof (induction ts)
    case (Cons t ts)
    with one [of t] show ?case by (simp add: sum.distrib count_if_def split: if_splits)
  qed simp
  then show ?thesis by (simp add: tally_def in_between_def)
qed


section \<open>Lemmas: the scrape\<close>

lemma length_render_loads: "length render_loads = 78"
  by (simp add: render_loads_def upt_rec)

lemma render_loads_nth:
  "j < 12 \<Longrightarrow> render_loads ! (8 + j) = DurationBucket j"
  "render_loads ! 0 = RequestsTotal" "render_loads ! 20 = RequestsTotal" "render_loads ! 21 = DurationUsSum"
  by (simp_all add: render_loads_def nth_append)

lemma upt_4: "[0..<4] = [0, 1, 2, 3 :: nat]"
  by (simp add: upt_rec)

lemma render_loads_class:
  assumes "c < 4"
  shows "j < 12 \<Longrightarrow> render_loads ! (class_offset c + j) = ClassBucket c j"
    and "render_loads ! (class_offset c + 12) = Responses c"
    and "render_loads ! (class_offset c + 13) = ClassSum c"
proof -
  have "c = 0 \<or> c = 1 \<or> c = 2 \<or> c = 3" using assms by linarith
  then show "j < 12 \<Longrightarrow> render_loads ! (class_offset c + j) = ClassBucket c j"
    and "render_loads ! (class_offset c + 12) = Responses c"
    and "render_loads ! (class_offset c + 13) = ClassSum c"
    by (auto simp: render_loads_def class_offset_def nth_append upt_4)
qed

lemma render_loads_ok: "\<forall>c\<in>set render_loads. counter_ok c"
  by (auto simp: render_loads_def)

text \<open>The values loaded so far are no larger than the counters are now, and the \<open>+Inf\<close> count,
  once loaded, bounds the buckets loaded before it.\<close>

definition loaded_ok :: "scrape_sys \<Rightarrow> bool" where
  "loaded_ok s \<longleftrightarrow> length (ss_loaded s) \<le> length render_loads \<and>
     (length (ss_requests s) < 2 ^ 64 \<longrightarrow>
        (\<forall>k<length (ss_loaded s). unit_counter (render_loads ! k) \<longrightarrow>
           unat (ss_loaded s ! k) \<le> tally (render_loads ! k) s)
        \<and> (20 < length (ss_loaded s) \<longrightarrow>
             (\<Sum>j<12. unat (ss_loaded s ! (8 + j))) \<le> unat (ss_loaded s ! 20)
             \<and> ss_loaded s ! 0 \<le> ss_loaded s ! 20))"

definition scrape_inv' :: "scrape_sys \<Rightarrow> bool" where
  "scrape_inv' s \<longleftrightarrow> scrape_inv s \<and> loaded_ok s"

lemma loaded_ok_same:
  assumes "loaded_ok s" and "scrape_step s s'" and "ss_loaded s' = ss_loaded s"
  shows "loaded_ok s'"
proof -
  have small: "length (ss_requests s) < 2 ^ 64" if "length (ss_requests s') < 2 ^ 64"
    using conjunct2 [OF tally_mono [OF assms(2)]] that by (rule le_less_trans)
  have "tally c s \<le> tally c s'" for c using tally_mono [OF assms(2)] by simp
  note mono = order_trans [OF _ this]
  show ?thesis using assms(1) small unfolding loaded_ok_def assms(3) by (blast intro: mono)
qed

lemma loaded_ok_load:
  assumes "loaded_ok s" and "scrape_inv s" and "length (ss_loaded s) < length render_loads"
  shows "loaded_ok (s\<lparr>ss_loaded := ss_loaded s @ [load (ss_metrics s) (render_loads ! length (ss_loaded s))]\<rparr>)"
    (is "loaded_ok ?s")
proof -
  let ?vs = "ss_loaded s" and ?n = "length (ss_loaded s)"
  have "counter_ok (render_loads ! ?n)" using assms(3) render_loads_ok by simp
  note now = load_tally [OF assms(2) this]
  have tally: "tally c ?s = tally c s" for c by (simp add: tally_def)
  have "(\<Sum>j<12. unat (?vs ! (8 + j))) \<le> unat (load (ss_metrics s) (render_loads ! 20)) \<and>
      ?vs ! 0 \<le> load (ss_metrics s) (render_loads ! 20)"
    if "?n = 20" and small: "length (ss_requests s) < 2 ^ 64"
  proof -
    have "unat (?vs ! (8 + j)) \<le> tally (DurationBucket j) s" if "j < 12" for j
      using assms(1) small \<open>?n = 20\<close> that render_loads_nth(1) [OF that]
      by (auto simp: loaded_ok_def dest!: spec [of _ "8 + j"])
    then have "(\<Sum>j<12. unat (?vs ! (8 + j))) \<le> (\<Sum>j<12. tally (DurationBucket j) s)"
      by (intro sum_mono) simp
    also have "\<dots> \<le> tally RequestsTotal s" by (rule tally_buckets)
    finally show ?thesis
      using now assms(1) small \<open>?n = 20\<close> render_loads_nth(2,3)
      by (auto simp: loaded_ok_def word_le_nat_alt dest!: spec [of _ 0])
  qed
  then show ?thesis
    using assms(1,3) now unfolding loaded_ok_def tally
    by (auto simp: nth_append less_Suc_eq)
qed

interpretation scrape': inductive_invariant scrape_init scrape_step scrape_inv'
proof
  show "scrape_init s \<Longrightarrow> scrape_inv' s" for s
    using scrape.init_inv by (simp add: scrape_inv'_def loaded_ok_def scrape_init_def)
next
  fix s s'
  assume inv: "scrape_inv' s" and step: "scrape_step s s'"
  then have "scrape_inv s'" using scrape.step_inv by (auto simp: scrape_inv'_def)
  moreover from step have "loaded_ok s'"
  proof (cases rule: scrape_step.cases)
    case load
    with inv show ?thesis by (auto simp: scrape_inv'_def intro: loaded_ok_load)
  next
    case rescrape
    then show ?thesis by (simp add: loaded_ok_def)
  qed (use inv step in \<open>auto simp: scrape_inv'_def intro: loaded_ok_same\<close>)
  ultimately show "scrape_inv' s'" by (simp add: scrape_inv'_def)
qed

lemma cumulative_sum:
  assumes "length xs = 12" and "i < 12"
  shows "unat (cumulative 0 xs ! i) \<le> (\<Sum>j<12. unat (xs ! j))"
proof -
  have "sum_list (map unat (take (Suc i) xs)) = (\<Sum>j<Suc i. unat (xs ! j))"
    using assms by (simp add: sum_list_sum_nth atLeast0LessThan)
  also have "\<dots> \<le> (\<Sum>j<12. unat (xs ! j))" using assms(2) by (intro sum_mono2) auto
  finally show ?thesis using cumulative_nth [of i xs 0] assms by simp
qed

lemma cumulative_mono:
  assumes "i \<le> j" and "j < length xs"
  shows "cumulative 0 xs ! i \<le> cumulative 0 xs ! j"
proof -
  have "take (Suc j) xs = take (Suc i) xs @ take (j - i) (drop (Suc i) xs)"
    using assms(1) by (metis Suc_le_mono add_diff_inverse_nat diff_Suc_Suc not_less take_add)
  then have "sum_list (map unat (take (Suc i) xs)) \<le> sum_list (map unat (take (Suc j) xs))" by simp
  then show ?thesis using cumulative_nth [of i xs 0] cumulative_nth [of j xs 0] assms
    by (simp add: word_le_nat_alt)
qed

lemma loaded_buckets_nth:
  "k + 12 \<le> length vs \<Longrightarrow> length (loaded_buckets k vs) = 12"
  "k + 12 \<le> length vs \<Longrightarrow> j < 12 \<Longrightarrow> loaded_buckets k vs ! j = vs ! (k + j)"
  by (simp_all add: loaded_buckets_def)


text \<open>Runs: one request after another, and a scrape with nothing in between.\<close>

definition finished :: "duration \<Rightarrow> dispatch_error + (unit, unit) response \<Rightarrow> meter" where
  "finished elapsed result =
     \<lparr>mt_elapsed = elapsed, mt_result = result, mt_done = length (request_adds elapsed result),
      mt_dropped = False\<rparr>"

lemma request_run:
  "scrape_step\<^sup>*\<^sup>* s (s\<lparr>ss_metrics := foldl fetch_add (ss_metrics s) (request_adds elapsed result),
     ss_requests := ss_requests s @ [finished elapsed result]\<rparr>)"
proof -
  let ?xs = "request_adds elapsed result"
  let ?t = "\<lambda>n. \<lparr>mt_elapsed = elapsed, mt_result = result, mt_done = n, mt_dropped = False\<rparr>"
  let ?s = "\<lambda>n. s\<lparr>ss_metrics := foldl fetch_add (ss_metrics s) (take n ?xs),
     ss_requests := ss_requests s @ [?t n]\<rparr>"
  have "scrape_step\<^sup>*\<^sup>* s (?s n)" if "n \<le> length ?xs" for n
    using that
  proof (induction n)
    case 0
    show ?case using arrive [of s elapsed result] by simp
  next
    case (Suc n)
    then have "scrape_step (?s n) (?s (Suc n))"
      using scrape_step.add [of "length (ss_requests s)" "?s n" "?t n"]
      by (simp add: meter_adds_def take_Suc_conv_app_nth)
    with Suc show ?case by (simp add: rtranclp.rtrancl_into_rtrancl)
  qed
  from this [of "length ?xs"] show ?thesis by (simp add: finished_def)
qed

lemma loads_run:
  "ss_loaded s = [] \<Longrightarrow> n \<le> length render_loads \<Longrightarrow>
     scrape_step\<^sup>*\<^sup>* s (s\<lparr>ss_loaded := map (load (ss_metrics s)) (take n render_loads)\<rparr>)"
proof (induction n)
  case (Suc n)
  let ?s = "\<lambda>n. s\<lparr>ss_loaded := map (load (ss_metrics s)) (take n render_loads)\<rparr>"
  from Suc have "scrape_step (?s n) (?s (Suc n))"
    using scrape_step.load [of "?s n"] by (simp add: take_Suc_conv_app_nth)
  with Suc show ?case by (simp add: rtranclp.rtrancl_into_rtrancl)
next
  case 0
  then have "s\<lparr>ss_loaded := map (load (ss_metrics s)) (take 0 render_loads)\<rparr> = s" by simp
  then show ?case by simp
qed

text \<open>A scrape with nothing in between is \<open>render\<close> of the counters.\<close>

lemma loaded_buckets_quiet:
  assumes "metrics_shape m"
  shows "loaded_buckets 8 (map (load m) render_loads) = mh_duration_buckets m"
    and "c < 4 \<Longrightarrow> loaded_buckets (class_offset c) (map (load m) render_loads) = ch_buckets (mh_duration_by_class m ! c)"
proof -
  show "loaded_buckets 8 (map (load m) render_loads) = mh_duration_buckets m"
    using assms by (intro nth_equalityI)
      (simp_all add: loaded_buckets_nth length_render_loads metrics_shape_def render_loads_nth)
  assume c: "c < 4"
  then have "class_offset c + 12 \<le> 78" by (simp add: class_offset_def)
  with c assms show "loaded_buckets (class_offset c) (map (load m) render_loads) = ch_buckets (mh_duration_by_class m ! c)"
    by (intro nth_equalityI)
      (simp_all add: loaded_buckets_nth length_render_loads metrics_shape_def render_loads_class)
qed

lemma counter_lines_loaded: "counter_lines (loaded_counters (map (load m) render_loads)) = counter_lines m"
  by (simp add: counter_lines_def loaded_counters_def render_loads_def class_responses_def)

lemma scrape_lines_quiet:
  assumes "metrics_shape m"
  shows "scrape_lines show_f64 (map (load m) render_loads) = render_lines show_f64 m"
proof -
  have cls: "histogram_lines show_f64 n l (loaded_buckets (class_offset c) (map (load m) render_loads))
        (map (load m) render_loads ! (class_offset c + 12)) (map (load m) render_loads ! (class_offset c + 13))
      = histogram_lines show_f64 n l (ch_buckets (mh_duration_by_class m ! c)) (class_responses m c)
          (ch_sum_us (mh_duration_by_class m ! c))" if "c < 4" for n l c
  proof -
    have "class_offset c + 13 < 78" using that by (simp add: class_offset_def)
    then show ?thesis using that
      by (simp add: loaded_buckets_quiet(2) [OF assms that] render_loads_class length_render_loads)
  qed
  show ?thesis
    unfolding scrape_lines_def render_lines_def counter_lines_loaded loaded_buckets_quiet(1) [OF assms]
    by (intro arg_cong2 [where f = append] arg_cong [where f = concat] map_cong refl)
      (auto simp: render_loads_nth length_render_loads cls in_set_enumerate_eq CLASS_LABELS_def Let_def)
qed

text \<open>The counters of \<open>proxy_one\<close> are the updates of one request in program order.\<close>

definition forget :: "dispatch_error + ('hm, 'b) response \<Rightarrow> dispatch_error + (unit, unit) response" where
  "forget result = map_sum id (\<lambda>resp. \<lparr>rs_status = rs_status resp, rs_headers = (), rs_body = ()\<rparr>) result"

lemma request_adds_forget: "request_adds elapsed (forget result) = request_adds elapsed result"
  by (auto simp: request_adds_def request_observations_def outcome_observations_def forget_def
      status_for_metrics_def split: sum.split dispatch_error.split)

lemma proxy_one_adds:
  assumes "proxy_one X ev elapsed d m req = Some (d', m', resp)"
  shows "\<exists>result sent. handle X ev d req = Some (d', result, sent)
    \<and> m' = foldl fetch_add m (request_adds elapsed (forget result))"
proof -
  from assms obtain result sent where h: "handle X ev d req = Some (d', result, sent)"
    by (auto simp: proxy_one_def Let_def split: option.splits prod.splits)
  with proxy_one_result [OF h, of elapsed m] assms show ?thesis
    by (auto simp: request_adds_forget fold_request_adds)
qed

lemma meter_observations_made:
  assumes "mt_dropped t \<longrightarrow> mt_done t = 1" and "meter_rests t"
  shows "concat (map adds (meter_observations t)) = made t"
proof (cases "mt_dropped t")
  case True
  with assms(1) show ?thesis
    by (rule_tac request_adds_cases [of "mt_elapsed t" "mt_result t"])
      (simp add: meter_observations_def made_def meter_adds_def)
next
  case False
  with assms(2) show ?thesis
    by (simp add: meter_rests_def meter_observations_def made_def meter_adds_def request_adds_def)
qed

lemma added_concat: "added c (concat xss) = sum_list (map (added c) xss)"
  by (induction xss) simp_all

lemma quiescent_load:
  assumes "scrape_inv s" and "\<forall>t\<in>set (ss_requests s). meter_rests t" and "mset rs = mset (ss_requests s)"
    and "counter_ok c"
  shows "load (ss_metrics s) c = added c (concat (map adds (concat (map meter_observations rs))))"
proof -
  have "set rs = set (ss_requests s)" using assms(3) by (rule mset_eq_setD)
  then have rests: "concat (map adds (meter_observations t)) = made t" if "t \<in> set rs" for t
    using that assms(1,2) by (intro meter_observations_made) (auto simp: scrape_inv_def)
  have "concat (map adds (concat (map meter_observations rs))) = concat (map (\<lambda>t. concat (map adds (meter_observations t))) rs)"
    by (induction rs) simp_all
  also have "\<dots> = concat (map made rs)" using rests by (simp cong: map_cong)
  finally have "added c (concat (map adds (concat (map meter_observations rs)))) = sum_list (map (\<lambda>t. added c (made t)) rs)"
    by (simp add: added_concat comp_def)
  also have "\<dots> = sum_list (map (\<lambda>t. added c (made t)) (ss_requests s))"
    using arg_cong [OF assms(3), of "\<lambda>M. sum_mset (image_mset (\<lambda>t. added c (made t)) M)"]
    by (simp only: mset_map [symmetric] sum_mset_sum_list)
  finally show ?thesis using assms(1,4) by (simp add: scrape_inv_def)
qed

text \<open>A sample run: a request without a route, then one that timed out.\<close>

definition start_state :: scrape_sys where
  "start_state = \<lparr>ss_metrics = metrics_new, ss_requests = [], ss_loaded = []\<rparr>"

definition after :: "scrape_sys \<Rightarrow> duration \<Rightarrow> dispatch_error + (unit, unit) response \<Rightarrow> scrape_sys" where
  "after s elapsed result = s\<lparr>ss_metrics := foldl fetch_add (ss_metrics s) (request_adds elapsed result),
     ss_requests := ss_requests s @ [finished elapsed result]\<rparr>"

definition one_state :: scrape_sys where
  "one_state = after start_state 7 (Inl NoRoute)"

definition two_state :: scrape_sys where
  "two_state = after one_state 9 (Inl (Timeout 5))"

definition loaded_to :: "nat \<Rightarrow> scrape_sys \<Rightarrow> scrape_sys" where
  "loaded_to n s = s\<lparr>ss_loaded := map (load (ss_metrics s)) (take n render_loads)\<rparr>"

lemma sample_start: "scrape_init start_state"
  by (simp add: scrape_init_def start_state_def)

lemma scrape_sample_run: "scrape_step\<^sup>*\<^sup>* start_state one_state" "scrape_step\<^sup>*\<^sup>* start_state two_state"
proof -
  show one: "scrape_step\<^sup>*\<^sup>* start_state one_state"
    unfolding one_state_def after_def by (rule request_run)
  have "scrape_step\<^sup>*\<^sup>* one_state two_state"
    unfolding two_state_def after_def by (rule request_run)
  with one show "scrape_step\<^sup>*\<^sup>* start_state two_state" by (rule rtranclp_trans)
qed

lemma sample_requests:
  "ss_requests one_state = [finished 7 (Inl NoRoute)]"
  "ss_requests two_state = [finished 7 (Inl NoRoute), finished 9 (Inl (Timeout 5))]"
  by (simp_all add: two_state_def one_state_def after_def start_state_def)

lemma loaded_to_step: "n < 78 \<Longrightarrow> scrape_step (loaded_to n s) (loaded_to (Suc n) s)"
  using scrape_step.load [of "loaded_to n s"]
  by (simp add: loaded_to_def length_render_loads take_Suc_conv_app_nth)

lemma length_loaded_to [simp]: "n \<le> 78 \<Longrightarrow> length (ss_loaded (loaded_to n s)) = n"
  "ss_requests (loaded_to n s) = ss_requests s"
  by (simp_all add: loaded_to_def length_render_loads)

lemma sample_loads: "n \<le> 78 \<Longrightarrow> scrape_step\<^sup>*\<^sup>* start_state (loaded_to n one_state)"
  unfolding loaded_to_def
  by (rule rtranclp_trans [OF scrape_sample_run(1) loads_run])
    (simp_all add: length_render_loads one_state_def after_def start_state_def)

section \<open>Properties\<close>



text \<open>
  How far a class histogram can be off: when the scrape loads the response count of a
  class, the cumulative buckets it has loaded for that class exceed it by at most the number of
  requests that are between their first duration update and their last update at that moment,
  so with no request there the class histogram is well formed as well.
\<close>

theorem scrape_class_overshoot:
  assumes "scrape_init s0" and "scrape_step\<^sup>*\<^sup>* s0 s" and "scrape_step s s'"
    and "c < 4" and "length (ss_loaded s) = class_offset c + 12"
    and "length (ss_loaded s') = class_offset c + 13"
    and "length (ss_requests s) < 2 ^ 64" and "i < 12"
  shows "unat (cumulative 0 (loaded_buckets (class_offset c) (ss_loaded s')) ! i)
    \<le> unat (ss_loaded s' ! (class_offset c + 12)) + in_between s"
proof -
  let ?k = "class_offset c" and ?vs = "ss_loaded s"
  have inv: "scrape_inv s" "loaded_ok s"
    using scrape'.reachable_inv [OF assms(1,2)] by (simp_all add: scrape_inv'_def)
  have vs: "ss_loaded s' = ?vs @ [load (ss_metrics s) (Responses c)]"
    using assms(3) by cases (use assms(4-6) render_loads_class(2) [OF assms(4)] in auto)
  have bound: "unat (?vs ! (?k + j)) \<le> tally (ClassBucket c j) s" if "j < 12" for j
    using inv(2) assms(5,7) that render_loads_class(1) [OF assms(4) that]
    by (auto simp: loaded_ok_def dest!: spec [of _ "?k + j"])
  have "unat (cumulative 0 (loaded_buckets ?k (ss_loaded s')) ! i)
      \<le> (\<Sum>j<12. unat (loaded_buckets ?k (ss_loaded s') ! j))"
    using assms(6,8) by (intro cumulative_sum) (simp_all add: loaded_buckets_nth)
  also have "\<dots> \<le> (\<Sum>j<12. tally (ClassBucket c j) s)"
    using assms(5) bound by (intro sum_mono) (simp add: loaded_buckets_nth vs nth_append)
  also have "\<dots> \<le> tally (Responses c) s + in_between s" by (rule tally_class_buckets)
  finally show ?thesis
    using load_tally [OF inv(1) _ _ assms(7), of "Responses c"] assms(4,5) by (simp add: vs nth_append)
qed

lemma scrape_class_overshoot_witness:
  "unat (cumulative 0 (loaded_buckets (class_offset 2) (ss_loaded (loaded_to 63 one_state))) ! 0)
   \<le> unat (ss_loaded (loaded_to 63 one_state) ! 62)"
proof -
  have "scrape_step (loaded_to 62 one_state) (loaded_to (Suc 62) one_state)" by (rule loaded_to_step) simp
  then have "scrape_step (loaded_to 62 one_state) (loaded_to 63 one_state)" by simp
  moreover have "in_between (loaded_to 62 one_state) = 0"
    by (simp add: in_between_def between_def count_if_def finished_def meter_adds_def sample_requests)
  ultimately show ?thesis
    using scrape_class_overshoot [OF sample_start sample_loads, of 62 "loaded_to 63 one_state" 2 0]
    by (simp add: class_offset_def sample_requests)
qed

text \<open>
  C18. Counting is serialisable: whenever no request is between two of its updates, the counters
  are exactly those of the requests counted one after the other, in any order, where a request
  whose client went away while it waited for the dispatcher counts as started only.
\<close>

theorem counters_serialisable:
  assumes "scrape_init s0" and "scrape_step\<^sup>*\<^sup>* s0 s"
    and "\<forall>t\<in>set (ss_requests s). meter_rests t" and "mset rs = mset (ss_requests s)"
  shows "ss_metrics s = foldl record_observation metrics_new (concat (map meter_observations rs))"
proof (rule metrics_eqI)
  have inv: "scrape_inv s" using scrape.reachable_inv [OF assms(1,2)] .
  let ?xs = "concat (map adds (concat (map meter_observations rs)))"
  have ok: "\<forall>(a, v) \<in> set (concat (map adds (request_observations d r))). counter_ok a" for d r
    using request_adds_ok [of d r] by (auto simp: request_adds_def)
  have ok: "\<forall>(a, v) \<in> set ?xs. counter_ok a"
    using ok by (fastforce simp: meter_observations_def split: if_splits)
  show "metrics_shape (ss_metrics s)" using inv by (simp add: scrape_inv_def)
  show "metrics_shape (foldl record_observation metrics_new (concat (map meter_observations rs)))"
    unfolding fold_concat_adds [symmetric] using load_fold [OF ok, of RequestsTotal] by simp
  show "load (ss_metrics s) c = load (foldl record_observation metrics_new (concat (map meter_observations rs))) c"
    if "counter_ok c" for c
    unfolding fold_concat_adds [symmetric] using load_fold [OF ok that, of metrics_new]
      quiescent_load [OF inv assms(3,4) that] load_new [OF that] by simp
qed

lemma counters_serialisable_witness:
  "ss_metrics two_state = foldl record_observation metrics_new
     (request_observations 9 (Inl (Timeout 5) :: dispatch_error + (unit, unit) response)
      @ request_observations 7 (Inl NoRoute :: dispatch_error + (unit, unit) response))"
proof -
  have "\<forall>t\<in>set (ss_requests two_state). meter_rests t"
    by (simp add: sample_requests meter_rests_def finished_def meter_adds_def)
  from counters_serialisable [OF sample_start scrape_sample_run(2) this,
      of "[finished 9 (Inl (Timeout 5)), finished 7 (Inl NoRoute)]"]
  show ?thesis
    by (simp add: sample_requests meter_observations_def finished_def del: foldl.simps foldl_append)
qed

end
