(* ===== verification/Conduit_Service.thy ===== *)
theory Conduit_Service
  imports Conduit_Exit
begin

text \<open>
  What it means that a dispatcher serves a document, across the configuration, the route table,
  the upstreams and the binary: a dispatcher built from an accepted document serves it, every
  request keeps it so, and the answers follow the document. No code of its own is modelled here.
\<close>

section \<open>A dispatcher in service\<close>

text \<open>What stays true of a dispatcher while it serves a document.\<close>

definition serves :: "('re, 'hm) crates \<Rightarrow> config \<Rightarrow> ('re, 'cl) dispatch \<Rightarrow> bool" where
  "serves X cfg d \<longleftrightarrow>
     d_routes d = table_from_config X cfg
     \<and> (\<forall>u\<in>set (cf_upstreams cfg). map_get (d_upstreams d) (uc_name u) \<noteq> None)
     \<and> (\<forall>name u. map_get (d_upstreams d) name = Some u \<longrightarrow> upstream_wf u)"

text \<open>The host, path and headers of a request, as \<open>handle\<close> takes them.\<close>

definition request_matches :: "('re, 'hm) crates \<Rightarrow> 'hm request \<Rightarrow> route_cfg \<Rightarrow> bool" where
  "request_matches X req rc =
     route_matches X (Option.bind (header_get X (rq_headers req) HOST) (header_to_str X))
       (uri_path X (rq_uri req)) (rq_headers req) (route_from_config X rc)"

definition routed :: "('re, 'hm) crates \<Rightarrow> config \<Rightarrow> 'hm request \<Rightarrow> bool" where
  "routed X cfg req \<longleftrightarrow> (\<exists>rc\<in>set (cf_routes cfg). request_matches X req rc)"

text \<open>A sequence of requests, each with the world it meets, on one dispatcher.\<close>

fun handle_seq ::
  "('re, 'hm) crates \<Rightarrow> ('re, 'cl) dispatch \<Rightarrow> (('hm, 'b) env \<times> 'hm request) list
   \<Rightarrow> (('re, 'cl) dispatch \<times> (dispatch_error + ('hm, 'b timed_body) response) list) option" where
  "handle_seq X d [] = Some (d, [])"
| "handle_seq X d ((ev, req) # reqs) =
     (case handle X ev d req of
        None \<Rightarrow> None
      | Some (d', r, sent) \<Rightarrow>
          (case handle_seq X d' reqs of
             None \<Rightarrow> None
           | Some (d'', rs) \<Rightarrow> Some (d'', r # rs)))"

text \<open>What the client may be told about a request under a document.\<close>

definition answer_ok ::
  "('re, 'hm) crates \<Rightarrow> config \<Rightarrow> 'hm request \<Rightarrow> dispatch_error + ('hm, 'b) response \<Rightarrow> bool" where
  "answer_ok X cfg req r \<longleftrightarrow>
     (\<forall>name. r \<noteq> Inl (UpstreamNotRegistered name)) \<and> (r = Inl NoRoute \<longleftrightarrow> \<not> routed X cfg req)"

text \<open>Every upstream's connector can be built: the TLS files it names load.\<close>

definition connectors_load :: "('cert, 'key, 'roots) tls_crates \<Rightarrow> config \<Rightarrow> bool" where
  "connectors_load Y cfg \<longleftrightarrow>
     (\<forall>u\<in>set (cf_upstreams cfg). \<exists>c.
        build_https_connector Y (Some (dstr_get (uc_connect_timeout u)))
          (map_option tls_options_from_config (uc_tls u)) = Inr c)"

section \<open>Lemmas\<close>

lemma upstream_builds:
  assumes "authority_ok X" "connectors_load Y cfg" "u \<in> set (cf_upstreams cfg)"
  shows "\<exists>up. upstream_from_config X Y clk u = Some (Inr up)"
proof -
  obtain c where c: "build_https_connector Y (Some (dstr_get (uc_connect_timeout u)))
      (map_option tls_options_from_config (uc_tls u)) = Inr c"
    using assms(2,3) by (auto simp: connectors_load_def)
  obtain as where "build_authorities X (uc_addrs u) = Some as"
    using build_authorities_total [OF assms(1)] by blast
  with c show ?thesis by (simp add: upstream_from_config_def with_tls_def Let_def)
qed

lemma serves_init:
  assumes "authority_ok X" "connectors_load Y cfg" "addrs_fit cfg" "config_valid opts cfg"
  shows "\<exists>d. dispatch_from_config X Y clk cfg = Some d \<and> serves X cfg d"
proof -
  obtain d where d: "dispatch_from_config X Y clk cfg = Some d"
    using dispatch_total [OF assms(1)] by blast
  have "distinct (map uc_name (cf_upstreams cfg))" using assms(4) by (simp add: config_valid_def)
  then have "map_get (d_upstreams d) (uc_name u) \<noteq> None" if "u \<in> set (cf_upstreams cfg)" for u
    using dispatch_registered [OF d _ that] upstream_builds [OF assms(1,2) that, of clk] by auto
  moreover have "d_routes d = table_from_config X cfg"
    using d by (auto simp: dispatch_from_config_def dispatch_new_def)
  ultimately show ?thesis using d dispatch_upstream [OF d assms(3)] by (auto simp: serves_def)
qed

lemma find_routed:
  "(\<exists>r. table_find X (table_from_config X cfg)
      (Option.bind (header_get X (rq_headers req) HOST) (header_to_str X))
      (uri_path X (rq_uri req)) (rq_headers req) = Some r) \<longleftrightarrow> routed X cfg req"
  unfolding table_from_config_def finalised_table_find [OF table_holds_foldl] linear_find_def
    routed_def request_matches_def
  by (subst not_None_eq [symmetric]) (simp add: filter_empty_conv)

lemma found_route_upstream:
  assumes "config_valid opts cfg" "table_find X (table_from_config X cfg) host path headers = Some r"
  shows "\<exists>u\<in>set (cf_upstreams cfg). uc_name u = r_upstream r"
proof -
  from assms(2) obtain rc where "rc \<in> set (cf_routes cfg)" "r = route_from_config X rc"
    unfolding table_from_config_def finalised_table_find [OF table_holds_foldl] linear_find_def
    by (auto dest!: best_SomeD)
  moreover from this assms(1) have "ro_upstream rc \<in> upstream_names cfg"
    by (simp add: config_valid_def list_all_iff route_ok_def)
  ultimately show ?thesis by (auto simp: upstream_names_def route_from_config_def)
qed

lemma serves_handle:
  assumes "config_valid opts cfg" "serves X cfg d"
  shows "\<exists>d' r sent. handle X ev d req = Some (d', r, sent) \<and> serves X cfg d' \<and> answer_ok X cfg req r"
proof -
  let ?find = "table_find X (table_from_config X cfg)
      (Option.bind (header_get X (rq_headers req) HOST) (header_to_str X))
      (uri_path X (rq_uri req)) (rq_headers req)"
  have routes: "d_routes d = table_from_config X cfg" using assms(2) by (simp add: serves_def)
  show ?thesis
  proof (cases ?find)
    case None
    then have "\<not> routed X cfg req" using find_routed [of X cfg req] by auto
    with None routes assms(2) show ?thesis by (simp add: handle_def Let_def answer_ok_def)
  next
    case (Some route)
    obtain u where u: "map_get (d_upstreams d) (r_upstream route) = Some u"
      using found_route_upstream [OF assms(1) Some] assms(2) by (auto simp: serves_def)
    then have "upstream_wf u" using assms(2) by (simp add: serves_def)
    from forward_with_timeout_total [OF this, of X ev req "r_total_timeout route" "r_read_timeout route"]
    obtain u' r sent where f: "forward_with_timeout X ev u req (r_total_timeout route) (r_read_timeout route)
        = Some (u', r, sent)" "upstream_wf u'" "r \<noteq> Inl NoRoute" "\<forall>n. r \<noteq> Inl (UpstreamNotRegistered n)"
      by blast
    have "serves X cfg (d\<lparr>d_upstreams := (d_upstreams d)(r_upstream route \<mapsto> u')\<rparr>)"
      using assms(2) f(2) by (auto simp: serves_def map_get_def)
    with Some routes u f find_routed [of X cfg req] show ?thesis
      by (auto simp: handle_def Let_def answer_ok_def)
  qed
qed

lemma serves_handle_seq:
  assumes "config_valid opts cfg" "serves X cfg d"
  shows "\<exists>d' rs. handle_seq X d reqs = Some (d', rs) \<and> serves X cfg d'
    \<and> list_all2 (\<lambda>(ev, req) r. answer_ok X cfg req r) reqs rs"
  using assms(2)
proof (induction reqs arbitrary: d)
  case (Cons q reqs)
  obtain ev req where q: "q = (ev, req)" by (cases q)
  obtain d1 r sent where "handle X ev d req = Some (d1, r, sent)" "serves X cfg d1" "answer_ok X cfg req r"
    using serves_handle [OF assms(1) Cons.prems] by blast
  with Cons.IH [of d1] q show ?case by fastforce
qed simp

lemma load_config_valid:
  "load_config rd from_str env is_file path = Inr cfg \<Longrightarrow>
   config_valid \<lparr>vo_allow_insecure_tls = (env = Some ''1'')\<rparr> cfg"
  by (auto simp: load_config_def parse_config_def check_def Let_def check_logic_valid [symmetric]
      split: sum.splits)

lemma serves_proxy_one:
  assumes "config_valid opts cfg" "serves X cfg d"
  shows "\<exists>d' m' resp. proxy_one X ev elapsed d m req = Some (d', m', resp) \<and> serves X cfg d'
    \<and> ((\<exists>b. rs_body resp = UpstreamBody b) \<or> rs_status resp \<in> {404, 502, 503, 504})
    \<and> ((\<exists>b. rs_body resp = Synthetic b) \<and> rs_status resp = 404 \<longleftrightarrow> \<not> routed X cfg req)"
proof -
  obtain d' r sent where h: "handle X ev d req = Some (d', r, sent)" "serves X cfg d'" "answer_ok X cfg req r"
    using serves_handle [OF assms] by blast
  show ?thesis
  proof (cases r)
    case (Inr resp)
    with h show ?thesis by (simp add: proxy_one_def Let_def respond_def answer_ok_def)
  next
    case (Inl e)
    with h show ?thesis
      by (cases e) (simp_all add: proxy_one_def Let_def respond_def answer_ok_def error_response_def)
  qed
qed

text \<open>What a request sends out: its own method and its buffered body.\<close>

definition carries :: "'hm request \<Rightarrow> 'hm out_request \<Rightarrow> bool" where
  "carries req out \<longleftrightarrow>
     oq_method out = rq_method req \<and> buffer_body (rq_body req) = Inr (oq_bytes out)"

lemma egress_carries:
  "out = egress X req uri bytes \<Longrightarrow> buffer_body (rq_body req) = Inr bytes \<Longrightarrow> carries req out"
  by (simp add: carries_def egress_def)

lemma forward_carries:
  assumes "upstream_wf u" "forward X clk answers done_at u req rt = Some (u', r, sent)"
  shows "\<forall>out\<in>set sent. carries req out"
proof (rule forward_ends [OF assms(1), of clk X answers done_at req rt])
  fix u1 idx out k
  assume "buffer_body (rq_body req) = Inr (oq_bytes out)" "out = egress X req (oq_uri out) (oq_bytes out)"
    "forward X clk answers done_at u req rt =
       Some (observe_breaker_outcome done_at idx (succeeded (answers k out)) u1,
             conclude rt (answers k out), replicate (k + 1) out)"
  then show ?thesis using assms(2) egress_carries [of out X req "oq_uri out" "oq_bytes out"] by auto
qed (use assms(2) in auto)

lemma timeout_carries:
  assumes "forward_with_timeout X ev u req tt rt = Some (u', r, sent)" "upstream_wf u" "out \<in> set sent"
  shows "carries req out"
  using assms forward_carries [OF assms(2), of X "ev_clk ev" "ev_answers ev" "ev_done_at ev" req rt]
  by (auto simp: forward_with_timeout_def split: option.splits sum.splits if_splits dest!: in_set_takeD)

lemma handle_carries:
  assumes "serves X cfg d" "handle X ev d req = Some (d', r, sent)"
  shows "\<forall>out\<in>set sent. carries req out"
  using assms
  by (auto simp: handle_def Let_def serves_def split: option.splits prod.splits dest: timeout_carries)

lemma buffer_full_body: "buffer_body (full_body bytes) = Inr bytes"
  by (auto simp: buffer_body_def full_body_def)

text \<open>Reading an upstream body through the proxy's body type is reading it.\<close>

lemma drain_upstream:
  "drain (proxy_poll_frame fired poll) ts (UpstreamBody b) acc = drain (timed_poll_frame fired poll) ts b acc"
proof (induction ts arbitrary: b acc)
  case (Cons t ts)
  obtain b' p where "timed_poll_frame fired poll t b = (b', p)" by (cases "timed_poll_frame fired poll t b")
  with Cons.IH show ?case
    by (auto simp: proxy_poll_frame_def split: poll.split option.split sum.split frame.split)
qed simp

text \<open>The handler \<open>run_h3\<close> gives to a stream, when the request meets the world \<open>ev\<close>.\<close>

definition h3_handler ::
  "('re, 'hm) crates \<Rightarrow> ('hm, 's) env \<Rightarrow> duration \<Rightarrow> ('re, 'cl) dispatch \<Rightarrow> metrics_handle \<Rightarrow> 'hm request
   \<Rightarrow> ('hm, ('s, 'hm) proxy_body) response" where
  "h3_handler X ev elapsed d m req = snd (snd (the (proxy_one X ev elapsed d m req)))"

lemma h3_handler_response:
  assumes "handle X ev d req = Some (d', r, sent)"
  shows "rs_status (h3_handler X ev elapsed d m req) = status_for_metrics r
    \<and> (\<forall>resp. r = Inr resp \<longrightarrow> h3_handler X ev elapsed d m req =
         \<lparr>rs_status = rs_status resp, rs_headers = rs_headers resp, rs_body = UpstreamBody (rs_body resp)\<rparr>)"
proof -
  obtain m' where "h3_handler X ev elapsed d m req = snd (respond X m' r)"
    using assms by (auto simp: h3_handler_def proxy_one_def Let_def split: prod.split)
  then show ?thesis by (auto simp: respond_status) (auto simp: respond_def)
qed

lemma sample_serves_inputs:
  "load_config Inr (\<lambda>_. Inr sample_config) None (\<lambda>_. True) ''conduit.toml'' = Inr sample_config"
  "connectors_load sample_tls_crates sample_config"
  by (simp_all add: load_config_def parse_config_def check_def check_filesystem_def check_logic_def
      check_upstream_tls_def check_upstream_health_def check_tls_section_def connectors_load_def
      build_https_connector_def sample_defs)

end
