(* ===== verification/Conduit_Live.thy ===== *)
theory Conduit_Live
  imports Conduit_Service
begin

text \<open>
  Requests and reloads at the same time. In \<^verbatim>\<open>conduit/src/main.rs\<close> every listener plane holds a
  swappable cell; its request handler loads the dispatcher from the cell once and works on that
  snapshot, while the reload thread builds one new dispatcher per cell and stores them one
  after another. Dispatchers are counted references, here numbers into a list that only grows.
  One step of the relation is one load, one store or one answered request; the steps of the
  requests in flight and of the reload thread interleave freely. Sharing of a dispatcher's
  breakers and counters between requests in flight is at the grain of whole requests; \<open>Conduit_Process\<close> has the finer grain.
\<close>

section \<open>Model\<close>

text \<open>
  \<open>pl_cells\<close> has the primary's cell first, then one per HTTP worker. \<open>pl_reload\<close> is the document
  the reload thread is installing and the next cell to store. \<open>pl_docs\<close> records, for the
  statements only, the document each dispatcher was built from.
\<close>

record ('re, 'cl, 'hm, 'w) plane =
  pl_heap :: "('re, 'cl) dispatch list"
  pl_docs :: "config list"
  pl_cells :: "nat list"
  pl_requests :: "nat \<Rightarrow> (nat \<times> 'hm request) option"
  pl_reload :: "(config \<times> 'w \<times> nat) option"

datatype ('hm, 'b, 'w) live_event =
    LoadFull nat nat
  | Answered nat "'hm request" "dispatch_error + ('hm, 'b timed_body) response"
  | Hup 'w
  | StoreCell nat
  | Reloaded

inductive live_step ::
  "('re, 'hm) crates \<Rightarrow> (string \<Rightarrow> string + config) \<Rightarrow> string
   \<Rightarrow> ('re, ('cert, 'key, 'roots) connector, 'hm, ('cert, 'key, 'roots) reload_world) plane
   \<Rightarrow> ('hm, 'b, ('cert, 'key, 'roots) reload_world) live_event
   \<Rightarrow> ('re, ('cert, 'key, 'roots) connector, 'hm, ('cert, 'key, 'roots) reload_world) plane \<Rightarrow> bool"
  for X from_str path where
  load_full: "c < length (pl_cells p) \<Longrightarrow> pl_requests p rid = None \<Longrightarrow>
    live_step X from_str path p (LoadFull rid c)
      (p\<lparr>pl_requests := (pl_requests p)(rid \<mapsto> (pl_cells p ! c, req))\<rparr>)"
| answered: "pl_requests p rid = Some (a, req) \<Longrightarrow> handle X ev (pl_heap p ! a) req = Some (d, r, sent) \<Longrightarrow>
    live_step X from_str path p (Answered a req r)
      (p\<lparr>pl_heap := (pl_heap p)[a := d], pl_requests := (pl_requests p)(rid := None)\<rparr>)"
| sighup_loaded: "pl_reload p = None \<Longrightarrow>
    load_config (rw_read_to_string w) from_str (rw_env w) (rw_is_file w) path = Inr cfg \<Longrightarrow>
    live_step X from_str path p (Hup w) (p\<lparr>pl_reload := Some (cfg, w, 0)\<rparr>)"
| sighup_rejected: "pl_reload p = None \<Longrightarrow>
    load_config (rw_read_to_string w) from_str (rw_env w) (rw_is_file w) path = Inl e \<Longrightarrow>
    live_step X from_str path p (Hup w) p"
| store_cell: "pl_reload p = Some (cfg, w, j) \<Longrightarrow> j < length (pl_cells p) \<Longrightarrow>
    dispatch_from_config X (rw_tls w) (rw_clk w j) cfg = Some d \<Longrightarrow>
    live_step X from_str path p (StoreCell j)
      (p\<lparr>pl_heap := pl_heap p @ [d], pl_docs := pl_docs p @ [cfg],
         pl_cells := (pl_cells p)[j := length (pl_heap p)], pl_reload := Some (cfg, w, Suc j)\<rparr>)"
| reloaded: "pl_reload p = Some (cfg, w, j) \<Longrightarrow> j = length (pl_cells p) \<Longrightarrow>
    live_step X from_str path p Reloaded (p\<lparr>pl_reload := None\<rparr>)"

inductive live_run for X from_str path p0 where
  live_nil: "live_run X from_str path p0 [] p0"
| live_snoc: "live_run X from_str path p0 es p \<Longrightarrow> live_step X from_str path p e p' \<Longrightarrow>
    live_run X from_str path p0 (es @ [e]) p'"

text \<open>The binary's start: one dispatcher per cell, all from one document.\<close>

definition plane_init ::
  "('re, ('cert, 'key, 'roots) connector) dispatch_bundle \<Rightarrow> config
   \<Rightarrow> ('re, ('cert, 'key, 'roots) connector, 'hm, ('cert, 'key, 'roots) reload_world) plane" where
  "plane_init b cfg =
     (let ds = db_primary b # db_http_workers b in
      \<lparr>pl_heap = ds, pl_docs = map (\<lambda>_. cfg) ds, pl_cells = [0..<length ds],
       pl_requests = (\<lambda>_. None), pl_reload = None\<rparr>)"

section \<open>Lemmas\<close>

text \<open>The document in force after some events: the last one that loaded.\<close>

definition in_force ::
  "(string \<Rightarrow> string + config) \<Rightarrow> string \<Rightarrow> config
   \<Rightarrow> ('hm, 'b, ('cert, 'key, 'roots) reload_world) live_event list \<Rightarrow> config" where
  "in_force from_str path =
     foldl (\<lambda>cfg e. case e of
              Hup w \<Rightarrow> (case loads from_str path w of None \<Rightarrow> cfg | Some cfg' \<Rightarrow> cfg')
            | _ \<Rightarrow> cfg)"

text \<open>The files of a reloaded document load.\<close>

definition reload_ok ::
  "(string \<Rightarrow> string + config) \<Rightarrow> string
   \<Rightarrow> ('hm, 'b, ('cert, 'key, 'roots) reload_world) live_event \<Rightarrow> bool" where
  "reload_ok from_str path e =
     (case e of
        Hup w \<Rightarrow> (case loads from_str path w of
                       None \<Rightarrow> True | Some cfg \<Rightarrow> connectors_load (rw_tls w) cfg \<and> addrs_fit cfg)
      | _ \<Rightarrow> True)"

definition doc_ok :: "config \<Rightarrow> bool" where
  "doc_ok cfg \<longleftrightarrow> (\<exists>opts. config_valid opts cfg)"

definition heap_inv where
  "heap_inv X p \<longleftrightarrow>
     length (pl_docs p) = length (pl_heap p)
     \<and> (\<forall>c\<in>set (pl_cells p). c < length (pl_heap p))
     \<and> (\<forall>rid a req. pl_requests p rid = Some (a, req) \<longrightarrow> a < length (pl_heap p))
     \<and> (\<forall>a<length (pl_heap p). doc_ok (pl_docs p ! a) \<and> serves X (pl_docs p ! a) (pl_heap p ! a))"

text \<open>A reload goes through the cells from the left: those before it have the new document.\<close>

definition reload_inv where
  "reload_inv p current \<longleftrightarrow>
     (case pl_reload p of
        None \<Rightarrow> (\<forall>c\<in>set (pl_cells p). pl_docs p ! c = current)
      | Some (cfg, w, j) \<Rightarrow>
          cfg = current \<and> j \<le> length (pl_cells p) \<and> doc_ok cfg \<and> connectors_load (rw_tls w) cfg
          \<and> addrs_fit cfg \<and> (\<forall>i<j. pl_docs p ! (pl_cells p ! i) = cfg))"

lemma in_force_snoc:
  "in_force from_str path cfg (es @ [e]) = in_force from_str path (in_force from_str path cfg es) [e]"
  by (simp add: in_force_def)

lemma in_force_loaded:
  "in_force from_str path cfg es = cfg
   \<or> (\<exists>w. Hup w \<in> set es \<and> loads from_str path w = Some (in_force from_str path cfg es))"
  by (induction es rule: rev_induct)
    (auto simp: in_force_def split: live_event.splits option.splits)

lemma loads_iff:
  "loads from_str path w = Some cfg \<longleftrightarrow>
   load_config (rw_read_to_string w) from_str (rw_env w) (rw_is_file w) path = Inr cfg"
  "loads from_str path w = None \<longleftrightarrow>
   (\<exists>e. load_config (rw_read_to_string w) from_str (rw_env w) (rw_is_file w) path = Inl e)"
  by (auto simp: loads_def split: sum.splits)

lemma answered_serves:
  assumes "heap_inv X p" "pl_requests p rid = Some (a, req)" "handle X ev (pl_heap p ! a) req = Some (d, r, sent)"
  shows "a < length (pl_heap p)" "serves X (pl_docs p ! a) d" "answer_ok X (pl_docs p ! a) req r"
proof -
  show a: "a < length (pl_heap p)" using assms(1,2) by (auto simp: heap_inv_def)
  then obtain opts where "config_valid opts (pl_docs p ! a)" "serves X (pl_docs p ! a) (pl_heap p ! a)"
    using assms(1) by (auto simp: heap_inv_def doc_ok_def)
  from serves_handle [OF this, of ev req] assms(3)
  show "serves X (pl_docs p ! a) d" "answer_ok X (pl_docs p ! a) req r" by auto
qed

lemma heap_inv_step:
  assumes "authority_ok X" "heap_inv X p" "reload_inv p cur" "live_step X from_str path p e p'"
  shows "heap_inv X p'"
  using assms(4)
proof cases
  case (load_full c rid req)
  then show ?thesis using assms(2) by (auto simp: heap_inv_def)
next
  case (answered rid a req ev d r sent)
  note served = answered_serves [OF assms(2) answered(3,4)]
  with answered show ?thesis using assms(2) by (auto simp: heap_inv_def nth_list_update)
next
  case (store_cell cfg w j d)
  then obtain opts where "config_valid opts cfg" "connectors_load (rw_tls w) cfg" "addrs_fit cfg"
    using assms(3) by (auto simp: reload_inv_def doc_ok_def)
  from serves_init [OF assms(1) this(2,3,1), of "rw_clk w j"] store_cell(5)
  have "serves X cfg d" by auto
  moreover have "doc_ok cfg" using store_cell(3) assms(3) by (auto simp: reload_inv_def)
  ultimately show ?thesis
    using store_cell assms(2) by (auto simp: heap_inv_def nth_append less_Suc_eq dest!: set_updateD)
qed (use assms(2) in \<open>auto simp: heap_inv_def\<close>)

lemma reload_inv_step:
  assumes "heap_inv X p" "reload_inv p cur" "live_step X from_str path p e p'" "reload_ok from_str path e"
  shows "reload_inv p' (in_force from_str path cur [e])"
  using assms(3)
proof cases
  case (sighup_loaded w cfg)
  moreover have "doc_ok cfg" using load_config_valid [OF sighup_loaded(4)] by (auto simp: doc_ok_def)
  moreover have "loads from_str path w = Some cfg" using sighup_loaded(4) by (simp add: loads_iff)
  ultimately show ?thesis
    using assms(4) by (auto simp: reload_inv_def in_force_def reload_ok_def)
next
  case (sighup_rejected w err)
  then have "loads from_str path w = None" by (auto simp: loads_iff)
  with sighup_rejected assms(2) show ?thesis by (simp add: in_force_def)
next
  case (store_cell cfg w j d)
  then show ?thesis
    using assms(1,2) by (auto simp: reload_inv_def in_force_def heap_inv_def nth_append nth_list_update less_Suc_eq)
next
  case (reloaded cfg w j)
  then show ?thesis
    using assms(2) by (auto simp: reload_inv_def in_force_def in_set_conv_nth)
qed (use assms(2) in \<open>auto simp: reload_inv_def in_force_def split: option.splits\<close>)

text \<open>Everything at once, along a run.\<close>

definition live_inv where
  "live_inv X from_str path cfg0 es p \<longleftrightarrow>
     heap_inv X p \<and> reload_inv p (in_force from_str path cfg0 es)
     \<and> (\<forall>a req r. Answered a req r \<in> set es \<longrightarrow>
          a < length (pl_docs p) \<and> answer_ok X (pl_docs p ! a) req r)
     \<and> (\<forall>doc\<in>set (pl_docs p). doc = cfg0 \<or> (\<exists>w. Hup w \<in> set es \<and> loads from_str path w = Some doc))"

lemma live_step_log:
  assumes "heap_inv X p" "reload_inv p cur" "live_step X from_str path p e p'"
  shows "\<exists>new. pl_docs p' = pl_docs p @ new \<and> set new \<subseteq> {cur}"
    and "e = Answered a req r \<Longrightarrow> a < length (pl_docs p) \<and> answer_ok X (pl_docs p ! a) req r"
proof -
  from assms(3) show "\<exists>new. pl_docs p' = pl_docs p @ new \<and> set new \<subseteq> {cur}"
    by cases (use assms(2) in \<open>auto simp: reload_inv_def\<close>)
  assume "e = Answered a req r"
  with assms(3) show "a < length (pl_docs p) \<and> answer_ok X (pl_docs p ! a) req r"
    by cases (use assms(1) answered_serves [OF assms(1)] in \<open>auto simp: heap_inv_def\<close>)
qed

lemma live_run_inv:
  assumes "live_run X from_str path p0 es p" "authority_ok X"
    and init: "heap_inv X p0" "reload_inv p0 cfg0" "set (pl_docs p0) \<subseteq> {cfg0}"
    and "\<forall>e\<in>set es. reload_ok from_str path e"
  shows "live_inv X from_str path cfg0 es p"
  using assms(1,6)
proof induction
  case live_nil
  with init show ?case by (auto simp: live_inv_def in_force_def)
next
  case (live_snoc es p e p')
  then have inv: "live_inv X from_str path cfg0 es p" and ok: "reload_ok from_str path e" by simp_all
  let ?cur = "in_force from_str path cfg0 es"
  have heap: "heap_inv X p" and rel: "reload_inv p ?cur" using inv by (simp_all add: live_inv_def)
  obtain new where new: "pl_docs p' = pl_docs p @ new" "set new \<subseteq> {?cur}"
    using live_step_log(1) [OF heap rel live_snoc.hyps(2)] by blast
  have "heap_inv X p'" by (rule heap_inv_step [OF assms(2) heap rel live_snoc.hyps(2)])
  moreover have "reload_inv p' (in_force from_str path cfg0 (es @ [e]))"
    unfolding in_force_snoc by (rule reload_inv_step [OF heap rel live_snoc.hyps(2) ok])
  moreover have "a < length (pl_docs p') \<and> answer_ok X (pl_docs p' ! a) req r"
    if "Answered a req r \<in> set (es @ [e])" for a req r
    using that inv live_step_log(2) [OF heap rel live_snoc.hyps(2), of a req r] new(1)
    by (auto simp: live_inv_def nth_append)
  moreover have "doc = cfg0 \<or> (\<exists>w. Hup w \<in> set (es @ [e]) \<and> loads from_str path w = Some doc)"
    if "doc \<in> set (pl_docs p')" for doc
    using that inv new in_force_loaded [of from_str path cfg0 es] by (auto simp: live_inv_def)
  ultimately show ?case by (simp add: live_inv_def)
qed

lemma plane_init_inv:
  assumes "authority_ok X" "connectors_load Y cfg" "addrs_fit cfg" "config_valid opts cfg"
    and "build_dispatch_bundle X Y clk cfg n = Some b"
  shows "heap_inv X (plane_init b cfg)" "reload_inv (plane_init b cfg) cfg"
    "set (pl_docs (plane_init b cfg)) \<subseteq> {cfg}"
proof -
  obtain ds where ds: "build_dispatches X Y clk cfg 1 n = Some ds" "db_http_workers b = ds"
    and primary: "dispatch_from_config X Y (clk 0) cfg = Some (db_primary b)"
    using assms(5) by (auto simp: build_dispatch_bundle_def split: option.splits)
  have "serves X cfg d" if "dispatch_from_config X Y (clk j) cfg = Some d" for d j
    using serves_init [OF assms(1-4), of "clk j"] that by auto
  then have "serves X cfg d" if "d \<in> set (db_primary b # db_http_workers b)" for d
    using that primary build_dispatches_nth [OF ds(1)] ds(2) by (auto simp: in_set_conv_nth)
  then have "\<forall>a<length (db_primary b # db_http_workers b). serves X cfg ((db_primary b # db_http_workers b) ! a)"
    using nth_mem by blast
  moreover have "doc_ok cfg" using assms(4) by (auto simp: doc_ok_def)
  moreover have "(map (\<lambda>_. cfg) (db_primary b # db_http_workers b)) ! a = cfg"
    if "a < length (db_primary b # db_http_workers b)" for a
    using that by (simp only: nth_map)
  ultimately show "heap_inv X (plane_init b cfg)" "reload_inv (plane_init b cfg) cfg"
    "set (pl_docs (plane_init b cfg)) \<subseteq> {cfg}"
    unfolding heap_inv_def reload_inv_def plane_init_def Let_def
    by (auto simp del: list.map nth_Cons_Suc upt_Suc list.size)
qed

section \<open>Properties\<close>

text \<open>
  Requests during reloads: however loads, stores and answers interleave, starting from the
  dispatchers of an accepted document, every request in flight can be answered, every answer
  follows one document as a whole, the first one or one that a SIGHUP loaded, and whenever no
  reload is in progress every cell, hence every later request, has the document loaded last.
\<close>

theorem requests_see_one_document:
  assumes "load_config rd from_str env is_file path = Inr cfg0" and "authority_ok X"
    and "connectors_load Y cfg0" and "addrs_fit cfg0"
    and "build_dispatch_bundle X Y clk cfg0 n = Some b"
    and "live_run X from_str path (plane_init b cfg0) es p"
    and "\<forall>e\<in>set es. reload_ok from_str path e"
  shows "(\<forall>rid a req ev. pl_requests p rid = Some (a, req) \<longrightarrow> handle X ev (pl_heap p ! a) req \<noteq> None)
    \<and> (\<forall>a req r. Answered a req r \<in> set es \<longrightarrow>
         (\<exists>doc. answer_ok X doc req r \<and> (doc = cfg0 \<or> (\<exists>w. Hup w \<in> set es \<and> loads from_str path w = Some doc))))
    \<and> (pl_reload p = None \<longrightarrow>
         (\<forall>c\<in>set (pl_cells p). pl_docs p ! c = in_force from_str path cfg0 es
            \<and> serves X (in_force from_str path cfg0 es) (pl_heap p ! c)))"
proof -
  note init = plane_init_inv [OF assms(2-4) load_config_valid [OF assms(1)] assms(5)]
  have inv: "live_inv X from_str path cfg0 es p"
    by (rule live_run_inv [OF assms(6,2) init assms(7)])
  then have heap: "heap_inv X p" by (simp add: live_inv_def)
  have "handle X ev (pl_heap p ! a) req \<noteq> None" if pending: "pl_requests p rid = Some (a, req)" for rid a req ev
  proof -
    have "a < length (pl_heap p)" using heap pending unfolding heap_inv_def by blast
    then obtain opts where "config_valid opts (pl_docs p ! a)" "serves X (pl_docs p ! a) (pl_heap p ! a)"
      using heap by (auto simp: heap_inv_def doc_ok_def)
    from serves_handle [OF this, of ev req] show ?thesis by auto
  qed
  moreover have "\<exists>doc. answer_ok X doc req r \<and> (doc = cfg0 \<or> (\<exists>w. Hup w \<in> set es \<and> loads from_str path w = Some doc))"
    if "Answered a req r \<in> set es" for a req r
    using that inv nth_mem [of a "pl_docs p"] unfolding live_inv_def by blast
  moreover have "pl_docs p ! c = in_force from_str path cfg0 es \<and> serves X (in_force from_str path cfg0 es) (pl_heap p ! c)"
    if "pl_reload p = None" "c \<in> set (pl_cells p)" for c
    using that inv by (auto simp: live_inv_def reload_inv_def heap_inv_def)
  ultimately show ?thesis by blast
qed

theorem requests_see_one_document_witness:
  "\<exists>b p r. build_dispatch_bundle sample_crates sample_tls_crates (\<lambda>_ _. 0) sample_config 1 = Some b
     \<and> live_run sample_crates (\<lambda>_. Inr sample_config) ''conduit.toml'' (plane_init b sample_config)
         [LoadFull 0 1, Answered 1 (sample_request [] ''/'') (r :: _ + (_, unit timed_body) response)] p
     \<and> answer_ok sample_crates sample_config (sample_request [] ''/'') r"
proof -
  obtain b where b: "build_dispatch_bundle sample_crates sample_tls_crates (\<lambda>_ _. 0) sample_config 1 = Some b"
    using build_dispatch_bundle_total [OF sample_authority_ok] by blast
  then have len: "length (db_http_workers b) = 1"
    by (auto simp: build_dispatch_bundle_def split: option.splits)
  let ?req = "sample_request [] ''/''"
  let ?p0 = "plane_init b sample_config ::
    (string, (string, string, string list) connector, (string \<times> string) list,
     (string, string, string list) reload_world) plane"
  let ?p1 = "?p0\<lparr>pl_requests := (pl_requests ?p0)(0 \<mapsto> (pl_cells ?p0 ! 1, ?req))\<rparr>"
  have cell: "1 < length (pl_cells ?p0)" "pl_cells ?p0 ! 1 = 1" "pl_requests ?p0 0 = None"
    using len by (simp_all add: plane_init_def Let_def)
  note main = requests_see_one_document [OF sample_serves_inputs(1) sample_authority_ok
      sample_serves_inputs(2) sample_config_fits b]
  have run1: "live_run sample_crates (\<lambda>_. Inr sample_config) ''conduit.toml'' ?p0 ([] @ [LoadFull 0 1]) ?p1"
    by (rule live_snoc [OF live_nil load_full]) (use cell in simp_all)
  have pending: "pl_requests ?p1 0 = Some (1, ?req)" using cell(2) by simp
  obtain d r sent where h: "handle sample_crates (sample_env True) (pl_heap ?p1 ! 1) ?req = Some (d, r, sent)"
    using main [OF run1, THEN conjunct1, rule_format, OF _ pending, of "sample_env True"]
    by (auto simp: reload_ok_def)
  let ?p2 = "?p1\<lparr>pl_heap := (pl_heap ?p1)[1 := d], pl_requests := (pl_requests ?p1)(0 := None)\<rparr>"
  have run2: "live_run sample_crates (\<lambda>_. Inr sample_config) ''conduit.toml'' ?p0
      (([] @ [LoadFull 0 1]) @ [Answered 1 ?req r]) ?p2"
    by (rule live_snoc [OF run1 answered [OF pending h]])
  have ok: "\<forall>e\<in>set (([] @ [LoadFull 0 1]) @ [Answered 1 ?req r]).
      reload_ok (\<lambda>_. Inr sample_config) ''conduit.toml'' e"
    by (simp add: reload_ok_def)
  have "answer_ok sample_crates sample_config ?req r"
    using main [OF run2 ok, THEN conjunct2, THEN conjunct1, rule_format, of 1 ?req r] by auto
  with b run2 show ?thesis by auto
qed

end
