(* ===== verification/Conduit_Shared.thy ===== *)
theory Conduit_Shared
  imports Conduit_Dispatch "HOL-Library.Multiset"
begin

text \<open>
  \<open>Upstream::forward\<close> below the grain of a request: many requests and the health probes share
  one upstream, and between them interleave at every access of its atomics (the round-robin
  counter, and the two cells of each backend's breaker) and at every await of the client. A
  call is its program point with the locals it carries. The accesses take effect in one global
  order, as in \<open>Conduit_Breaker\<close>.
\<close>

section \<open>Model\<close>

text \<open>
  The program points of \<open>forward\<close>. The three points inside \<open>Breaker::check\<close> carry the locals of
  \<open>pick_addr\<close>: before the load of the failure count, before the load of the deadline, and before
  the clock is read. \<open>Sending\<close> awaits the client with the index, the request, the attempt and
  the last status.
\<close>

datatype ('hm, 'b) stage =
    Picking
  | Scanning usize nat
  | Tripped usize nat
  | Comparing usize nat u64
  | Preparing "nat option"
  | Sending "nat option" "'hm out_request" nat status
  | Recording nat pc "forward_error + ('hm, 'b timed_body) response"
  | Returned "forward_error + ('hm, 'b timed_body) response"
  | Cancelled

record ('hm, 'b) call =
  ca_request :: "'hm request"
  ca_read_timeout :: duration
  ca_start :: "usize option"
  ca_sent :: "'hm out_request list"
  ca_stage :: "('hm, 'b) stage"

definition call_new :: "'cl upstream \<Rightarrow> 'hm request \<Rightarrow> duration \<Rightarrow> ('hm, 'b) call" where
  "call_new u req rt =
     \<lparr>ca_request = req, ca_read_timeout = rt, ca_start = None, ca_sent = [],
      ca_stage = (if u_addrs u = [] then Preparing None else Picking)\<rparr>"

text \<open>Entering \<open>observe_breaker_outcome\<close>, and coming back from an update of the breaker.\<close>

definition resume ::
  "nat \<Rightarrow> pc \<Rightarrow> forward_error + ('hm, 'b timed_body) response \<Rightarrow> ('hm, 'b) stage" where
  "resume i p res = (if p = Idle then Returned res else Recording i p res)"

definition enter_outcome ::
  "'cl upstream \<Rightarrow> nat option \<Rightarrow> bool \<Rightarrow> forward_error + ('hm, 'b timed_body) response
   \<Rightarrow> ('hm, 'b) stage" where
  "enter_outcome u idx success res =
     (case idx of
        None \<Rightarrow> Returned res
      | Some i \<Rightarrow>
          if i < length (u_breakers u)
          then resume i ((if success then begin_success else begin_failure) (u_breakers u ! i)) res
          else Returned res)"

definition pick_scan_step ::
  "'cl upstream \<Rightarrow> usize \<Rightarrow> nat \<Rightarrow> ('hm, 'b) stage option" where
  "pick_scan_step u start offset =
     (if offset < length (u_addrs u) then
        (let idx = slot u start offset in
         if idx < length (u_breakers u) then
           (let b = u_breakers u ! idx in
            if b_threshold b = 0 \<or> b_failures b < b_threshold b
            then (if idx < length (u_addrs u) then Some (Preparing (Some idx)) else None)
            else Some (Tripped start offset))
         else None)
      else Some (Returned (Inl BreakerOpen)))"

definition compare_step ::
  "instant \<Rightarrow> 'cl upstream \<Rightarrow> usize \<Rightarrow> nat \<Rightarrow> u64 \<Rightarrow> ('hm, 'b) stage option" where
  "compare_step now u start offset open_until =
     (let idx = slot u start offset in
      if open_until = 0 \<or> open_until \<le> now_ms (u_breakers u ! idx) now
      then (if idx < length (u_addrs u) then Some (Preparing (Some idx)) else None)
      else Some (Scanning start (offset + 1)))"

definition prepare_step ::
  "('re, 'hm) crates \<Rightarrow> 'cl upstream \<Rightarrow> nat option \<Rightarrow> ('hm, 'b) call \<Rightarrow> ('hm, 'b) call option" where
  "prepare_step X u idx c =
     (case (case idx of
              None \<Rightarrow> Some (Inr (rq_uri (ca_request c)))
            | Some i \<Rightarrow>
                if i < length (u_authorities u)
                then Some (rewrite_uri X (rq_uri (ca_request c)) (u_authorities u ! i)) else None) of
        None \<Rightarrow> None
      | Some (Inl e) \<Rightarrow> Some (c\<lparr>ca_stage := Returned (Inl (Body e))\<rparr>)
      | Some (Inr uri) \<Rightarrow>
          (case buffer_body (rq_body (ca_request c)) of
             Inl e \<Rightarrow> Some (c\<lparr>ca_stage := Returned (Inl (Body e))\<rparr>)
           | Inr bytes \<Rightarrow>
               (let out = egress X (ca_request c) uri bytes in
                Some (c\<lparr>ca_sent := ca_sent c @ [out], ca_stage := Sending idx out 0 500\<rparr>))))"

definition next_attempt ::
  "'cl upstream \<Rightarrow> nat option \<Rightarrow> 'hm out_request \<Rightarrow> nat \<Rightarrow> status \<Rightarrow> ('hm, 'b) call \<Rightarrow> ('hm, 'b) call" where
  "next_attempt u idx out attempt last_status c =
     (if attempt + 1 < unat (max (rp_attempts (u_retry u)) 1)
      then c\<lparr>ca_sent := ca_sent c @ [out], ca_stage := Sending idx out (attempt + 1) last_status\<rparr>
      else c\<lparr>ca_stage := enter_outcome u idx False (Inl (RetriesExhausted last_status))\<rparr>)"

definition answer_step ::
  "'cl upstream \<Rightarrow> client_error + ('hm, 'b) response \<Rightarrow> nat option \<Rightarrow> 'hm out_request \<Rightarrow> nat
   \<Rightarrow> status \<Rightarrow> ('hm, 'b) call \<Rightarrow> ('hm, 'b) call" where
  "answer_step u answer idx out attempt last_status c =
     (case answer of
        Inr resp \<Rightarrow>
          (let last_status = rs_status resp in
           case decide_status (u_retry u) last_status (of_nat attempt) of
             Stop \<Rightarrow>
               c\<lparr>ca_stage := enter_outcome u idx (\<not> is_server_error last_status)
                   (Inr \<lparr>rs_status = rs_status resp, rs_headers = rs_headers resp,
                         rs_body = timed_new (rs_body resp) (ca_read_timeout c)\<rparr>)\<rparr>
           | Retry \<Rightarrow> next_attempt u idx out attempt last_status c)
      | Inl e \<Rightarrow>
          (let connect_error = ce_is_connect e in
           if connect_error \<and> rp_on_connect_error (u_retry u)
              \<and> of_nat attempt + 1 < rp_attempts (u_retry u)
           then next_attempt u idx out attempt last_status c
           else c\<lparr>ca_stage := enter_outcome u idx False (Inl (Client e connect_error))\<rparr>))"

text \<open>
  One step of a call: an atomic access, or the client's answer arriving. The clock stands at
  \<open>now\<close>; \<open>answer\<close> is what the client returns if the call awaits it; \<open>None\<close> is a panic.
\<close>

definition call_step ::
  "('re, 'hm) crates \<Rightarrow> instant \<Rightarrow> client_error + ('hm, 'b) response \<Rightarrow> 'cl upstream
   \<Rightarrow> ('hm, 'b) call \<Rightarrow> ('cl upstream \<times> ('hm, 'b) call) option" where
  "call_step X now answer u c =
     (case ca_stage c of
        Picking \<Rightarrow>
          Some (u\<lparr>u_next := u_next u + 1\<rparr>,
                c\<lparr>ca_start := Some (u_next u), ca_stage := Scanning (u_next u) 0\<rparr>)
      | Scanning start offset \<Rightarrow>
          map_option (\<lambda>st. (u, c\<lparr>ca_stage := st\<rparr>)) (pick_scan_step u start offset)
      | Tripped start offset \<Rightarrow>
          Some (u, c\<lparr>ca_stage := Comparing start offset
                       (b_open_until_ms (u_breakers u ! slot u start offset))\<rparr>)
      | Comparing start offset open_until \<Rightarrow>
          map_option (\<lambda>st. (u, c\<lparr>ca_stage := st\<rparr>)) (compare_step now u start offset open_until)
      | Preparing idx \<Rightarrow> map_option (\<lambda>c'. (u, c')) (prepare_step X u idx c)
      | Sending idx out attempt last_status \<Rightarrow>
          Some (u, answer_step u answer idx out attempt last_status c)
      | Recording i p res \<Rightarrow>
          (case atomic now p (u_breakers u ! i) of
             (p', b') \<Rightarrow>
               Some (u\<lparr>u_breakers := (u_breakers u)[i := b']\<rparr>, c\<lparr>ca_stage := resume i p' res\<rparr>))
      | Returned res \<Rightarrow> Some (u, c)
      | Cancelled \<Rightarrow> Some (u, c))"

fun ended :: "('hm, 'b) stage \<Rightarrow> bool" where
  "ended (Returned res) = True"
| "ended Cancelled = True"
| "ended _ = False"

text \<open>Where the future can be dropped: while the body is collected or the client is awaited.\<close>

fun awaits :: "('hm, 'b) stage \<Rightarrow> bool" where
  "awaits (Preparing idx) = True"
| "awaits (Sending idx out attempt ls) = True"
| "awaits _ = False"

text \<open>The tasks over one upstream: calls, and probe loops, each bound to one backend.\<close>

datatype ('hm, 'b) thread = Forwarding "('hm, 'b) call" | ProbeTask nat pc

record ('hm, 'b, 'cl) pool_sys =
  po_upstream :: "'cl upstream"
  po_now :: instant
  po_threads :: "('hm, 'b) thread list"

inductive pool_step ::
  "('re, 'hm) crates \<Rightarrow> ('hm, 'b, 'cl) pool_sys \<Rightarrow> ('hm, 'b, 'cl) pool_sys \<Rightarrow> bool"
  for X :: "('re, 'hm) crates" where
  tick: "pool_step X s (s\<lparr>po_now := po_now s + d\<rparr>)"
| arrive: "pool_step X s (s\<lparr>po_threads := po_threads s @ [Forwarding (call_new (po_upstream s) req rt)]\<rparr>)"
| call: "k < length (po_threads s) \<Longrightarrow> po_threads s ! k = Forwarding c \<Longrightarrow> \<not> ended (ca_stage c)
    \<Longrightarrow> call_step X (po_now s) answer (po_upstream s) c = Some (u', c')
    \<Longrightarrow> pool_step X s (s\<lparr>po_upstream := u', po_threads := (po_threads s)[k := Forwarding c']\<rparr>)"
| cancel: "k < length (po_threads s) \<Longrightarrow> po_threads s ! k = Forwarding c \<Longrightarrow> awaits (ca_stage c)
    \<Longrightarrow> pool_step X s (s\<lparr>po_threads := (po_threads s)[k := Forwarding (c\<lparr>ca_stage := Cancelled\<rparr>)]\<rparr>)"
| probe_task: "i < length (u_breakers (po_upstream s))
    \<Longrightarrow> pool_step X s (s\<lparr>po_threads := po_threads s @ [ProbeTask i Idle]\<rparr>)"
| probe_outcome: "k < length (po_threads s) \<Longrightarrow> po_threads s ! k = ProbeTask i Idle
    \<Longrightarrow> p = (if healthy then begin_success else begin_failure) (u_breakers (po_upstream s) ! i)
    \<Longrightarrow> pool_step X s (s\<lparr>po_threads := (po_threads s)[k := ProbeTask i p]\<rparr>)"
| probe_update: "k < length (po_threads s) \<Longrightarrow> po_threads s ! k = ProbeTask i p
    \<Longrightarrow> atomic (po_now s) p (u_breakers (po_upstream s) ! i) = (p', b')
    \<Longrightarrow> pool_step X s (s\<lparr>po_upstream := (po_upstream s)
          \<lparr>u_breakers := (u_breakers (po_upstream s))[i := b']\<rparr>,
          po_threads := (po_threads s)[k := ProbeTask i p']\<rparr>)"

inductive_cases pool_stepE: "pool_step X s s'"

definition pool_init :: "'cl upstream \<Rightarrow> ('hm, 'b, 'cl) pool_sys \<Rightarrow> bool" where
  "pool_init u s \<longleftrightarrow> upstream_wf u \<and> po_upstream s = u \<and> po_threads s = []"

section \<open>Reference: bounds and views\<close>

definition attempts_of :: "'cl upstream \<Rightarrow> nat" where
  "attempts_of u = unat (max (rp_attempts (u_retry u)) 1)"

fun pc_left :: "pc \<Rightarrow> nat" where
  "pc_left Idle = 0"
| "pc_left SuccessEntered = 2"
| "pc_left SuccessCleared = 1"
| "pc_left FailureEntered = 3"
| "pc_left (FailureAdded _) = 2"
| "pc_left (FailureStoring _) = 1"

text \<open>How many more steps of its own a call can take.\<close>

fun stage_left :: "'cl upstream \<Rightarrow> ('hm, 'b) stage \<Rightarrow> nat" where
  "stage_left u Picking = 3 * length (u_addrs u) + attempts_of u + 6"
| "stage_left u (Scanning start offset) = 3 * (length (u_addrs u) - offset) + attempts_of u + 5"
| "stage_left u (Tripped start offset) = 3 * (length (u_addrs u) - offset) + attempts_of u + 4"
| "stage_left u (Comparing start offset til) = 3 * (length (u_addrs u) - offset) + attempts_of u + 3"
| "stage_left u (Preparing idx) = attempts_of u + 4"
| "stage_left u (Sending idx out attempt ls) = (attempts_of u - attempt) + 3"
| "stage_left u (Recording i p res) = pc_left p"
| "stage_left u (Returned res) = 0"
| "stage_left u Cancelled = 0"

text \<open>A backend of the pool, as the interleaved breaker of \<open>Conduit_Breaker\<close>.\<close>

fun stage_pc :: "nat \<Rightarrow> ('hm, 'b) stage \<Rightarrow> pc" where
  "stage_pc i (Recording j p res) = (if i = j then p else Idle)"
| "stage_pc i _ = Idle"

fun thread_pc :: "nat \<Rightarrow> ('hm, 'b) thread \<Rightarrow> pc" where
  "thread_pc i (Forwarding c) = stage_pc i (ca_stage c)"
| "thread_pc i (ProbeTask j p) = (if i = j then p else Idle)"

definition backend :: "nat \<Rightarrow> ('hm, 'b, 'cl) pool_sys \<Rightarrow> shared" where
  "backend i s =
     \<lparr>sh_breaker = u_breakers (po_upstream s) ! i, sh_now = po_now s,
      sh_pc = (\<lambda>k. if k < length (po_threads s) then thread_pc i (po_threads s ! k) else Idle)\<rparr>"

text \<open>The values of the round-robin counter the calls have drawn.\<close>

fun thread_start :: "('hm, 'b) thread \<Rightarrow> usize option" where
  "thread_start (Forwarding c) = ca_start c"
| "thread_start (ProbeTask i p) = None"

definition starts :: "('hm, 'b, 'cl) pool_sys \<Rightarrow> usize list" where
  "starts s = List.map_filter thread_start (po_threads s)"

section \<open>Lemmas: what a call carries\<close>

definition idx_ok :: "'cl upstream \<Rightarrow> nat option \<Rightarrow> bool" where
  "idx_ok u idx \<longleftrightarrow> (case idx of None \<Rightarrow> u_addrs u = [] | Some i \<Rightarrow> i < length (u_addrs u))"

text \<open>The requests a call may send, by the backend it picked.\<close>

definition out_ok ::
  "('re, 'hm) crates \<Rightarrow> 'cl upstream \<Rightarrow> 'hm request \<Rightarrow> nat option \<Rightarrow> 'hm out_request \<Rightarrow> bool" where
  "out_ok X u req idx out \<longleftrightarrow>
     out = egress X req (oq_uri out) (oq_bytes out) \<and> buffer_body (rq_body req) = Inr (oq_bytes out)
     \<and> (case idx of
          None \<Rightarrow> u_addrs u = [] \<and> oq_uri out = rq_uri req
        | Some i \<Rightarrow> i < length (u_addrs u) \<and> rewrite_uri X (rq_uri req) (u_authorities u ! i) = Inr (oq_uri out))"

definition sent_ok :: "('re, 'hm) crates \<Rightarrow> 'cl upstream \<Rightarrow> ('hm, 'b) call \<Rightarrow> bool" where
  "sent_ok X u c \<longleftrightarrow> ca_sent c = [] \<or>
     (\<exists>idx out n. out_ok X u (ca_request c) idx out \<and> n < attempts_of u \<and> ca_sent c = replicate (n + 1) out)"

fun stage_ok :: "('re, 'hm) crates \<Rightarrow> 'cl upstream \<Rightarrow> ('hm, 'b) call \<Rightarrow> ('hm, 'b) stage \<Rightarrow> bool" where
  "stage_ok X u c Picking = (u_addrs u \<noteq> [] \<and> ca_sent c = [] \<and> ca_start c = None)"
| "stage_ok X u c (Scanning start offset) = (u_addrs u \<noteq> [] \<and> ca_sent c = [] \<and> ca_start c = Some start)"
| "stage_ok X u c (Tripped start offset) =
     (offset < length (u_addrs u) \<and> ca_sent c = [] \<and> ca_start c = Some start)"
| "stage_ok X u c (Comparing start offset til) =
     (offset < length (u_addrs u) \<and> ca_sent c = [] \<and> ca_start c = Some start)"
| "stage_ok X u c (Preparing idx) = (idx_ok u idx \<and> ca_sent c = [])"
| "stage_ok X u c (Sending idx out attempt ls) =
     (out_ok X u (ca_request c) idx out \<and> attempt < attempts_of u \<and> ca_sent c = replicate (attempt + 1) out)"
| "stage_ok X u c (Recording i p res) = (i < length (u_addrs u) \<and> p \<noteq> Idle \<and> sent_ok X u c)"
| "stage_ok X u c _ = sent_ok X u c"

fun thread_ok :: "('re, 'hm) crates \<Rightarrow> 'cl upstream \<Rightarrow> ('hm, 'b) thread \<Rightarrow> bool" where
  "thread_ok X u (Forwarding c) = stage_ok X u c (ca_stage c)"
| "thread_ok X u (ProbeTask i p) = (i < length (u_addrs u))"

text \<open>What no step changes of the upstream.\<close>

definition same_pool :: "'cl upstream \<Rightarrow> 'cl upstream \<Rightarrow> bool" where
  "same_pool u u' \<longleftrightarrow>
     u_addrs u' = u_addrs u \<and> u_authorities u' = u_authorities u \<and> u_retry u' = u_retry u
     \<and> length (u_breakers u') = length (u_breakers u)"

definition pool_inv :: "('re, 'hm) crates \<Rightarrow> 'cl upstream \<Rightarrow> ('hm, 'b, 'cl) pool_sys \<Rightarrow> bool" where
  "pool_inv X u s \<longleftrightarrow>
     upstream_wf u \<and> same_pool u (po_upstream s) \<and> (\<forall>t\<in>set (po_threads s). thread_ok X u t)"

lemma same_pool_refl [simp]: "same_pool u u"
  by (simp add: same_pool_def)

lemma same_pool_facts:
  assumes "same_pool u u'"
  shows "upstream_wf u' = upstream_wf u" "attempts_of u' = attempts_of u" "idx_ok u' = idx_ok u"
    "slot u' = slot u" "out_ok X u' = out_ok X u" "stage_left u' = stage_left u"
proof -
  show "upstream_wf u' = upstream_wf u" "attempts_of u' = attempts_of u" "idx_ok u' = idx_ok u"
    "slot u' = slot u" "out_ok X u' = out_ok X u"
    using assms by (auto simp: same_pool_def upstream_wf_def attempts_of_def idx_ok_def slot_def
        out_ok_def fun_eq_iff split: option.split)
  then have "stage_left u' st = stage_left u st" for st
    using assms by (cases st) (simp_all add: same_pool_def)
  then show "stage_left u' = stage_left u" by (rule ext)
qed

lemma same_pool_stage_ok:
  assumes "same_pool u u'"
  shows "stage_ok X u' c st = stage_ok X u c st"
  using assms by (cases st) (auto simp: same_pool_facts [OF assms] same_pool_def sent_ok_def)


lemma sent_ok_stage [simp]: "sent_ok X u (c\<lparr>ca_stage := st\<rparr>) = sent_ok X u c"
  by (simp add: sent_ok_def)

text \<open>One step of a call keeps what the call carries and makes it shorter.\<close>

lemma begin_left: "pc_left (begin_success b) \<le> 3" "pc_left (begin_failure b) \<le> 3"
  by (simp_all add: begin_success_def begin_failure_def)

lemma atomic_left:
  assumes "atomic now p b = (p', b')" and "p \<noteq> Idle"
  shows "pc_left p' < pc_left p"
  using assms by (cases p) (auto simp: Let_def split: if_splits)

lemma atomic_shorter: "atomic now p b = (p', b') \<Longrightarrow> pc_left p' \<le> pc_left p - 1"
  using atomic_left [of now p b p' b'] by (cases "p = Idle") auto

lemma pc_left_0: "pc_left p = 0 \<Longrightarrow> p = Idle"
  by (cases p) simp_all

lemma begin_success_left: "pc_left (begin_success b) \<le> 2"
  by (simp add: begin_success_def)

lemma enter_outcome_ok:
  assumes "idx_ok u idx" and "sent_ok X u c" and "c' = c\<lparr>ca_stage := enter_outcome u idx ok res\<rparr>"
  shows "stage_ok X u c' (ca_stage c') \<and> stage_left u (ca_stage c') \<le> 3"
  using assms begin_left by (auto simp: enter_outcome_def resume_def idx_ok_def split: option.splits)

lemma out_ok_idx: "out_ok X u req idx out \<Longrightarrow> idx_ok u idx"
  by (auto simp: out_ok_def idx_ok_def split: option.splits)

lemma next_attempt_ok:
  assumes "out_ok X u (ca_request c) idx out" and "attempt < attempts_of u"
    and "ca_sent c = replicate (attempt + 1) out" and "c' = next_attempt u idx out attempt ls c"
  shows "stage_ok X u c' (ca_stage c') \<and> stage_left u (ca_stage c') < (attempts_of u - attempt) + 3"
proof (cases "attempt + 1 < attempts_of u")
  case True
  have "replicate (attempt + 1) out @ [out] = replicate (attempt + 2) out" by (simp add: replicate_append_same)
  with True assms show ?thesis by (auto simp: next_attempt_def attempts_of_def)
next
  case False
  have "sent_ok X u c" using assms(1-3) by (auto simp: sent_ok_def)
  moreover have "c' = c\<lparr>ca_stage := enter_outcome u idx False (Inl (RetriesExhausted ls))\<rparr>"
    using False assms(4) by (simp add: next_attempt_def attempts_of_def)
  ultimately show ?thesis
    using enter_outcome_ok [OF out_ok_idx [OF assms(1)]] assms(2) by fastforce
qed

lemma answer_step_ok:
  assumes "out_ok X u (ca_request c) idx out" and "attempt < attempts_of u"
    and "ca_sent c = replicate (attempt + 1) out" and "c' = answer_step u answer idx out attempt ls c"
  shows "stage_ok X u c' (ca_stage c') \<and> stage_left u (ca_stage c') < (attempts_of u - attempt) + 3"
proof -
  have sent: "sent_ok X u c" using assms(1-3) by (auto simp: sent_ok_def)
  consider ls' where "c' = next_attempt u idx out attempt ls' c"
    | ok res where "c' = c\<lparr>ca_stage := enter_outcome u idx ok res\<rparr>"
    using assms(4) by (auto simp: answer_step_def Let_def split: sum.splits retry_decision.splits if_splits)
  then show ?thesis
  proof cases
    case 1
    then show ?thesis by (rule next_attempt_ok [OF assms(1-3)])
  next
    case 2
    from enter_outcome_ok [OF out_ok_idx [OF assms(1)] sent this] assms(2) show ?thesis by linarith
  qed
qed

lemma prepare_step_ok:
  assumes "upstream_wf u" and "idx_ok u idx" and "ca_sent c = []"
  shows "\<exists>c'. prepare_step X u idx c = Some c' \<and> stage_ok X u c' (ca_stage c')
    \<and> stage_left u (ca_stage c') < attempts_of u + 4 \<and> ca_request c' = ca_request c \<and> ca_start c' = ca_start c"
proof -
  have pos: "0 < attempts_of u" by (simp add: attempts_of_def max_def word_le_nat_alt)
  obtain uri_r where uri: "(case idx of None \<Rightarrow> Some (Inr (rq_uri (ca_request c)))
      | Some i \<Rightarrow> if i < length (u_authorities u)
          then Some (rewrite_uri X (rq_uri (ca_request c)) (u_authorities u ! i)) else None) = Some uri_r"
    using assms(1,2) by (auto simp: idx_ok_def upstream_wf_def split: option.splits)
  show ?thesis
  proof (cases uri_r)
    case (Inl e)
    with uri assms(3) show ?thesis by (simp add: prepare_step_def sent_ok_def)
  next
    case (Inr uri')
    with uri have "idx = None \<and> uri' = rq_uri (ca_request c) \<or> (\<exists>i. idx = Some i \<and>
        rewrite_uri X (rq_uri (ca_request c)) (u_authorities u ! i) = Inr uri')"
      by (auto split: option.splits if_splits)
    with Inr uri assms pos show ?thesis
      by (cases "buffer_body (rq_body (ca_request c))")
        (auto simp: prepare_step_def sent_ok_def out_ok_def egress_def idx_ok_def Let_def split: option.splits)
  qed
qed

lemma scan_slot: "upstream_wf u \<Longrightarrow> u_addrs u \<noteq> [] \<Longrightarrow> slot u start k < length (u_addrs u) \<and> length (u_breakers u) = length (u_addrs u)"
  using slot_less by (auto simp: upstream_wf_def)

lemma call_step_ok:
  assumes "upstream_wf u" and "stage_ok X u c (ca_stage c)" and "\<not> ended (ca_stage c)"
  shows "\<exists>u' c'. call_step X now answer u c = Some (u', c') \<and> same_pool u u'
    \<and> stage_ok X u c' (ca_stage c') \<and> stage_left u (ca_stage c') < stage_left u (ca_stage c)
    \<and> ca_request c' = ca_request c"
proof (cases "ca_stage c")
  case Picking
  with assms(2) show ?thesis by (auto simp: call_step_def same_pool_def)
next
  case (Scanning start offset)
  with assms(2) have ne: "u_addrs u \<noteq> []" by simp
  with Scanning assms(2) scan_slot [OF assms(1) ne, of start offset] show ?thesis
    by (auto simp: call_step_def pick_scan_step_def Let_def idx_ok_def sent_ok_def)
next
  case (Tripped start offset)
  with assms(2) show ?thesis by (simp add: call_step_def)
next
  case (Comparing start offset til)
  with assms(2) have ne: "u_addrs u \<noteq> []" by auto
  with Comparing assms(2) scan_slot [OF assms(1) ne, of start offset] show ?thesis
    by (auto simp: call_step_def compare_step_def Let_def idx_ok_def sent_ok_def)
next
  case (Preparing idx)
  with assms(2) prepare_step_ok [OF assms(1), of idx c X] show ?thesis by (auto simp: call_step_def)
next
  case (Sending idx out attempt ls)
  let ?c = "answer_step u answer idx out attempt ls c"
  have "ca_request ?c = ca_request c"
    by (auto simp: answer_step_def next_attempt_def Let_def split: sum.split retry_decision.split)
  with Sending assms(2) answer_step_ok [of X u c idx out attempt ?c answer ls] show ?thesis
    by (simp add: call_step_def)
next
  case (Recording i p res)
  obtain p' b' where a: "atomic now p (u_breakers u ! i) = (p', b')" by (cases "atomic now p (u_breakers u ! i)")
  have "pc_left p' < pc_left p" using Recording assms(2) atomic_left [OF a] by simp
  with Recording assms(2) a show ?thesis by (auto simp: call_step_def resume_def same_pool_def sent_ok_def)
qed (use assms(3) in auto)


section \<open>Lemmas: the pool\<close>

lemma pool_inv_step:
  assumes "pool_step X s s'" and "pool_inv X u s"
  shows "pool_inv X u s'"
  using assms
proof (cases rule: pool_step.cases)
  case (arrive req rt)
  with assms(2) show ?thesis
    by (auto simp: pool_inv_def call_new_def idx_ok_def same_pool_def)
next
  case (call k c answer u' c')
  let ?u = "po_upstream s"
  have inv: "upstream_wf ?u" "same_pool u ?u" "stage_ok X u c (ca_stage c)"
    using assms(2) call(2,3) nth_mem [OF call(2)] by (auto simp: pool_inv_def same_pool_facts)
  have "stage_ok X ?u c (ca_stage c)" unfolding same_pool_stage_ok [OF inv(2)] by (rule inv(3))
  from call_step_ok [OF inv(1) this call(4), of "po_now s" answer] call(5)
  have "same_pool ?u u'" and ok: "stage_ok X ?u c' (ca_stage c')" by auto
  then have "same_pool u u'" using inv(2) by (simp add: same_pool_def)
  moreover have "stage_ok X u c' (ca_stage c')" using ok unfolding same_pool_stage_ok [OF inv(2)] .
  ultimately have "pool_inv X u s'"
    using assms(2) call(1) by (auto simp: pool_inv_def dest!: set_update_subset_insert [THEN subsetD])
  then show ?thesis .
next
  case (cancel k c)
  have "thread_ok X u (Forwarding c)" using assms(2) cancel(2,3) nth_mem by (force simp: pool_inv_def)
  then have "sent_ok X u c"
    using cancel(4) by (cases "ca_stage c") (auto simp: sent_ok_def)
  with assms(2) cancel(1) show ?thesis
    by (auto simp: pool_inv_def dest!: set_update_subset_insert [THEN subsetD])
next
  case (probe_task i)
  with assms(2) show ?thesis by (auto simp: pool_inv_def same_pool_def upstream_wf_def)
next
  case (probe_outcome k i p healthy)
  then have "thread_ok X u (ProbeTask i Idle)" using assms(2) nth_mem by (force simp: pool_inv_def)
  with assms(2) probe_outcome(1) show ?thesis
    by (auto simp: pool_inv_def dest!: set_update_subset_insert [THEN subsetD])
next
  case (probe_update k i p p' b')
  then have "thread_ok X u (ProbeTask i p)" using assms(2) nth_mem by (force simp: pool_inv_def)
  with assms(2) probe_update(1) show ?thesis
    by (auto simp: pool_inv_def same_pool_def dest!: set_update_subset_insert [THEN subsetD])
qed (use assms(2) in \<open>auto simp: pool_inv_def\<close>)

interpretation pool: inductive_invariant "pool_init u" "pool_step X" "pool_inv X u"
proof
  show "pool_init u s \<Longrightarrow> pool_inv X u s" for s by (simp add: pool_init_def pool_inv_def)
  show "pool_inv X u s \<Longrightarrow> pool_step X s s' \<Longrightarrow> pool_inv X u s'" for s s' by (rule pool_inv_step)
qed

subsection \<open>Each backend is an interleaved breaker\<close>

lemma breaker_move:
  assumes "p = sh_pc s k" and "b = sh_breaker s"
    and "p' = p \<and> b' = b \<or> p = Idle \<and> b' = b \<and> (p' = begin_success b \<or> p' = begin_failure b)
      \<or> atomic (sh_now s) p b = (p', b')"
  shows "breaker_step\<^sup>*\<^sup>* s (s\<lparr>sh_breaker := b', sh_pc := (sh_pc s)(k := p')\<rparr>)"
  using assms(3)
proof (elim disjE conjE)
  assume "p' = p" "b' = b"
  then have "s\<lparr>sh_breaker := b', sh_pc := (sh_pc s)(k := p')\<rparr> = s" using assms(1,2) by simp
  then show ?thesis by simp
next
  assume "p = Idle" "b' = b" "p' = begin_success b"
  then show ?thesis using enter_success [of s k] assms(1,2) by (simp add: r_into_rtranclp)
next
  assume "p = Idle" "b' = b" "p' = begin_failure b"
  then show ?thesis using enter_failure [of s k] assms(1,2) by (simp add: r_into_rtranclp)
next
  assume "atomic (sh_now s) p b = (p', b')"
  then show ?thesis using breaker_step.run [of s k p' b'] assms(1,2) by (simp add: r_into_rtranclp)
qed

lemma backend_update:
  "k < length (po_threads s) \<Longrightarrow>
   backend i (s\<lparr>po_upstream := u', po_threads := (po_threads s)[k := t]\<rparr>) =
     (backend i s)\<lparr>sh_breaker := u_breakers u' ! i, sh_pc := (sh_pc (backend i s))(k := thread_pc i t)\<rparr>"
  by (auto simp: backend_def fun_eq_iff nth_list_update)

lemma backend_spawn: "thread_pc i t = Idle \<Longrightarrow> backend i (s\<lparr>po_threads := po_threads s @ [t]\<rparr>) = backend i s"
  by (auto simp: backend_def fun_eq_iff nth_append)

lemma stage_pc_resume [simp]: "stage_pc i (resume j p res) = (if i = j then p else Idle)"
  by (simp add: resume_def)

lemma enter_outcome_pc:
  "stage_pc i (enter_outcome u idx ok res) \<in> {Idle, begin_success (u_breakers u ! i), begin_failure (u_breakers u ! i)}"
  by (auto simp: enter_outcome_def split: option.split)

lemma answer_step_pc:
  "stage_pc i (ca_stage (answer_step u answer idx out attempt ls c))
   \<in> {Idle, begin_success (u_breakers u ! i), begin_failure (u_breakers u ! i)}"
  using enter_outcome_pc [of i u idx]
  by (auto simp: answer_step_def next_attempt_def Let_def split: sum.split retry_decision.split)

lemma call_step_moves:
  assumes "call_step X now answer u c = Some (u', c')" and "stage_ok X u c (ca_stage c)" and "upstream_wf u"
    and "p = stage_pc i (ca_stage c)" and "p' = stage_pc i (ca_stage c')"
    and "b = u_breakers u ! i" and "b' = u_breakers u' ! i"
  shows "p' = p \<and> b' = b \<or> p = Idle \<and> b' = b \<and> (p' = begin_success b \<or> p' = begin_failure b)
    \<or> atomic now p b = (p', b')"
proof (cases "ca_stage c")
  case (Scanning start offset)
  with assms show ?thesis by (auto simp: call_step_def pick_scan_step_def Let_def split: if_splits)
next
  case (Comparing start offset til)
  with assms show ?thesis by (auto simp: call_step_def compare_step_def Let_def split: if_splits)
next
  case (Preparing idx)
  with assms show ?thesis
    by (auto simp: call_step_def prepare_step_def Let_def split: if_splits option.splits sum.splits)
next
  case (Sending idx out attempt ls)
  with assms answer_step_pc [of i u answer idx out attempt ls c] show ?thesis by (auto simp: call_step_def)
next
  case (Recording j q res)
  with assms show ?thesis
    by (cases "i = j") (auto simp: call_step_def upstream_wf_def split: prod.splits)
qed (use assms in \<open>auto simp: call_step_def\<close>)

lemma backend_step:
  assumes "pool_inv X u s" and "pool_step X s s'"
  shows "breaker_step\<^sup>*\<^sup>* (backend i s) (backend i s')"
  using assms(2)
proof (cases rule: pool_step.cases)
  case (tick d)
  then have "backend i s' = (backend i s)\<lparr>sh_now := sh_now (backend i s) + d\<rparr>"
    by (simp add: backend_def cong: if_cong)
  then show ?thesis using breaker_step.tick by auto
next
  case (call k c answer u' c')
  let ?u = "po_upstream s"
  have "stage_ok X ?u c (ca_stage c)" "upstream_wf ?u"
    using assms(1) call(2,3) nth_mem [OF call(2)] by (auto simp: pool_inv_def same_pool_facts same_pool_stage_ok)
  note moves = call_step_moves [OF call(5) this refl refl refl refl]
  show ?thesis
    unfolding call(1) backend_update [OF call(2)] thread_pc.simps
    by (rule breaker_move [OF refl refl]) (use moves call(2,3) in \<open>simp add: backend_def\<close>)
next
  case (cancel k c)
  have "stage_pc i (ca_stage c) = Idle" using cancel(4) by (cases "ca_stage c") simp_all
  then have "backend i s' = backend i s"
    using cancel(1-3) by (auto simp: backend_def fun_eq_iff nth_list_update)
  then show ?thesis by simp
next
  case (probe_outcome k j p healthy)
  have "s' = s\<lparr>po_upstream := po_upstream s, po_threads := (po_threads s)[k := ProbeTask j p]\<rparr>"
    using probe_outcome(1) by simp
  then show ?thesis
    using probe_outcome(2-4)
    by (simp only: backend_update) (rule breaker_move [OF refl refl], auto simp: backend_def)
next
  case (probe_update k j p p' b')
  have "thread_ok X u (ProbeTask j p)" using assms(1) probe_update(2,3) nth_mem by (force simp: pool_inv_def)
  then have "j < length (u_breakers (po_upstream s))"
    using assms(1) by (auto simp: pool_inv_def same_pool_def upstream_wf_def)
  with probe_update show ?thesis
    by (simp only: backend_update) (rule breaker_move [OF refl refl], auto simp: backend_def)
qed (simp_all add: backend_spawn call_new_def)

interpretation backend_sim:
  simulation "pool_init u" "pool_step X" "pool_inv X u" "backend i" breaker_step
  by unfold_locales (rule backend_step)


subsection \<open>Draws of the round-robin counter\<close>

lemma map_filter_update_same:
  "f t = f (xs ! k) \<Longrightarrow> k < length xs \<Longrightarrow> List.map_filter f (xs[k := t]) = List.map_filter f xs"
proof (induction xs arbitrary: k)
  case (Cons x xs)
  then show ?case by (cases k) (simp_all add: List.map_filter_simps split: option.split)
qed simp

lemma map_filter_update_add:
  "f (xs ! k) = None \<Longrightarrow> f t = Some v \<Longrightarrow> k < length xs \<Longrightarrow>
   mset (List.map_filter f (xs[k := t])) = add_mset v (mset (List.map_filter f xs))"
proof (induction xs arbitrary: k)
  case (Cons x xs)
  then show ?case by (cases k) (auto simp: List.map_filter_simps split: option.split)
qed simp

lemma map_filter_snoc: "List.map_filter f (xs @ [t]) = List.map_filter f xs @ (case f t of None \<Rightarrow> [] | Some v \<Rightarrow> [v])"
  by (induction xs) (simp_all add: List.map_filter_simps split: option.split)

lemma call_step_start:
  assumes "call_step X now answer u c = Some (u', c')" and "ca_stage c \<noteq> Picking"
  shows "u_next u' = u_next u \<and> ca_start c' = ca_start c"
  using assms
  by (auto simp: call_step_def prepare_step_def answer_step_def next_attempt_def Let_def
      split: stage.splits option.splits sum.splits prod.splits if_splits retry_decision.splits)

definition draws_ok :: "usize \<Rightarrow> ('hm, 'b, 'cl) pool_sys \<Rightarrow> bool" where
  "draws_ok first s \<longleftrightarrow>
     u_next (po_upstream s) = first + of_nat (length (starts s))
     \<and> mset (starts s) = mset (map (\<lambda>j. first + of_nat j) [0..<length (starts s)])"

lemma draws_ok_same:
  "draws_ok first s \<Longrightarrow> starts s' = starts s \<Longrightarrow> u_next (po_upstream s') = u_next (po_upstream s)
   \<Longrightarrow> draws_ok first s'"
  by (simp add: draws_ok_def)

lemma draws_ok_step:
  assumes "pool_inv X u s" and "draws_ok first s" and "pool_step X s s'"
  shows "draws_ok first s'"
  using assms(3)
proof (cases rule: pool_step.cases)
  case (call k c answer u' c')
  show ?thesis
  proof (cases "ca_stage c = Picking")
    case True
    have "thread_ok X u (Forwarding c)" using assms(1) call(2,3) nth_mem by (force simp: pool_inv_def)
    with True have none: "thread_start (po_threads s ! k) = None" using call(3) by simp
    from True call(5) have u': "u_next u' = u_next (po_upstream s) + 1"
      and c': "thread_start (Forwarding c') = Some (u_next (po_upstream s))" by (auto simp: call_step_def)
    have m: "mset (starts s') = add_mset (u_next (po_upstream s)) (mset (starts s))"
      unfolding call(1) starts_def using map_filter_update_add [OF none c' call(2)] by simp
    then have "length (starts s') = Suc (length (starts s))" by (metis size_add_mset size_mset)
    with m assms(2) u' call(1) show ?thesis by (simp add: draws_ok_def algebra_simps)
  next
    case False
    with call_step_start [OF call(5)] call(1-3) assms(2) show ?thesis
      by (intro draws_ok_same [OF assms(2)]) (simp_all add: starts_def map_filter_update_same)
  qed
qed (use assms(2) in \<open>auto intro!: draws_ok_same [OF assms(2)]
    simp: starts_def map_filter_update_same map_filter_snoc call_new_def\<close>)

interpretation draws: inductive_invariant "pool_init u" "pool_step X"
  "\<lambda>s. pool_inv X u s \<and> draws_ok (u_next u) s"
proof
  show "pool_init u s \<Longrightarrow> pool_inv X u s \<and> draws_ok (u_next u) s" for s
    using pool.init_inv [of u s X] by (simp add: pool_init_def draws_ok_def starts_def List.map_filter_simps)
  show "pool_inv X u s \<and> draws_ok (u_next u) s \<Longrightarrow> pool_step X s s' \<Longrightarrow> pool_inv X u s' \<and> draws_ok (u_next u) s'" for s s'
    using pool.step_inv [of X u s s'] draws_ok_step [of X u s "u_next u" s'] by blast
qed

text \<open>Consecutive numbers fall evenly on the residues.\<close>

lemma residue_count:
  assumes "i < l"
  shows "n div l \<le> length (filter (\<lambda>j. (a + j) mod l = i) [0..<n])
    \<and> length (filter (\<lambda>j. (a + j) mod l = i) [0..<n]) \<le> n div l + 1"
proof -
  define e where "e = a + (l - i)"
  have hit: "(a + j) mod l = i \<longleftrightarrow> (j + e) mod l = 0" for j
  proof -
    have "(a + j) mod l = i \<longleftrightarrow> (a + j) mod l = i mod l" using assms by simp
    also have "\<dots> \<longleftrightarrow> (a + j + (l - i)) mod l = (i + (l - i)) mod l" by (simp add: nat_mod_eq_iff) (metis add.commute add.left_commute add_left_cancel)
    finally show ?thesis using assms by (simp add: e_def ac_simps)
  qed
  define b where "b = e + (l - 1)"
  have "length (filter (\<lambda>j. (j + e) mod l = 0) [0..<n]) = (n + b) div l - b div l" for n
  proof (induction n)
    case (Suc n)
    have "Suc (n + b) = n + e + l" using assms by (simp add: b_def)
    then have "Suc (n + b) mod l = 0 \<longleftrightarrow> (n + e) mod l = 0" by (simp only: mod_add_self2)
    moreover have "b div l \<le> (n + b) div l" by (simp add: div_le_mono)
    ultimately show ?case using Suc by (simp add: div_Suc Suc_diff_le)
  qed simp
  moreover have "(n + b) div l = n div l + b div l + (n mod l + b mod l) div l" by (rule div_add1_eq)
  moreover have "(n mod l + b mod l) div l \<le> 1"
  proof -
    have "n mod l + b mod l < 2 * l" using assms mod_less_divisor [of l n] mod_less_divisor [of l b] by linarith
    then show ?thesis using assms by (simp add: less_mult_imp_div_less div_le_mono flip: less_Suc_eq_le) 
  qed
  ultimately show ?thesis unfolding hit by simp
qed


subsection \<open>A call alone\<close>

text \<open>Steps of one call while nothing else moves and the clock stands still.\<close>

definition alone ::
  "('re, 'hm) crates \<Rightarrow> instant \<Rightarrow> 'cl upstream \<times> ('hm, 'b) call \<Rightarrow> 'cl upstream \<times> ('hm, 'b) call \<Rightarrow> bool" where
  "alone X now uc uc' \<longleftrightarrow>
     \<not> ended (ca_stage (snd uc)) \<and> (\<exists>answer. call_step X now answer (fst uc) (snd uc) = Some uc')"

lemma alone_step:
  "\<not> ended (ca_stage c) \<Longrightarrow> call_step X now answer u c = Some (u', c') \<Longrightarrow> (alone X now)\<^sup>*\<^sup>* (u', c') z
   \<Longrightarrow> (alone X now)\<^sup>*\<^sup>* (u, c) z"
  by (rule converse_rtranclp_into_rtranclp) (auto simp: alone_def)

lemma alone_pool:
  assumes "(alone X (po_now s))\<^sup>*\<^sup>* (po_upstream s, c) (u', c')" and "k < length (po_threads s)"
    and "po_threads s ! k = Forwarding c"
  shows "(pool_step X)\<^sup>*\<^sup>* s (s\<lparr>po_upstream := u', po_threads := (po_threads s)[k := Forwarding c']\<rparr>)"
  using assms(1)
proof (induction "(u', c')" arbitrary: u' c' rule: rtranclp_induct)
  case base
  have "(po_threads s)[k := Forwarding c] = po_threads s" using assms(3) by (metis list_update_id)
  then have "s\<lparr>po_upstream := po_upstream s, po_threads := (po_threads s)[k := Forwarding c]\<rparr> = s" by simp
  with base show ?case by simp
next
  case (step uc)
  obtain u1 c1 where uc: "uc = (u1, c1)" by (cases uc)
  let ?s = "s\<lparr>po_upstream := u1, po_threads := (po_threads s)[k := Forwarding c1]\<rparr>"
  from step(2) uc obtain answer where "\<not> ended (ca_stage c1)" "call_step X (po_now s) answer u1 c1 = Some (u', c')"
    by (auto simp: alone_def)
  then have "pool_step X ?s (?s\<lparr>po_upstream := u', po_threads := (po_threads ?s)[k := Forwarding c']\<rparr>)"
    using assms(2) by (intro pool_step.call [of k _ c1 _ answer]) simp_all
  then have "pool_step X ?s (s\<lparr>po_upstream := u', po_threads := (po_threads s)[k := Forwarding c']\<rparr>)" by simp
  with step(3) [OF uc] show ?case by (rule rtranclp.rtrancl_into_rtrancl)
qed

text \<open>The three points of \<open>Breaker::check\<close> are \<open>breaker_check\<close>, and the scan is \<open>pick_scan\<close>.\<close>

lemma alone_check:
  assumes "upstream_wf u" and "offset < length (u_addrs u)" and "ca_stage c = Scanning start offset"
  shows "(alone X now)\<^sup>*\<^sup>* (u, c)
    (u, c\<lparr>ca_stage := if breaker_check (u_breakers u ! slot u start offset) now = Allow
            then Preparing (Some (slot u start offset)) else Scanning start (offset + 1)\<rparr>)"
proof -
  let ?idx = "slot u start offset" and ?b = "u_breakers u ! slot u start offset"
  have ne: "u_addrs u \<noteq> []" using assms(2) by auto
  have idx: "?idx < length (u_addrs u)" "?idx < length (u_breakers u)"
    using scan_slot [OF assms(1) ne, of start offset] by auto
  let ?low = "b_threshold ?b = 0 \<or> b_failures ?b < b_threshold ?b"
  let ?late = "b_open_until_ms ?b = 0 \<or> b_open_until_ms ?b \<le> now_ms ?b now"
  have check: "breaker_check ?b now = Allow \<longleftrightarrow> ?low \<or> ?late" by (simp add: breaker_check_def Let_def)
  show ?thesis
  proof (cases ?low)
    case True
    then have "call_step X now answer u c = Some (u, c\<lparr>ca_stage := Preparing (Some ?idx)\<rparr>)" for answer
      using assms(2,3) idx by (simp add: call_step_def pick_scan_step_def Let_def)
    from alone_step [OF _ this rtranclp.rtrancl_refl] assms(3) True check show ?thesis by simp
  next
    case False
    let ?c1 = "c\<lparr>ca_stage := Tripped start offset\<rparr>"
    let ?c2 = "c\<lparr>ca_stage := Comparing start offset (b_open_until_ms ?b)\<rparr>"
    have s1: "call_step X now answer u c = Some (u, ?c1)" for answer
      using assms(2,3) idx False by (simp add: call_step_def pick_scan_step_def Let_def)
    have s2: "call_step X now answer u ?c1 = Some (u, ?c2)" for answer by (simp add: call_step_def)
    have s3: "call_step X now answer u ?c2 = Some (u, c\<lparr>ca_stage := if breaker_check ?b now = Allow
        then Preparing (Some ?idx) else Scanning start (offset + 1)\<rparr>)" for answer
      using idx check False by (simp add: call_step_def compare_step_def Let_def)
    from alone_step [OF _ s1 alone_step [OF _ s2 alone_step [OF _ s3 rtranclp.rtrancl_refl]]] assms(3)
    show ?thesis by simp
  qed
qed

lemma alone_scan:
  assumes "upstream_wf u" and "u_addrs u \<noteq> []"
  shows "offset + left = length (u_addrs u) \<Longrightarrow> ca_stage c = Scanning start offset \<Longrightarrow>
    (alone X now)\<^sup>*\<^sup>* (u, c)
      (u, c\<lparr>ca_stage := case pick_scan (\<lambda>_. now) u start offset left of
              Some (Some (addr, idx)) \<Rightarrow> Preparing (Some idx)
            | _ \<Rightarrow> Returned (Inl BreakerOpen)\<rparr>)"
proof (induction left arbitrary: offset c)
  case 0
  then have "call_step X now answer u c = Some (u, c\<lparr>ca_stage := Returned (Inl BreakerOpen)\<rparr>)" for answer
    by (simp add: call_step_def pick_scan_step_def)
  from alone_step [OF _ this rtranclp.rtrancl_refl] 0 show ?case by simp
next
  case (Suc left)
  let ?ok = "breaker_check (u_breakers u ! slot u start offset) now = Allow"
  have idx: "slot u start offset < length (u_addrs u)" "slot u start offset < length (u_breakers u)"
    using scan_slot [OF assms, of start offset] by auto
  have "offset < length (u_addrs u)" using Suc.prems(1) by simp
  note check = alone_check [OF assms(1) this Suc.prems(2), of X now]
  show ?case
  proof (cases ?ok)
    case True
    with check idx show ?thesis by (simp add: Let_def slot_def [symmetric])
  next
    case False
    let ?c = "c\<lparr>ca_stage := Scanning start (offset + 1)\<rparr>"
    have "pick_scan (\<lambda>_. now) u start offset (Suc left) = pick_scan (\<lambda>_. now) u start (offset + 1) left"
      using False idx by (simp add: Let_def slot_def [symmetric])
    moreover have "(alone X now)\<^sup>*\<^sup>* (u, c) (u, ?c)" using check False by simp
    ultimately show ?thesis
      using Suc.IH [of "offset + 1" ?c] Suc.prems(1) by (simp only: ) (erule rtranclp_trans, simp)
  qed
qed

text \<open>The update of the breaker is \<open>observe_breaker_outcome\<close>.\<close>

lemma alone_update:
  assumes "ca_stage c = resume i p res" and "i < length (u_breakers u)"
    and "atomic now p (u_breakers u ! i) = (p1, b1)" "atomic now p1 b1 = (p2, b2)" "atomic now p2 b2 = (Idle, b3)"
  shows "(alone X now)\<^sup>*\<^sup>* (u, c) (u\<lparr>u_breakers := (u_breakers u)[i := b3]\<rparr>, c\<lparr>ca_stage := Returned res\<rparr>)"
proof -
  have one: "(alone X now)\<^sup>*\<^sup>* (u, c) (u\<lparr>u_breakers := (u_breakers u)[i := b']\<rparr>, c\<lparr>ca_stage := resume i p' res\<rparr>)"
    if "ca_stage c = resume i p res" "i < length (u_breakers u)" "atomic now p (u_breakers u ! i) = (p', b')"
    for c :: "('a, 'b) call" and p p' b' and u :: "'c upstream"
  proof (cases "p = Idle")
    case True
    with that have "p' = Idle" "b' = u_breakers u ! i" by auto
    moreover have "c\<lparr>ca_stage := resume i p res\<rparr> = c" using that(1) by simp
    ultimately show ?thesis using True by simp
  next
    case False
    then have "\<not> ended (ca_stage c)" "call_step X now answer u c =
        Some (u\<lparr>u_breakers := (u_breakers u)[i := b']\<rparr>, c\<lparr>ca_stage := resume i p' res\<rparr>)" for answer
      using that by (simp_all add: resume_def call_step_def)
    then show ?thesis by (rule alone_step [OF _ _ rtranclp.rtrancl_refl])
  qed
  let ?u1 = "u\<lparr>u_breakers := (u_breakers u)[i := b1]\<rparr>" and ?c1 = "c\<lparr>ca_stage := resume i p1 res\<rparr>"
  let ?u2 = "u\<lparr>u_breakers := (u_breakers u)[i := b2]\<rparr>" and ?c2 = "c\<lparr>ca_stage := resume i p2 res\<rparr>"
  have "(alone X now)\<^sup>*\<^sup>* (u, c) (?u1, ?c1)" using one [OF assms(1,2,3)] .
  also have "(alone X now)\<^sup>*\<^sup>* (?u1, ?c1) (?u2, ?c2)"
    using one [of ?c1 p1 ?u1 p2 b2] assms(2,4) by simp
  also have "(alone X now)\<^sup>*\<^sup>* (?u2, ?c2) (u\<lparr>u_breakers := (u_breakers u)[i := b3]\<rparr>, c\<lparr>ca_stage := Returned res\<rparr>)"
    using one [of ?c2 p2 ?u2 Idle b3] assms(2,5) by (simp add: resume_def)
  finally show ?thesis .
qed

lemma alone_outcome:
  assumes "ca_stage c = enter_outcome u idx ok res"
  shows "(alone X now)\<^sup>*\<^sup>* (u, c) (observe_breaker_outcome now idx ok u, c\<lparr>ca_stage := Returned res\<rparr>)"
proof (cases "\<exists>i. idx = Some i \<and> i < length (u_breakers u)")
  case False
  then have st: "ca_stage c = Returned res" and same: "observe_breaker_outcome now idx ok u = u"
    using assms by (auto simp: enter_outcome_def observe_breaker_outcome_def split: option.splits)
  from st have "c\<lparr>ca_stage := Returned res\<rparr> = c" by (cases c) simp
  then show ?thesis unfolding same by (simp only: rtranclp.rtrancl_refl)
next
  case True
  then obtain i where i: "idx = Some i" "i < length (u_breakers u)" by blast
  let ?b = "u_breakers u ! i" and ?p = "(if ok then begin_success else begin_failure) (u_breakers u ! i)"
  obtain p1 b1 where 1: "atomic now ?p ?b = (p1, b1)" by (cases "atomic now ?p ?b")
  obtain p2 b2 where 2: "atomic now p1 b1 = (p2, b2)" by (cases "atomic now p1 b1")
  obtain p3 b3 where 3: "atomic now p2 b2 = (p3, b3)" by (cases "atomic now p2 b2")
  note shorter = atomic_shorter [OF 1] atomic_shorter [OF 2] atomic_shorter [OF 3]
  have "p3 = Idle \<and> b3 = (if ok then on_success ?b else on_failure now ?b)"
  proof (cases ok)
    case True
    then have "p2 = Idle" using shorter begin_success_left [of ?b] by (intro pc_left_0) simp
    with True 1 2 3 atomic_on_success [of now now ?b] show ?thesis by simp
  next
    case False
    then have "p3 = Idle" using shorter begin_left(2) [of ?b] by (intro pc_left_0) simp
    with False 1 2 3 atomic_on_failure [of now now now ?b] show ?thesis by simp
  qed
  with alone_update [OF _ i(2) 1 2, of c res b3 X] 3 assms i show ?thesis
    by (simp add: enter_outcome_def observe_breaker_outcome_def Let_def)
qed


text \<open>The attempts are \<open>attempt_loop\<close>.\<close>

lemma answer_step_cases:
  assumes "attempt < attempts_of u"
  shows "answer_step u answer idx out attempt ls c =
    (if retryable (u_retry u) attempt answer
     then next_attempt u idx out attempt (case answer of Inl _ \<Rightarrow> ls | Inr resp \<Rightarrow> rs_status resp) c
     else c\<lparr>ca_stage := enter_outcome u idx (succeeded answer) (conclude (ca_read_timeout c) answer)\<rparr>)"
  using attempt_word [OF assms [unfolded attempts_of_def]]
  by (auto simp: answer_step_def Let_def retryable_def decide_status_def succeeded_def conclude_def
      split: sum.split)

lemma alone_decided:
  assumes "attempt < attempts_of u" and "\<not> retryable (u_retry u) attempt answer"
    and "ca_stage c = Sending idx out attempt ls"
  shows "(alone X now)\<^sup>*\<^sup>* (u, c) (observe_breaker_outcome now idx (succeeded answer) u,
    c\<lparr>ca_stage := Returned (conclude (ca_read_timeout c) answer)\<rparr>)"
proof -
  let ?c = "c\<lparr>ca_stage := enter_outcome u idx (succeeded answer) (conclude (ca_read_timeout c) answer)\<rparr>"
  have "call_step X now answer u c = Some (u, ?c)"
    using assms(2,3) by (simp add: call_step_def answer_step_cases [OF assms(1)])
  moreover have "(alone X now)\<^sup>*\<^sup>* (u, ?c) (observe_breaker_outcome now idx (succeeded answer) u,
      ?c\<lparr>ca_stage := Returned (conclude (ca_read_timeout c) answer)\<rparr>)"
    by (rule alone_outcome) simp
  ultimately show ?thesis using assms(3) by (intro alone_step [of c X now answer u u ?c]) simp_all
qed

lemma alone_retry:
  assumes "attempt < attempts_of u" and "retryable (u_retry u) attempt answer"
    and "ca_stage c = Sending idx out attempt ls"
  shows "attempt + 1 < attempts_of u \<and> call_step X now answer u c = Some (u, c\<lparr>ca_sent := ca_sent c @ [out],
    ca_stage := Sending idx out (attempt + 1) (case answer of Inl _ \<Rightarrow> ls | Inr resp \<Rightarrow> rs_status resp)\<rparr>)"
proof -
  have "attempt + 1 < attempts_of u"
    using assms(2) attempts_le [of "u_retry u"] by (simp add: retryable_def attempts_of_def)
  with assms(2,3) show ?thesis
    by (simp add: call_step_def answer_step_cases [OF assms(1)] next_attempt_def attempts_of_def)
qed

lemma alone_attempts:
  "attempt + left = attempts_of u \<Longrightarrow> 0 < left \<Longrightarrow>
   attempt_loop answers now (ca_read_timeout c) idx (attempts_of u) u (Some out) ls sent attempt left = Some (u', r, sent') \<Longrightarrow>
   ca_stage c = Sending idx out attempt ls \<Longrightarrow> ca_sent c = sent @ [out] \<Longrightarrow>
   (alone X now)\<^sup>*\<^sup>* (u, c) (u', c\<lparr>ca_sent := sent', ca_stage := Returned r\<rparr>)"
proof (induction left arbitrary: attempt ls sent c)
  case (Suc left)
  let ?a = "answers attempt out"
  have lt: "attempt < attempts_of u" using Suc.prems(1) by simp
  note loop = attempt_loop_step [OF lt [unfolded attempts_of_def]]
  show ?case
  proof (cases "retryable (u_retry u) attempt ?a")
    case False
    then have "u' = observe_breaker_outcome now idx (succeeded ?a) u" "r = conclude (ca_read_timeout c) ?a"
        "sent' = ca_sent c"
      using Suc.prems(3,5) by (simp_all add: loop del: attempt_loop.simps)
    with alone_decided [OF lt False Suc.prems(4), of X now] show ?thesis by simp
  next
    case True
    let ?ls = "case ?a of Inl _ \<Rightarrow> ls | Inr resp \<Rightarrow> rs_status resp"
    let ?c = "c\<lparr>ca_sent := ca_sent c @ [out], ca_stage := Sending idx out (attempt + 1) ?ls\<rparr>"
    note again = alone_retry [OF lt True Suc.prems(4), of X now]
    then have left: "attempt + 1 + left = attempts_of u" "0 < left" using Suc.prems(1) by simp_all
    have "attempt_loop answers now (ca_read_timeout ?c) idx (attempts_of u) u (Some out) ?ls (sent @ [out])
        (attempt + 1) left = Some (u', r, sent')"
      using Suc.prems(3) True again by (simp add: loop del: attempt_loop.simps)
    from Suc.IH [OF left this] Suc.prems(5)
    have "(alone X now)\<^sup>*\<^sup>* (u, ?c) (u', c\<lparr>ca_sent := sent', ca_stage := Returned r\<rparr>)" by simp
    with again Suc.prems(4) show ?thesis by (intro alone_step [of c X now ?a u u ?c]) simp_all
  qed
qed simp


lemma alone_prepared:
  assumes "upstream_wf u" and "idx_ok u idx" and "ca_stage c = Preparing idx" and "ca_sent c = []"
    and "Some (u', r, sent) =
      (case (case idx of None \<Rightarrow> Inr (rq_uri (ca_request c))
             | Some i \<Rightarrow> rewrite_uri X (rq_uri (ca_request c)) (u_authorities u ! i)) of
         Inl e \<Rightarrow> Some (u, Inl (Body e), [])
       | Inr uri \<Rightarrow>
           (case buffer_body (rq_body (ca_request c)) of
              Inl e \<Rightarrow> Some (u, Inl (Body e), [])
            | Inr bytes \<Rightarrow>
                attempt_loop answers now (ca_read_timeout c) idx (attempts_of u) u
                  (Some (egress X (ca_request c) uri bytes)) 500 [] 0 (attempts_of u)))"
  shows "\<exists>c'. (alone X now)\<^sup>*\<^sup>* (u, c) (u', c') \<and> ca_stage c' = Returned r \<and> ca_sent c' = sent"
proof -
  let ?req = "ca_request c"
  let ?uri = "case idx of None \<Rightarrow> Inr (rq_uri ?req) | Some i \<Rightarrow> rewrite_uri X (rq_uri ?req) (u_authorities u ! i)"
  have some: "(case idx of None \<Rightarrow> Some (Inr (rq_uri ?req))
      | Some i \<Rightarrow> if i < length (u_authorities u) then Some (rewrite_uri X (rq_uri ?req) (u_authorities u ! i)) else None)
    = Some ?uri"
    using assms(1,2) by (auto simp: idx_ok_def upstream_wf_def split: option.splits)
  have go: ?thesis if "prepare_step X u idx c = Some c1" and "(alone X now)\<^sup>*\<^sup>* (u, c1) (u', c')"
    "ca_stage c' = Returned r" "ca_sent c' = sent" for c1 c'
  proof -
    have "call_step X now (Inl undefined) u c = Some (u, c1)" using that(1) assms(3) by (simp add: call_step_def)
    from alone_step [OF _ this that(2)] assms(3) that(3,4) show ?thesis by auto
  qed
  have fail: ?thesis if "prepare_step X u idx c = Some (c\<lparr>ca_stage := Returned (Inl (Body e))\<rparr>)"
      "Some (u', r, sent) = Some (u, Inl (Body e), [])" for e
    using that assms(4) by (intro go [OF that(1), of "c\<lparr>ca_stage := Returned (Inl (Body e))\<rparr>"]) simp_all
  show ?thesis
  proof (cases ?uri)
    case (Inl e)
    then show ?thesis using some assms(5) by (intro fail [of e]) (simp_all add: prepare_step_def)
  next
    case uri: (Inr uri)
    show ?thesis
    proof (cases "buffer_body (rq_body ?req)")
      case (Inl e)
      then show ?thesis using some uri assms(5) by (intro fail [of e]) (simp_all add: prepare_step_def)
    next
      case (Inr bytes)
      let ?out = "egress X ?req uri bytes"
      let ?c = "c\<lparr>ca_sent := ca_sent c @ [?out], ca_stage := Sending idx ?out 0 500\<rparr>"
      have pos: "0 < attempts_of u" by (simp add: attempts_of_def max_def word_le_nat_alt)
      have "attempt_loop answers now (ca_read_timeout ?c) idx (attempts_of u) u (Some ?out) 500 [] 0 (attempts_of u)
          = Some (u', r, sent)" using assms(5) uri Inr by simp
      from alone_attempts [OF _ pos this, of X] assms(4)
      have run: "(alone X now)\<^sup>*\<^sup>* (u, ?c) (u', ?c\<lparr>ca_sent := sent, ca_stage := Returned r\<rparr>)" by simp
      show ?thesis
        by (rule go [OF _ run]) (use some uri Inr in \<open>simp_all add: prepare_step_def Let_def\<close>)
    qed
  qed
qed

lemma call_new_fields [simp]:
  "ca_sent (call_new u req rt) = []" "ca_request (call_new u req rt) = req"
  "ca_read_timeout (call_new u req rt) = rt"
  by (simp_all add: call_new_def)

lemma alone_forward:
  fixes answers :: "nat \<Rightarrow> 'hm out_request \<Rightarrow> client_error + ('hm, 'b) response"
  assumes "upstream_wf u" and "forward X (\<lambda>_. now) answers now u req rt = Some (u', r, sent)"
  shows "\<exists>c'. (alone X now)\<^sup>*\<^sup>* (u, call_new u req rt) (u', c') \<and> ca_stage c' = Returned r \<and> ca_sent c' = sent"
proof (cases "u_addrs u = []")
  case True
  then show ?thesis using assms
    by (intro alone_prepared [where answers = answers and idx = None])
      (simp_all add: idx_ok_def call_new_def forward_def forward_prepare_def egress_def attempts_of_def
        Let_def split: sum.splits)
next
  case False
  let ?u = "u\<lparr>u_next := u_next u + 1\<rparr>" and ?c0 = "call_new u req rt :: ('hm, 'b) call"
  let ?c1 = "?c0\<lparr>ca_start := Some (u_next u), ca_stage := Scanning (u_next u) 0\<rparr>"
  have wf: "upstream_wf ?u" and ne: "u_addrs ?u \<noteq> []" using assms(1) False by (simp_all add: upstream_wf_def)
  have s0: "call_step X now (Inl undefined) u ?c0 = Some (?u, ?c1)" "\<not> ended (ca_stage ?c0)"
    using False by (simp_all add: call_step_def call_new_def)
  let ?scan = "pick_scan (\<lambda>_. now) ?u (u_next u) 0 (length (u_addrs u))"
  have pick: "pick_addr (\<lambda>_. now) u = map_option (\<lambda>r. (?u, r)) ?scan"
    using False by (simp add: pick_addr_def Let_def)
  have scan: "(alone X now)\<^sup>*\<^sup>* (?u, ?c1) (?u, ?c1\<lparr>ca_stage := case ?scan of
      Some (Some (addr, idx)) \<Rightarrow> Preparing (Some idx) | _ \<Rightarrow> Returned (Inl BreakerOpen)\<rparr>)"
    using alone_scan [OF wf ne, of 0 "length (u_addrs u)" ?c1 "u_next u" X now] by simp
  obtain res where res: "?scan = Some res" using pick_scan_find [OF wf ne] by simp
  show ?thesis
  proof (cases res)
    case None
    then have "u' = ?u" "r = Inl BreakerOpen" "sent = []"
      using assms(2) pick res False by (simp_all add: forward_rejected)
    with alone_step [OF s0(2,1) scan] None res show ?thesis
      by (intro exI [of _ "?c1\<lparr>ca_stage := Returned (Inl BreakerOpen)\<rparr>"]) simp
  next
    case (Some ai)
    obtain addr i where ai: "ai = (addr, i)" by (cases ai)
    have pick': "pick_addr (\<lambda>_. now) u = Some (?u, Some (addr, i))" using pick res Some ai by simp
    then have i: "i < length (u_addrs u)" using pick_addr_index [OF assms(1) False] by blast
    let ?c2 = "?c1\<lparr>ca_stage := Preparing (Some i)\<rparr>"
    have rest: "\<exists>c'. (alone X now)\<^sup>*\<^sup>* (?u, ?c2) (u', c') \<and> ca_stage c' = Returned r \<and> ca_sent c' = sent"
    proof (rule alone_prepared [OF wf, where idx = "Some i" and answers = answers])
      show "idx_ok ?u (Some i)" using i by (simp add: idx_ok_def)
    qed (use assms pick' i False in
        \<open>auto simp: call_new_def forward_def forward_prepare_def egress_def attempts_of_def
           upstream_wf_def Let_def split: sum.splits\<close>)
    have "(alone X now)\<^sup>*\<^sup>* (u, ?c0) (?u, ?c2)"
      using alone_step [OF s0(2,1) scan] res Some ai by simp
    with rest show ?thesis by (elim exE conjE) (rule exI, erule (1) conjI [OF rtranclp_trans], simp)
  qed
qed


section \<open>Lemmas: what the pool guarantees\<close>

lemma pool_armed:
  assumes "with_tls X Y clk retry addrs bc ct tls = Some (Inr u)" and "length addrs < 2 ^ 64"
    and "as_millis (bc_cooldown bc) \<noteq> 0" and "i < length addrs"
    and "pool_init u s0" and "clk i \<le> po_now s0" and "(pool_step X)\<^sup>*\<^sup>* s0 s"
    and "\<forall>t\<in>set (po_threads s). thread_pc i t = Idle"
    and "b = u_breakers (po_upstream s) ! i" and "b_threshold b \<noteq> 0" and "b_threshold b \<le> b_failures b"
  shows "b_open_until_ms b \<noteq> 0
    \<and> (\<forall>now. now_ms b now < b_open_until_ms b \<longrightarrow> breaker_check b now = Reject)"
proof -
  have "u_breakers u ! i = breaker_new (clk i) bc"
    using assms(1,4) by (auto simp: with_tls_def Let_def split: sum.splits option.splits)
  then have "backend i s0 = (breaker_init (clk i) bc)\<lparr>sh_now := sh_now (breaker_init (clk i) bc) + (po_now s0 - clk i)\<rparr>"
    using assms(5,6) by (simp add: backend_def breaker_init_def pool_init_def)
  then have "breaker_step\<^sup>*\<^sup>* (breaker_init (clk i) bc) (backend i s0)"
    using breaker_step.tick by auto
  moreover have "breaker_step\<^sup>*\<^sup>* (backend i s0) (backend i s)" by (rule backend_sim.reachable_sim [OF assms(5,7)])
  ultimately have "armed_inv (backend i s)"
    using armed.reachable_inv assms(3) by (metis (no_types, lifting) rtranclp_trans)
  moreover have "\<not> repairs th (sh_pc (backend i s) k)" for th k using assms(8) by (simp add: backend_def)
  ultimately show ?thesis
    using assms(9-11) by (auto simp: armed_inv_def backend_def breaker_check_Reject_iff)
qed

lemma pool_inv_call: "pool_inv X u s \<Longrightarrow> Forwarding c \<in> set (po_threads s) \<Longrightarrow> stage_ok X u c (ca_stage c)"
  by (force simp: pool_inv_def)

lemma call_sent:
  assumes "stage_ok X u c (ca_stage c)" and "crates_ok X" and "u_addrs u \<noteq> []" and "out \<in> set (ca_sent c)"
  shows "length (ca_sent c) \<le> attempts_of u \<and> set (ca_sent c) = {out}
    \<and> oq_method out = rq_method (ca_request c) \<and> buffer_body (rq_body (ca_request c)) = Inr (oq_bytes out)
    \<and> (\<exists>i<length (u_addrs u). uri_authority (oq_uri out) = Some (u_authorities u ! i))"
proof -
  have "sent_ok X u c" using assms(1) by (cases "ca_stage c") (auto simp: sent_ok_def)
  with assms(4) obtain idx n where ok: "out_ok X u (ca_request c) idx out" and n: "n < attempts_of u"
      "ca_sent c = replicate (n + 1) out"
    by (auto simp: sent_ok_def)
  moreover from ok assms(3) obtain i where i: "idx = Some i" by (cases idx) (auto simp: out_ok_def)
  ultimately have "i < length (u_addrs u)"
    and "rewrite_uri X (rq_uri (ca_request c)) (u_authorities u ! i) = Inr (oq_uri out)"
    by (auto simp: out_ok_def)
  moreover from this(2) have "uri_authority (oq_uri out) = Some (u_authorities u ! i)"
    unfolding rewrite_uri_ok [OF assms(2)] by (metis sum.inject(2) uri.select_convs(2))
  moreover have "oq_method out = rq_method (ca_request c)" "buffer_body (rq_body (ca_request c)) = Inr (oq_bytes out)"
    using ok by (auto simp: out_ok_def egress_def dest: arg_cong [of _ _ oq_method])
  ultimately show ?thesis using n by auto
qed

section \<open>Samples for the witnesses\<close>

definition sample_sys :: "((string \<times> string) list, unit, unit) pool_sys" where
  "sample_sys = \<lparr>po_upstream = sample_upstream_pool, po_now = 0, po_threads = []\<rparr>"

definition sample_call :: "((string \<times> string) list, unit) call" where
  "sample_call = call_new sample_upstream_pool (sample_request [] ''/'') 5"

text \<open>The state after the request has arrived, and after it has drawn from the counter.\<close>

definition sample_arrived :: "((string \<times> string) list, unit, unit) pool_sys" where
  "sample_arrived = sample_sys\<lparr>po_threads := [Forwarding sample_call]\<rparr>"

definition sample_drawn :: "((string \<times> string) list, unit, unit) pool_sys" where
  "sample_drawn = sample_sys\<lparr>po_upstream := sample_upstream_pool\<lparr>u_next := 2\<rparr>,
     po_threads := [Forwarding (sample_call\<lparr>ca_start := Some 1, ca_stage := Scanning 1 0\<rparr>)]\<rparr>"

lemma sample_pool_fields:
  "length (u_addrs sample_upstream_pool) = 2" "u_addrs sample_upstream_pool \<noteq> []"
  "u_next sample_upstream_pool = 1" "attempts_of sample_upstream_pool = 2"
  by (simp_all add: sample_upstream_pool_def sample_pool_def attempts_of_def max_two_one)

lemma sample_sys_init: "pool_init sample_upstream_pool sample_sys"
  using sample_upstream_pool_wf by (simp add: pool_init_def sample_sys_def)

lemma sample_call_stage: "ca_stage sample_call = Picking"
  using sample_pool_fields(2) by (simp add: sample_call_def call_new_def)

lemma sample_arrived_run: "(pool_step X)\<^sup>*\<^sup>* sample_sys sample_arrived"
proof -
  have "pool_step X sample_sys sample_arrived"
    using pool_step.arrive [of X sample_sys "sample_request [] ''/''" 5]
    by (simp add: sample_arrived_def sample_sys_def sample_call_def)
  then show ?thesis by (rule r_into_rtranclp)
qed

lemma sample_drawn_run: "(pool_step X)\<^sup>*\<^sup>* sample_sys sample_drawn"
proof -
  have "call_step X 0 (Inl undefined) sample_upstream_pool sample_call =
      Some (sample_upstream_pool\<lparr>u_next := 2\<rparr>, sample_call\<lparr>ca_start := Some 1, ca_stage := Scanning 1 0\<rparr>)"
    using sample_call_stage sample_pool_fields(3) by (simp add: call_step_def)
  then have "pool_step X sample_arrived sample_drawn"
    using pool_step.call [of 0 sample_arrived sample_call X "Inl undefined"] sample_call_stage
    by (simp add: sample_arrived_def sample_drawn_def sample_sys_def)
  with sample_arrived_run show ?thesis by (rule rtranclp.rtrancl_into_rtrancl)
qed

lemma sample_sent_run:
  "\<exists>s c. (pool_step sample_crates)\<^sup>*\<^sup>* sample_sys s \<and> Forwarding c \<in> set (po_threads s) \<and> ca_sent c \<noteq> []"
proof -
  let ?u = sample_upstream_pool and ?req = "sample_request [] ''/''"
  let ?u1 = "?u\<lparr>u_next := u_next ?u + 1\<rparr>" and ?uri = "\<lparr>uri_scheme = Some ''http'',
    uri_authority = Some (u_authorities ?u ! 1), uri_path_and_query = Some ''/''\<rparr>"
  have wf: "upstream_wf ?u" and ne: "u_addrs ?u \<noteq> []" using sample_upstream_pool_wf by simp_all
  have "breaker_check closed_breaker 0 = Allow" by (simp add: closed_breaker_def breaker_check_def)
  then have pick: "pick_addr (\<lambda>_. 0) ?u = Some (?u1, Some (u_addrs ?u ! 1, 1))"
    unfolding pick_addr_find [OF wf ne]
    by (simp add: sample_upstream_pool_def sample_pool_def slot_def unat_mod upt_rec)
  have uri: "rewrite_uri sample_crates (rq_uri ?req) (u_authorities ?u ! 1) = Inr ?uri"
    by (simp add: rewrite_uri_ok [OF sample_crates_ok] sample_request_def)
  have bytes: "buffer_body (rq_body ?req) = Inr []" by (simp add: buffer_body_def sample_request_def)
  have i: "1 < length (u_addrs ?u)" using sample_pool_fields(1) by simp
  obtain u' r sent where f: "forward sample_crates (\<lambda>_. 0) sample_answers 0 ?u ?req 5 = Some (u', r, sent)" "sent \<noteq> []"
    using forward_picked [OF pick wf ne i uri bytes, where answers = sample_answers] by (auto simp: Let_def)
  from alone_forward [OF wf f(1)] obtain c where c: "(alone sample_crates 0)\<^sup>*\<^sup>* (?u, sample_call) (u', c)" "ca_sent c = sent"
    by (auto simp: sample_call_def)
  let ?s = "sample_arrived\<lparr>po_upstream := u', po_threads := (po_threads sample_arrived)[0 := Forwarding c]\<rparr>"
  have "(pool_step sample_crates)\<^sup>*\<^sup>* sample_arrived ?s"
    by (rule alone_pool [where c = sample_call]) (use c(1) in \<open>simp_all add: sample_arrived_def sample_sys_def\<close>)
  with sample_arrived_run have "(pool_step sample_crates)\<^sup>*\<^sup>* sample_sys ?s" by (rule rtranclp_trans)
  with c(2) f(2) show ?thesis
    by (intro exI [of _ ?s] exI [of _ c]) (simp add: sample_arrived_def)
qed

text \<open>A probe task that records the one failure that trips a breaker of threshold 1.\<close>

definition trip_breaker :: "u32 \<Rightarrow> u64 \<Rightarrow> breaker" where
  "trip_breaker f til = \<lparr>b_threshold = 1, b_cooldown_ms = 5, b_anchor = 0, b_failures = f, b_open_until_ms = til\<rparr>"

definition probed_state ::
  "'cl upstream \<Rightarrow> breaker \<Rightarrow> ((string \<times> string) list, unit) thread list
   \<Rightarrow> ((string \<times> string) list, unit, 'cl) pool_sys" where
  "probed_state u b ts = \<lparr>po_upstream = u\<lparr>u_breakers := [b]\<rparr>, po_now = 0, po_threads = ts\<rparr>"

lemma probed_run:
  "(pool_step X)\<^sup>*\<^sup>* (probed_state u (trip_breaker 0 0) []) (probed_state u (trip_breaker 1 5) [ProbeTask 0 Idle])"
proof -
  let ?s = "\<lambda>f t p. probed_state u (trip_breaker f t) [ProbeTask 0 p]"
  have up: "pool_step X (?s f t p) (?s f' t' p')"
    if "atomic 0 p (trip_breaker f t) = (p', trip_breaker f' t')" for f t p f' t' p'
    using pool_step.probe_update [of 0 "?s f t p" 0 p p' "trip_breaker f' t'" X] that
    by (simp add: probed_state_def)
  have "pool_step X (probed_state u (trip_breaker 0 0) []) (?s 0 0 Idle)"
    using pool_step.probe_task [of 0 "probed_state u (trip_breaker 0 0) []" X] by (simp add: probed_state_def)
  moreover have "pool_step X (?s 0 0 Idle) (?s 0 0 FailureEntered)"
    using pool_step.probe_outcome [of 0 "?s 0 0 Idle" 0 FailureEntered False X]
    by (simp add: begin_failure_def probed_state_def trip_breaker_def)
  moreover have "pool_step X (?s 0 0 FailureEntered) (?s 1 0 (FailureAdded 0))"
    by (rule up) (simp add: trip_breaker_def)
  moreover have "pool_step X (?s 1 0 (FailureAdded 0)) (?s 1 0 (FailureStoring 5))"
    by (rule up) (simp add: trip_breaker_def saturating_add_def now_ms_def u64_or_max_def as_millis_def)
  moreover have "pool_step X (?s 1 0 (FailureStoring 5)) (?s 1 5 Idle)"
    by (rule up) (simp add: trip_breaker_def)
  ultimately show ?thesis by (meson converse_rtranclp_into_rtranclp rtranclp.rtrancl_refl)
qed

section \<open>Properties\<close>

text \<open>
  The breaker of every backend of a shared pool is sound under any interleaving of
  requests, cancellations and probe tasks: from a freshly built upstream, in every reachable
  state in which no task is inside an update of backend \<open>i\<close>, a failure count at or above an
  enabled threshold comes with a deadline, and the backend is rejected until then. Each backend
  of the pool is, step for step, an instance of the interleaved breaker.
\<close>

theorem shared_backends_armed:
  assumes "with_tls X Y clk retry addrs bc ct tls = Some (Inr u)" and "length addrs < 2 ^ 64"
    and "as_millis (bc_cooldown bc) \<noteq> 0" and "i < length addrs"
    and "pool_init u s0" and "clk i \<le> po_now s0" and "(pool_step X)\<^sup>*\<^sup>* s0 s"
    and "\<forall>t\<in>set (po_threads s). thread_pc i t = Idle"
    and "b = u_breakers (po_upstream s) ! i" and "b_threshold b \<noteq> 0" and "b_threshold b \<le> b_failures b"
  shows "b_open_until_ms b \<noteq> 0
    \<and> (\<forall>now. now_ms b now < b_open_until_ms b \<longrightarrow> breaker_check b now = Reject)"
  by (rule pool_armed [OF assms])

lemma shared_backends_armed_witness:
  "\<exists>u s. with_tls sample_crates sample_tls_crates (\<lambda>_. 0) retry_default [sample_addr 1]
       \<lparr>bc_threshold = 1, bc_cooldown = 5000000\<rparr> None None = Some (Inr u)
     \<and> (pool_step sample_crates)\<^sup>*\<^sup>* (probed_state u (trip_breaker 0 0) []) s
     \<and> b_open_until_ms (u_breakers (po_upstream s) ! 0) \<noteq> 0"
proof -
  let ?bc = "\<lparr>bc_threshold = 1, bc_cooldown = 5000000\<rparr>"
  obtain u where u: "with_tls sample_crates sample_tls_crates (\<lambda>_. 0) retry_default [sample_addr 1] ?bc None None = Some (Inr u)"
    by (simp add: with_tls_def build_https_connector_def sample_crates_def)
  then have "u_breakers u = [trip_breaker 0 0]" and wf: "upstream_wf u"
    using with_tls_wf [OF u]
    by (auto simp: with_tls_def Let_def breaker_new_def trip_breaker_def u64_or_max_def as_millis_def
        split: sum.splits option.splits)
  then have "pool_init u (probed_state u (trip_breaker 0 0) [])"
    by (simp add: pool_init_def probed_state_def)
  from shared_backends_armed [OF u _ _ _ this _ probed_run] have "b_open_until_ms (trip_breaker 1 5) \<noteq> 0"
    by (simp add: as_millis_def probed_state_def trip_breaker_def)
  with u probed_run [of sample_crates u] show ?thesis
    by (intro exI [of _ u] exI [of _ "probed_state u (trip_breaker 1 5) [ProbeTask 0 Idle]"])
      (simp add: probed_state_def)
qed



text \<open>
  C20. Round robin stays fair however the requests interleave: every call draws its own value of
  the shared counter, so as long as the counter does not wrap, the numbers of calls that start
  their scan at any two backends differ by at most one; each is the number of draws divided by
  the number of backends, rounded down or up.
\<close>

theorem shared_starts_fair:
  assumes "pool_init u s0" and "(pool_step X)\<^sup>*\<^sup>* s0 s" and "i < length (u_addrs u)"
    and "unat (u_next u) + length (starts s) \<le> 2 ^ 64"
  shows "length (starts s) div length (u_addrs u) \<le> length (filter (\<lambda>st. slot u st 0 = i) (starts s))
    \<and> length (filter (\<lambda>st. slot u st 0 = i) (starts s)) \<le> length (starts s) div length (u_addrs u) + 1"
proof -
  let ?n = "length (starts s)" and ?l = "length (u_addrs u)"
  have inv: "pool_inv X u s" "draws_ok (u_next u) s" using draws.reachable_inv [OF assms(1,2)] by simp_all
  have l: "?l < 2 ^ 64" using inv(1) by (simp add: pool_inv_def upstream_wf_def)
  have slot: "slot u (u_next u + of_nat j) 0 = (unat (u_next u) + j) mod ?l" if "j < ?n" for j
  proof -
    have small: "unat (u_next u) + j < 2 ^ 64" using that assms(4) by linarith
    then have "unat (u_next u + of_nat j) = unat (u_next u) + j"
      by (simp add: unat_word_ariths unat_of_nat take_bit_nat_eq_self)
    with small l show ?thesis using slot_no_wrap [of "u_next u + of_nat j" 0 u] by simp
  qed
  have "length (filter (\<lambda>st. slot u st 0 = i) (starts s))
      = size (filter_mset (\<lambda>st. slot u st 0 = i) (mset (map (\<lambda>j. u_next u + of_nat j) [0..<?n])))"
    using inv(2) by (metis draws_ok_def mset_filter size_mset)
  also have "\<dots> = length (filter (\<lambda>j. slot u (u_next u + of_nat j) 0 = i) [0..<?n])"
    by (simp only: mset_filter [symmetric] size_mset filter_map length_map comp_def)
  also have "\<dots> = length (filter (\<lambda>j. (unat (u_next u) + j) mod ?l = i) [0..<?n])"
    using slot by (metis (no_types, lifting) atLeastLessThan_iff filter_cong set_upt)
  finally show ?thesis using residue_count [OF assms(3), of ?n "unat (u_next u)"] by simp
qed

lemma shared_starts_fair_witness:
  "length (filter (\<lambda>st. slot sample_upstream_pool st 0 = 1) (starts sample_drawn)) \<le> 1"
proof -
  have "starts sample_drawn = [1]" by (simp add: starts_def sample_drawn_def List.map_filter_simps)
  with shared_starts_fair [OF sample_sys_init sample_drawn_run, of 1] show ?thesis
    by (simp add: sample_pool_fields)
qed

text \<open>
  A request keeps to one backend: whatever else runs, all requests a call has sent are
  copies of one request, at most as many as the policy has attempts, carrying the call's method
  and buffered body and the authority of a single backend of the pool.
\<close>

theorem shared_sends_one_backend:
  assumes "pool_init u s0" and "(pool_step X)\<^sup>*\<^sup>* s0 s" and "crates_ok X" and "u_addrs u \<noteq> []"
    and "Forwarding c \<in> set (po_threads s)" and "out \<in> set (ca_sent c)"
  shows "length (ca_sent c) \<le> attempts_of u \<and> set (ca_sent c) = {out}
    \<and> oq_method out = rq_method (ca_request c) \<and> buffer_body (rq_body (ca_request c)) = Inr (oq_bytes out)
    \<and> (\<exists>i<length (u_addrs u). uri_authority (oq_uri out) = Some (u_authorities u ! i))"
  using call_sent [OF pool_inv_call [OF pool.reachable_inv [OF assms(1,2)] assms(5)] assms(3,4,6)] .

lemma shared_sends_one_backend_witness:
  "\<exists>c out. (ca_sent c :: (string \<times> string) list out_request list) \<noteq> [] \<and> set (ca_sent (c :: (_, unit) call)) = {out}
     \<and> (\<exists>i<2. uri_authority (oq_uri out) = Some (u_authorities sample_upstream_pool ! i))"
proof -
  obtain s c where run: "(pool_step sample_crates)\<^sup>*\<^sup>* sample_sys s" and c: "Forwarding c \<in> set (po_threads s)" "ca_sent c \<noteq> []"
    using sample_sent_run by blast
  from c(2) have "hd (ca_sent c) \<in> set (ca_sent c)" by simp
  from shared_sends_one_backend [OF sample_sys_init run sample_crates_ok sample_pool_fields(2) c(1) this] c(2)
  show ?thesis unfolding sample_pool_fields(1) by blast
qed

text \<open>
  Uninterrupted, the interleaved model is \<open>forward\<close>: with the clock standing still, a
  request that arrives at a shared upstream can run to its end as the only task that moves, and
  then the upstream, its result and the requests it sent are those of the sequential \<open>forward\<close>.
\<close>

theorem shared_alone_is_forward:
  assumes "upstream_wf (po_upstream s)"
    and "forward X (\<lambda>_. po_now s) answers (po_now s) (po_upstream s) req rt = Some (u', r, sent)"
  shows "\<exists>c. (pool_step X)\<^sup>*\<^sup>* s (s\<lparr>po_upstream := u', po_threads := po_threads s @ [Forwarding c]\<rparr>)
    \<and> ca_stage c = Returned r \<and> ca_sent c = sent"
proof -
  let ?c = "call_new (po_upstream s) req rt" and ?k = "length (po_threads s)"
  let ?s = "s\<lparr>po_threads := po_threads s @ [Forwarding ?c]\<rparr>"
  obtain c where run: "(alone X (po_now ?s))\<^sup>*\<^sup>* (po_upstream ?s, ?c) (u', c)"
      "ca_stage c = Returned r" "ca_sent c = sent"
    using alone_forward [OF assms] by auto
  have "pool_step X s ?s" by (rule pool_step.arrive)
  with alone_pool [OF run(1), of ?k] run(2,3) show ?thesis
    by (intro exI [of _ c]) (auto intro: converse_rtranclp_into_rtranclp)
qed

lemma shared_alone_is_forward_witness:
  "\<exists>s (c :: ((string \<times> string) list, unit) call). (pool_step sample_crates)\<^sup>*\<^sup>*
     \<lparr>po_upstream = sample_pool 0 [open_breaker], po_now = 0, po_threads = []\<rparr> s
     \<and> po_threads s = [Forwarding c] \<and> ca_stage c = Returned (Inl BreakerOpen)"
proof -
  let ?u = "sample_pool 0 [open_breaker]"
  let ?s = "\<lparr>po_upstream = ?u, po_now = 0, po_threads = []\<rparr> :: ((string \<times> string) list, unit, unit) pool_sys"
  have wf: "upstream_wf ?u" "u_addrs ?u \<noteq> []" by (simp_all add: sample_pool_simps)
  have "breaker_check open_breaker 0 = Reject"
    by (simp add: open_breaker_def breaker_check_def now_ms_def u64_or_max_def as_millis_def)
  then have "pick_addr (\<lambda>_. 0) ?u = Some (?u\<lparr>u_next := u_next ?u + 1\<rparr>, None)"
    unfolding pick_addr_find [OF wf] by (simp add: sample_pool_def slot_def)
  then have "forward sample_crates (\<lambda>_. po_now ?s) sample_answers (po_now ?s) (po_upstream ?s) (sample_request [] ''/'') 5
      = Some (?u\<lparr>u_next := u_next ?u + 1\<rparr>, Inl BreakerOpen, [])"
    using wf(2) by (simp add: forward_rejected)
  from shared_alone_is_forward [OF _ this] wf(1) show ?thesis by fastforce
qed

end
