(* ===== verification/Conduit_Process.thy ===== *)
theory Conduit_Process
  imports Conduit_Live Conduit_Shared
begin

text \<open>
  The data plane of the process as a whole, at the grain of \<open>Conduit_Shared\<close>: listener cells, the
  dispatchers loaded from them, every upstream of every dispatcher with the calls and probe
  tasks that share it, and the reload thread, all interleaving (\<^verbatim>\<open>conduit/src/main.rs\<close>,
  \<^verbatim>\<open>conduit-lifecycle/src/table.rs\<close> and \<^verbatim>\<open>conduit-upstream/src/lib.rs\<close>). Dispatchers are counted
  references, here numbers into a list that only grows; one that no cell points at any more
  lives on while requests hold it.
\<close>

section \<open>Model\<close>

text \<open>A dispatcher in use: its routes never change, its upstreams are pools of running tasks.\<close>

record ('re, 'hm, 'b, 'cl) node =
  no_routes :: "'re route_table"
  no_pools :: "string \<rightharpoonup> ('hm, 'b, 'cl) pool_sys"

definition node_of :: "instant \<Rightarrow> ('re, 'cl) dispatch \<Rightarrow> ('re, 'hm, 'b, 'cl) node" where
  "node_of now d =
     \<lparr>no_routes = d_routes d,
      no_pools = (\<lambda>name. map_option (\<lambda>u. \<lparr>po_upstream = u, po_now = now, po_threads = []\<rparr>)
        (map_get (d_upstreams d) name))\<rparr>"

definition node_tick :: "nat \<Rightarrow> ('re, 'hm, 'b, 'cl) node \<Rightarrow> ('re, 'hm, 'b, 'cl) node" where
  "node_tick d n = n\<lparr>no_pools := (\<lambda>name. map_option (\<lambda>s. s\<lparr>po_now := po_now s + d\<rparr>) (no_pools n name))\<rparr>"

text \<open>
  A request in \<open>Dispatch::handle\<close>: the cell it came in by, the dispatcher it loaded, and once its
  route is found the call it awaits under \<open>tokio::time::timeout\<close>.
\<close>

record task =
  ta_upstream :: string
  ta_thread :: nat
  ta_total :: duration
  ta_started :: instant

datatype ('hm, 'b) progress =
    Loaded
  | InFlight
  | Replied "dispatch_error + ('hm, 'b timed_body) response"
  | Gone

record ('hm, 'b) job =
  jo_cell :: nat
  jo_node :: nat
  jo_request :: "'hm request"
  jo_task :: "task option"
  jo_progress :: "('hm, 'b) progress"

text \<open>
  \<open>pr_loaded\<close> lists the documents that loaded, the one of the start first, and \<open>pr_docs\<close> says
  which of them each dispatcher was built from; both are there for the statements only.
\<close>

record ('re, 'hm, 'b, 'cl, 'w) process =
  pr_now :: instant
  pr_heap :: "('re, 'hm, 'b, 'cl) node list"
  pr_docs :: "nat list"
  pr_loaded :: "config list"
  pr_cells :: "nat list"
  pr_jobs :: "('hm, 'b) job list"
  pr_reload :: "(config \<times> 'w \<times> nat) option"

text \<open>The route lookup at the start of \<open>handle\<close>.\<close>

definition find_route :: "('re, 'hm) crates \<Rightarrow> 're route_table \<Rightarrow> 'hm request \<Rightarrow> 're route option" where
  "find_route X rt req =
     table_find X rt (Option.bind (header_get X (rq_headers req) HOST) (header_to_str X))
       (uri_path X (rq_uri req)) (rq_headers req)"

text \<open>The end of \<open>handle\<close> when the call returned before the timer.\<close>

definition reply_of ::
  "forward_error + ('hm, 'b timed_body) response \<Rightarrow> dispatch_error + ('hm, 'b timed_body) response" where
  "reply_of res = (case res of Inr resp \<Rightarrow> Inr resp | Inl e \<Rightarrow> Inl (UpstreamError e))"

definition put_pool ::
  "nat \<Rightarrow> string \<Rightarrow> ('hm, 'b, 'cl) pool_sys \<Rightarrow> ('re, 'hm, 'b, 'cl, 'w) process
   \<Rightarrow> ('re, 'hm, 'b, 'cl, 'w) process" where
  "put_pool a name s p =
     p\<lparr>pr_heap := (pr_heap p)[a := (pr_heap p ! a)\<lparr>no_pools := (no_pools (pr_heap p ! a))(name \<mapsto> s)\<rparr>]\<rparr>"

definition put_job ::
  "nat \<Rightarrow> ('hm, 'b) job \<Rightarrow> ('re, 'hm, 'b, 'cl, 'w) process \<Rightarrow> ('re, 'hm, 'b, 'cl, 'w) process" where
  "put_job j jb p = p\<lparr>pr_jobs := (pr_jobs p)[j := jb]\<rparr>"

definition thread_at ::
  "('re, 'hm, 'b, 'cl, 'w) process \<Rightarrow> nat \<Rightarrow> string \<Rightarrow> nat \<Rightarrow> ('hm, 'b) thread option" where
  "thread_at p a name k =
     (case no_pools (pr_heap p ! a) name of
        None \<Rightarrow> None
      | Some s \<Rightarrow> if k < length (po_threads s) then Some (po_threads s ! k) else None)"

text \<open>The pool and the call a request awaits.\<close>

definition flight ::
  "('re, 'hm, 'b, 'cl, 'w) process \<Rightarrow> nat
   \<Rightarrow> (('hm, 'b) job \<times> task \<times> ('hm, 'b, 'cl) pool_sys \<times> ('hm, 'b) call) option" where
  "flight p j =
     (if j < length (pr_jobs p) \<and> jo_progress (pr_jobs p ! j) = InFlight then
        (let jb = pr_jobs p ! j in
         case jo_task jb of
           None \<Rightarrow> None
         | Some t \<Rightarrow>
             (case (no_pools (pr_heap p ! jo_node jb) (ta_upstream t),
                    thread_at p (jo_node jb) (ta_upstream t) (ta_thread t)) of
                (Some s, Some (Forwarding c)) \<Rightarrow> Some (jb, t, s, c)
              | _ \<Rightarrow> None))
      else None)"

text \<open>What a running probe task does to its pool.\<close>

inductive probe_move :: "('hm, 'b, 'cl) pool_sys \<Rightarrow> ('hm, 'b, 'cl) pool_sys \<Rightarrow> bool" where
  outcome: "k < length (po_threads s) \<Longrightarrow> po_threads s ! k = ProbeTask i Idle
    \<Longrightarrow> p = (if healthy then begin_success else begin_failure) (u_breakers (po_upstream s) ! i)
    \<Longrightarrow> probe_move s (s\<lparr>po_threads := (po_threads s)[k := ProbeTask i p]\<rparr>)"
| update: "k < length (po_threads s) \<Longrightarrow> po_threads s ! k = ProbeTask i p
    \<Longrightarrow> atomic (po_now s) p (u_breakers (po_upstream s) ! i) = (p', b')
    \<Longrightarrow> probe_move s (s\<lparr>po_upstream := (po_upstream s)\<lparr>u_breakers := (u_breakers (po_upstream s))[i := b']\<rparr>,
          po_threads := (po_threads s)[k := ProbeTask i p']\<rparr>)"

definition drop_call ::
  "nat \<Rightarrow> ('hm, 'b) call \<Rightarrow> ('hm, 'b, 'cl) pool_sys \<Rightarrow> ('hm, 'b, 'cl) pool_sys" where
  "drop_call k c s = s\<lparr>po_threads := (po_threads s)[k := Forwarding (c\<lparr>ca_stage := Cancelled\<rparr>)]\<rparr>"

inductive process_step ::
  "('re, 'hm) crates \<Rightarrow> (string \<Rightarrow> string + config) \<Rightarrow> string
   \<Rightarrow> ('re, 'hm, 'b, ('cert, 'key, 'roots) connector, ('cert, 'key, 'roots) reload_world) process
   \<Rightarrow> ('re, 'hm, 'b, ('cert, 'key, 'roots) connector, ('cert, 'key, 'roots) reload_world) process \<Rightarrow> bool"
  for X from_str path where
  time_passes: "process_step X from_str path p
    (p\<lparr>pr_now := pr_now p + d, pr_heap := map (node_tick d) (pr_heap p)\<rparr>)"
| load_full: "c < length (pr_cells p) \<Longrightarrow>
    process_step X from_str path p
      (p\<lparr>pr_jobs := pr_jobs p @ [\<lparr>jo_cell = c, jo_node = pr_cells p ! c, jo_request = req, jo_task = None,
                                  jo_progress = Loaded\<rparr>]\<rparr>)"
| no_route: "j < length (pr_jobs p) \<Longrightarrow> pr_jobs p ! j = jb \<Longrightarrow> jo_progress jb = Loaded \<Longrightarrow>
    find_route X (no_routes (pr_heap p ! jo_node jb)) (jo_request jb) = None \<Longrightarrow>
    process_step X from_str path p (put_job j (jb\<lparr>jo_progress := Replied (Inl NoRoute)\<rparr>) p)"
| not_registered: "j < length (pr_jobs p) \<Longrightarrow> pr_jobs p ! j = jb \<Longrightarrow> jo_progress jb = Loaded \<Longrightarrow>
    find_route X (no_routes (pr_heap p ! jo_node jb)) (jo_request jb) = Some route \<Longrightarrow>
    no_pools (pr_heap p ! jo_node jb) (r_upstream route) = None \<Longrightarrow>
    process_step X from_str path p
      (put_job j (jb\<lparr>jo_progress := Replied (Inl (UpstreamNotRegistered (r_upstream route)))\<rparr>) p)"
| dispatched: "j < length (pr_jobs p) \<Longrightarrow> pr_jobs p ! j = jb \<Longrightarrow> jo_progress jb = Loaded \<Longrightarrow>
    find_route X (no_routes (pr_heap p ! jo_node jb)) (jo_request jb) = Some route \<Longrightarrow>
    no_pools (pr_heap p ! jo_node jb) (r_upstream route) = Some s \<Longrightarrow>
    process_step X from_str path p
      (put_job j (jb\<lparr>jo_task := Some \<lparr>ta_upstream = r_upstream route, ta_thread = length (po_threads s),
                                     ta_total = r_total_timeout route, ta_started = pr_now p\<rparr>,
                     jo_progress := InFlight\<rparr>)
        (put_pool (jo_node jb) (r_upstream route)
          (s\<lparr>po_threads := po_threads s
               @ [Forwarding (call_new (po_upstream s) (jo_request jb) (r_read_timeout route))]\<rparr>) p))"
| forwarded: "flight p j = Some (jb, t, s, c) \<Longrightarrow> \<not> ended (ca_stage c) \<Longrightarrow>
    call_step X (po_now s) answer (po_upstream s) c = Some (u', c') \<Longrightarrow>
    process_step X from_str path p
      (put_pool (jo_node jb) (ta_upstream t)
        (s\<lparr>po_upstream := u', po_threads := (po_threads s)[ta_thread t := Forwarding c']\<rparr>) p)"
| finished: "flight p j = Some (jb, t, s, c) \<Longrightarrow> ca_stage c = Returned res \<Longrightarrow>
    process_step X from_str path p (put_job j (jb\<lparr>jo_progress := Replied (reply_of res)\<rparr>) p)"
| timed_out: "flight p j = Some (jb, t, s, c) \<Longrightarrow> awaits (ca_stage c) \<Longrightarrow>
    ta_started t + ta_total t \<le> pr_now p \<Longrightarrow>
    process_step X from_str path p
      (put_job j (jb\<lparr>jo_progress := Replied (Inl (Timeout (ta_total t)))\<rparr>)
        (put_pool (jo_node jb) (ta_upstream t) (drop_call (ta_thread t) c s) p))"
| disconnected: "flight p j = Some (jb, t, s, c) \<Longrightarrow> awaits (ca_stage c) \<Longrightarrow>
    process_step X from_str path p
      (put_job j (jb\<lparr>jo_progress := Gone\<rparr>)
        (put_pool (jo_node jb) (ta_upstream t) (drop_call (ta_thread t) c s) p))"
| probe_spawned: "uc \<in> set (cf_upstreams (hd (pr_loaded p))) \<Longrightarrow> uc_health_check uc \<noteq> None \<Longrightarrow>
    no_pools (pr_heap p ! 0) (uc_name uc) = Some s \<Longrightarrow> i < length (u_breakers (po_upstream s)) \<Longrightarrow>
    process_step X from_str path p
      (put_pool 0 (uc_name uc) (s\<lparr>po_threads := po_threads s @ [ProbeTask i Idle]\<rparr>) p)"
| probed: "a < length (pr_heap p) \<Longrightarrow> no_pools (pr_heap p ! a) name = Some s \<Longrightarrow> probe_move s s' \<Longrightarrow>
    process_step X from_str path p (put_pool a name s' p)"
| sighup_loaded: "pr_reload p = None \<Longrightarrow> loads from_str path w = Some cfg \<Longrightarrow>
    process_step X from_str path p
      (p\<lparr>pr_loaded := pr_loaded p @ [cfg], pr_reload := Some (cfg, w, 0)\<rparr>)"
| sighup_rejected: "pr_reload p = None \<Longrightarrow>
    loads from_str path (w :: ('cert, 'key, 'roots) reload_world) = None \<Longrightarrow> process_step X from_str path p p"
| store_cell: "pr_reload p = Some (cfg, w, j) \<Longrightarrow> j < length (pr_cells p) \<Longrightarrow>
    \<forall>i. rw_clk w j i \<le> pr_now p \<Longrightarrow> dispatch_from_config X (rw_tls w) (rw_clk w j) cfg = Some d \<Longrightarrow>
    process_step X from_str path p
      (p\<lparr>pr_heap := pr_heap p @ [node_of (pr_now p) d], pr_docs := pr_docs p @ [length (pr_loaded p) - 1],
         pr_cells := (pr_cells p)[j := length (pr_heap p)], pr_reload := Some (cfg, w, Suc j)\<rparr>)"
| reloaded: "pr_reload p = Some (cfg, w, j) \<Longrightarrow> j = length (pr_cells p) \<Longrightarrow>
    process_step X from_str path p (p\<lparr>pr_reload := None\<rparr>)"

text \<open>The start: one dispatcher per cell, the primary's first, all built from one document before \<open>now\<close>.\<close>

definition process_init ::
  "('re, ('cert, 'key, 'roots) connector) dispatch_bundle \<Rightarrow> config \<Rightarrow> instant
   \<Rightarrow> ('re, 'hm, 'b, ('cert, 'key, 'roots) connector, ('cert, 'key, 'roots) reload_world) process" where
  "process_init b cfg now =
     (let ds = db_primary b # db_http_workers b in
      \<lparr>pr_now = now, pr_heap = map (node_of now) ds, pr_docs = map (\<lambda>_. 0) ds, pr_loaded = [cfg],
       pr_cells = [0..<length ds], pr_jobs = [], pr_reload = None\<rparr>)"

section \<open>Invariant\<close>

text \<open>A pool that started as the fresh upstream \<open>u\<close>, no earlier than its breakers were built.\<close>

definition evolved ::
  "('re, 'hm) crates \<Rightarrow> (nat \<Rightarrow> instant) \<Rightarrow> instant \<Rightarrow> 'cl upstream \<Rightarrow> ('hm, 'b, 'cl) pool_sys \<Rightarrow> bool" where
  "evolved X clk now u s \<longleftrightarrow>
     po_now s = now \<and> (\<exists>s0. pool_init u s0 \<and> (\<forall>i. clk i \<le> po_now s0) \<and> (pool_step X)\<^sup>*\<^sup>* s0 s)"

text \<open>A node is a dispatcher built from the document, each upstream of which has evolved by itself.\<close>

definition node_ok ::
  "('re, 'hm) crates \<Rightarrow> instant \<Rightarrow> config
   \<Rightarrow> ('re, 'hm, 'b, ('cert, 'key, 'roots) connector) node \<Rightarrow> bool" where
  "node_ok X now cfg n \<longleftrightarrow>
     (\<exists>Y clk d. dispatch_from_config X Y clk cfg = Some d \<and> no_routes n = d_routes d
        \<and> (\<forall>name. rel_option (evolved X clk now) (map_get (d_upstreams d) name) (no_pools n name)))"

definition doc_of :: "('re, 'hm, 'b, 'cl, 'w) process \<Rightarrow> nat \<Rightarrow> config" where
  "doc_of p a = pr_loaded p ! (pr_docs p ! a)"

definition heap_ok where
  "heap_ok X p \<longleftrightarrow>
     pr_heap p \<noteq> [] \<and> length (pr_docs p) = length (pr_heap p) \<and> pr_loaded p \<noteq> []
     \<and> (\<forall>d\<in>set (pr_docs p). d < length (pr_loaded p))
     \<and> (\<forall>c\<in>set (pr_cells p). c < length (pr_heap p))
     \<and> (\<forall>a<length (pr_heap p). node_ok X (pr_now p) (doc_of p a) (pr_heap p ! a))"

text \<open>What is recorded of a request fits the call it was given.\<close>

definition task_ok where
  "task_ok X p jb t \<longleftrightarrow>
     (\<exists>route c. find_route X (no_routes (pr_heap p ! jo_node jb)) (jo_request jb) = Some route
        \<and> ta_upstream t = r_upstream route \<and> ta_total t = r_total_timeout route
        \<and> thread_at p (jo_node jb) (ta_upstream t) (ta_thread t) = Some (Forwarding c)
        \<and> ca_request c = jo_request jb \<and> ca_read_timeout c = r_read_timeout route
        \<and> (case jo_progress jb of
             Loaded \<Rightarrow> False
           | InFlight \<Rightarrow> ca_stage c \<noteq> Cancelled
           | Replied r \<Rightarrow> (\<exists>res. ca_stage c = Returned res \<and> r = reply_of res)
               \<or> (ca_stage c = Cancelled \<and> r = Inl (Timeout (ta_total t)) \<and> ta_started t + ta_total t \<le> pr_now p)
           | Gone \<Rightarrow> ca_stage c = Cancelled))"

definition untasked_ok where
  "untasked_ok X p jb \<longleftrightarrow>
     (case jo_progress jb of
        Loaded \<Rightarrow> True
      | Replied r \<Rightarrow>
          (case find_route X (no_routes (pr_heap p ! jo_node jb)) (jo_request jb) of
             None \<Rightarrow> r = Inl NoRoute
           | Some route \<Rightarrow>
               no_pools (pr_heap p ! jo_node jb) (r_upstream route) = None
               \<and> r = Inl (UpstreamNotRegistered (r_upstream route)))
      | _ \<Rightarrow> False)"

definition job_ok where
  "job_ok X p jb \<longleftrightarrow>
     jo_cell jb < length (pr_cells p) \<and> jo_node jb < length (pr_heap p)
     \<and> (case jo_task jb of None \<Rightarrow> untasked_ok X p jb | Some t \<Rightarrow> task_ok X p jb t)"

text \<open>No two requests own the same call.\<close>

definition owner :: "('hm, 'b) job \<Rightarrow> (nat \<times> string \<times> nat) option" where
  "owner jb = map_option (\<lambda>t. (jo_node jb, ta_upstream t, ta_thread t)) (jo_task jb)"

definition owners_ok :: "('hm, 'b) job list \<Rightarrow> bool" where
  "owners_ok jbs \<longleftrightarrow>
     (\<forall>i<length jbs. \<forall>j<length jbs. owner (jbs ! i) \<noteq> None \<and> owner (jbs ! i) = owner (jbs ! j) \<longrightarrow> i = j)"

text \<open>Documents reach the cells in the order they load, from the left.\<close>

definition cells_ok where
  "cells_ok p \<longleftrightarrow>
     (case pr_reload p of
        None \<Rightarrow> (\<forall>c\<in>set (pr_cells p). pr_docs p ! c = length (pr_loaded p) - 1)
      | Some (cfg, w, j) \<Rightarrow>
          cfg = last (pr_loaded p) \<and> j \<le> length (pr_cells p)
          \<and> (\<forall>i<j. pr_docs p ! (pr_cells p ! i) = length (pr_loaded p) - 1))"

definition order_ok where
  "order_ok p \<longleftrightarrow>
     cells_ok p
     \<and> (\<forall>jb\<in>set (pr_jobs p). pr_docs p ! jo_node jb \<le> pr_docs p ! (pr_cells p ! jo_cell jb))
     \<and> (\<forall>j<length (pr_jobs p). \<forall>i<j. jo_cell (pr_jobs p ! i) = jo_cell (pr_jobs p ! j) \<longrightarrow>
          pr_docs p ! jo_node (pr_jobs p ! i) \<le> pr_docs p ! jo_node (pr_jobs p ! j))"

definition jobs_ok where
  "jobs_ok X p \<longleftrightarrow> (\<forall>jb\<in>set (pr_jobs p). job_ok X p jb) \<and> owners_ok (pr_jobs p)"

text \<open>All of it, for processes whose documents have address lists that a machine can hold.\<close>

definition process_inv where
  "process_inv X p \<longleftrightarrow>
     (\<forall>doc\<in>set (pr_loaded p). doc_ok doc)
     \<and> ((\<forall>doc\<in>set (pr_loaded p). addrs_fit doc) \<longrightarrow> heap_ok X p \<and> jobs_ok X p \<and> order_ok p)"

definition process_started ::
  "('re, 'hm) crates \<Rightarrow> config
   \<Rightarrow> ('re, 'hm, 'b, ('cert, 'key, 'roots) connector, ('cert, 'key, 'roots) reload_world) process \<Rightarrow> bool" where
  "process_started X cfg p \<longleftrightarrow>
     doc_ok cfg \<and>
     (\<exists>Y clk n b now. build_dispatch_bundle X Y clk cfg n = Some b \<and> (\<forall>i j. clk i j \<le> now)
        \<and> p = process_init b cfg now)"

section \<open>Lemmas: pools and nodes\<close>

lemma evolved_step:
  "evolved X clk now u s \<Longrightarrow> pool_step X s s' \<Longrightarrow> po_now s' = po_now s \<Longrightarrow> evolved X clk now u s'"
  unfolding evolved_def by (metis rtranclp.rtrancl_into_rtrancl)

lemma evolved_tick: "evolved X clk now u s \<Longrightarrow> evolved X clk (now + d) u (s\<lparr>po_now := po_now s + d\<rparr>)"
  unfolding evolved_def using pool_step.tick [of X s d] by (auto intro: rtranclp.rtrancl_into_rtrancl)

lemma evolved_fresh:
  "upstream_wf u \<Longrightarrow> (\<And>i. clk i \<le> now) \<Longrightarrow>
   evolved X clk now u \<lparr>po_upstream = u, po_now = now, po_threads = []\<rparr>"
  unfolding evolved_def by (intro conjI exI [of _ "\<lparr>po_upstream = u, po_now = now, po_threads = []\<rparr>"])
    (simp_all add: pool_init_def)

lemma node_ok_tick:
  assumes "node_ok X now cfg n"
  shows "node_ok X (now + d) cfg (node_tick d n)"
proof -
  obtain Y clk disp where disp: "dispatch_from_config X Y clk cfg = Some disp" "no_routes n = d_routes disp"
    and pools: "\<And>nm. rel_option (evolved X clk now) (map_get (d_upstreams disp) nm) (no_pools n nm)"
    using assms by (auto simp: node_ok_def)
  have "rel_option (evolved X clk (now + d)) (map_get (d_upstreams disp) nm) (no_pools (node_tick d n) nm)" for nm
    using pools [of nm] by (auto simp: node_tick_def option.rel_map intro: evolved_tick elim: option.rel_mono_strong)
  with disp show ?thesis unfolding node_ok_def by (intro exI conjI allI) (auto simp: node_tick_def)
qed

lemma node_ok_pool:
  assumes "node_ok X now cfg n" "no_pools n name = Some s" "pool_step X s s'" "po_now s' = po_now s"
  shows "node_ok X now cfg (n\<lparr>no_pools := (no_pools n)(name \<mapsto> s')\<rparr>)"
proof -
  obtain Y clk d where d: "dispatch_from_config X Y clk cfg = Some d" "no_routes n = d_routes d"
    and pools: "\<And>nm. rel_option (evolved X clk now) (map_get (d_upstreams d) nm) (no_pools n nm)"
    using assms(1) by (auto simp: node_ok_def)
  from pools [of name] assms(2-4)
  have "rel_option (evolved X clk now) (map_get (d_upstreams d) name) (Some s')"
    by (auto simp: option_rel_Some2 intro: evolved_step)
  with d pools show ?thesis unfolding node_ok_def by (intro exI conjI) auto
qed

lemma node_ok_new:
  assumes "dispatch_from_config X Y clk cfg = Some d" "addrs_fit cfg" "\<And>i. clk i \<le> now"
  shows "node_ok X now cfg (node_of now d)"
proof -
  have "rel_option (evolved X clk now) (map_get (d_upstreams d) name) (no_pools (node_of now d) name)" for name
    using dispatch_upstream [OF assms(1,2), of name] assms(3)
    by (cases "map_get (d_upstreams d) name") (auto simp: node_of_def intro: evolved_fresh)
  with assms(1) show ?thesis unfolding node_ok_def by (intro exI conjI allI) (auto simp: node_of_def)
qed

lemma put_simps [simp]:
  "pr_now (put_pool a name s p) = pr_now p" "pr_docs (put_pool a name s p) = pr_docs p"
  "pr_loaded (put_pool a name s p) = pr_loaded p" "pr_cells (put_pool a name s p) = pr_cells p"
  "pr_jobs (put_pool a name s p) = pr_jobs p" "pr_reload (put_pool a name s p) = pr_reload p"
  "length (pr_heap (put_pool a name s p)) = length (pr_heap p)" "pr_heap (put_pool a name s p) = [] \<longleftrightarrow> pr_heap p = []"
  "doc_of (put_pool a name s p) b = doc_of p b"
  "pr_now (put_job j jb p) = pr_now p" "pr_docs (put_job j jb p) = pr_docs p"
  "pr_loaded (put_job j jb p) = pr_loaded p" "pr_cells (put_job j jb p) = pr_cells p"
  "pr_jobs (put_job j jb p) = (pr_jobs p)[j := jb]" "pr_reload (put_job j jb p) = pr_reload p"
  "pr_heap (put_job j jb p) = pr_heap p" "doc_of (put_job j jb p) b = doc_of p b"
  by (simp_all add: put_pool_def put_job_def doc_of_def)

lemma put_pool_heap:
  "a < length (pr_heap p) \<Longrightarrow> b < length (pr_heap p) \<Longrightarrow>
   pr_heap (put_pool a name s p) ! b =
     (if b = a then (pr_heap p ! a)\<lparr>no_pools := (no_pools (pr_heap p ! a))(name \<mapsto> s)\<rparr> else pr_heap p ! b)"
  by (simp add: put_pool_def nth_list_update)

lemma put_pool_beyond: "\<not> a < length (pr_heap p) \<Longrightarrow> put_pool a name s p = p"
  by (simp add: put_pool_def list_update_beyond)

lemma heap_ok_pool:
  assumes "heap_ok X p" "a < length (pr_heap p)" "no_pools (pr_heap p ! a) name = Some s"
    "pool_step X s s'" "po_now s' = po_now s"
  shows "heap_ok X (put_pool a name s' p)"
proof -
  have "node_ok X (pr_now p) (doc_of p b) (pr_heap (put_pool a name s' p) ! b)" if "b < length (pr_heap p)" for b
    using that assms node_ok_pool [OF _ assms(3-5), of "pr_now p" "doc_of p a"]
    by (auto simp: put_pool_heap heap_ok_def)
  with assms(1) show ?thesis by (simp add: heap_ok_def)
qed

lemma probe_move_pool: "probe_move s s' \<Longrightarrow> pool_step X s s' \<and> po_now s' = po_now s"
  by (induction rule: probe_move.induct) (auto intro: pool_step.probe_outcome pool_step.probe_update)

lemma probe_move_threads:
  "probe_move s s' \<Longrightarrow> \<exists>k i p. k < length (po_threads s) \<and> po_threads s ! k = ProbeTask i p
     \<and> length (po_threads s') = length (po_threads s)
     \<and> (\<forall>j. j \<noteq> k \<longrightarrow> po_threads s' ! j = po_threads s ! j)"
  by (induction rule: probe_move.induct) (auto intro!: exI)

lemma call_step_keeps:
  assumes "call_step X now answer u c = Some (u', c')" "\<not> ended (ca_stage c)"
  shows "ca_request c' = ca_request c \<and> ca_read_timeout c' = ca_read_timeout c \<and> ca_stage c' \<noteq> Cancelled"
  using assms
  by (auto simp: call_step_def pick_scan_step_def compare_step_def prepare_step_def answer_step_def
      next_attempt_def enter_outcome_def resume_def Let_def
      split: stage.splits option.splits sum.splits prod.splits if_splits retry_decision.splits)

section \<open>Lemmas: requests\<close>

lemma flightD:
  assumes "flight p j = Some (jb, t, s, c)"
  shows "j < length (pr_jobs p)" "pr_jobs p ! j = jb" "jo_progress jb = InFlight" "jo_task jb = Some t"
    "no_pools (pr_heap p ! jo_node jb) (ta_upstream t) = Some s" "ta_thread t < length (po_threads s)"
    "po_threads s ! ta_thread t = Forwarding c"
    "thread_at p (jo_node jb) (ta_upstream t) (ta_thread t) = Some (Forwarding c)"
  using assms
  by (auto simp: flight_def thread_at_def Let_def split: if_splits option.splits thread.splits)

lemma flight_call:
  assumes "flight p j = Some (jb, t, s, c)" "\<not> ended (ca_stage c)"
    "call_step X (po_now s) answer (po_upstream s) c = Some (u', c')"
  shows "pool_step X s (s\<lparr>po_upstream := u', po_threads := (po_threads s)[ta_thread t := Forwarding c']\<rparr>)"
  by (rule pool_step.call [OF flightD(6,7) [OF assms(1)] assms(2,3)])

lemma flight_drop:
  assumes "flight p j = Some (jb, t, s, c)" "awaits (ca_stage c)"
  shows "pool_step X s (drop_call (ta_thread t) c s)"
  unfolding drop_call_def by (rule pool_step.cancel [OF flightD(6,7) [OF assms(1)] assms(2)])

lemma thread_at_put_pool:
  assumes "a < length (pr_heap p)" "b < length (pr_heap p)"
  shows "thread_at (put_pool a name s p) b nm k =
    (if b = a \<and> nm = name then (if k < length (po_threads s) then Some (po_threads s ! k) else None)
     else thread_at p b nm k)"
  using assms by (auto simp: thread_at_def put_pool_heap)

lemma thread_at_put_job [simp]: "thread_at (put_job j jb p) = thread_at p"
  by (simp add: thread_at_def fun_eq_iff)

text \<open>What a request depends on besides its own call.\<close>

definition framed where
  "framed p p' \<longleftrightarrow>
     length (pr_cells p') = length (pr_cells p) \<and> length (pr_heap p) \<le> length (pr_heap p') \<and> pr_now p \<le> pr_now p'
     \<and> (\<forall>a<length (pr_heap p). no_routes (pr_heap p' ! a) = no_routes (pr_heap p ! a)
          \<and> (\<forall>name. no_pools (pr_heap p' ! a) name = None \<longleftrightarrow> no_pools (pr_heap p ! a) name = None))"

lemma job_ok_frame:
  assumes "job_ok X p jb" "framed p p'"
    and "\<And>t. jo_task jb = Some t \<Longrightarrow>
      thread_at p' (jo_node jb) (ta_upstream t) (ta_thread t) = thread_at p (jo_node jb) (ta_upstream t) (ta_thread t)"
  shows "job_ok X p' jb"
proof -
  have "jo_node jb < length (pr_heap p)" using assms(1) by (simp add: job_ok_def)
  with assms(2) have same: "no_routes (pr_heap p' ! jo_node jb) = no_routes (pr_heap p ! jo_node jb)"
    "\<And>name. no_pools (pr_heap p' ! jo_node jb) name = None \<longleftrightarrow> no_pools (pr_heap p ! jo_node jb) name = None"
    and now: "pr_now p \<le> pr_now p'"
    by (auto simp: framed_def)
  show ?thesis
  proof (cases "jo_task jb")
    case None
    with assms(1) have "untasked_ok X p' jb"
      by (auto simp: job_ok_def untasked_ok_def same split: progress.splits option.splits)
    with assms(1,2) None show ?thesis by (auto simp: job_ok_def framed_def)
  next
    case (Some t)
    have "task_ok X p jb t" using assms(1) Some by (simp add: job_ok_def)
    then have "task_ok X p' jb t"
      unfolding task_ok_def same assms(3) [OF Some] using now
      by (elim exE conjE, intro exI conjI) (auto split: progress.splits)
    with assms(1,2) Some show ?thesis by (auto simp: job_ok_def framed_def)
  qed
qed

lemma framed_put_pool:
  "a < length (pr_heap p) \<Longrightarrow> no_pools (pr_heap p ! a) name \<noteq> None \<Longrightarrow> framed p (put_pool a name s p)"
  by (auto simp: framed_def put_pool_heap)

lemma framed_put_job [simp]: "framed p (put_job j jb p') = framed p p'"
  by (simp add: framed_def)

lemma job_ok_put_job [simp]: "job_ok X (put_job j jb p) jb' = job_ok X p jb'"
  by (simp only: job_ok_def untasked_ok_def task_ok_def put_simps thread_at_put_job)

text \<open>A step inside one pool leaves alone the requests that do not own the thread it moves.\<close>

lemma job_ok_pool:
  assumes "job_ok X p jb" "a < length (pr_heap p)" "no_pools (pr_heap p ! a) name = Some s"
    and "length (po_threads s) \<le> length (po_threads s')"
    and "\<And>i. i < length (po_threads s) \<Longrightarrow> i \<noteq> k \<Longrightarrow> po_threads s' ! i = po_threads s ! i"
    and "owner jb \<noteq> Some (a, name, k)"
  shows "job_ok X (put_pool a name s' p) jb"
proof (rule job_ok_frame [OF assms(1)])
  show "framed p (put_pool a name s' p)" using assms(2,3) by (simp add: framed_put_pool)
  fix t assume t: "jo_task jb = Some t"
  then have node: "jo_node jb < length (pr_heap p)"
    and at: "thread_at p (jo_node jb) (ta_upstream t) (ta_thread t) \<noteq> None"
    using assms(1) by (auto simp: job_ok_def task_ok_def)
  show "thread_at (put_pool a name s' p) (jo_node jb) (ta_upstream t) (ta_thread t)
      = thread_at p (jo_node jb) (ta_upstream t) (ta_thread t)"
    unfolding thread_at_put_pool [OF assms(2) node] using at t assms(3-6)
    by (auto simp: thread_at_def owner_def split: if_splits)
qed

lemma owner_other:
  assumes "owners_ok (pr_jobs p)" "flight p j = Some (jb, t, s, c)" "i < length (pr_jobs p)" "i \<noteq> j"
  shows "owner (pr_jobs p ! i) \<noteq> Some (jo_node jb, ta_upstream t, ta_thread t)"
proof
  assume "owner (pr_jobs p ! i) = Some (jo_node jb, ta_upstream t, ta_thread t)"
  moreover have "owner (pr_jobs p ! j) = Some (jo_node jb, ta_upstream t, ta_thread t)"
    using flightD(2,4) [OF assms(2)] by (simp add: owner_def)
  ultimately show False using assms(1,3,4) flightD(1) [OF assms(2)] by (simp add: owners_ok_def)
qed

lemma owners_ok_same:
  "length jbs' = length jbs \<Longrightarrow> (\<And>i. owner (jbs' ! i) = owner (jbs ! i)) \<Longrightarrow> owners_ok jbs' = owners_ok jbs"
  by (simp add: owners_ok_def)

text \<open>A request and its call move together.\<close>

lemma jobs_ok_flight:
  assumes "jobs_ok X p" "flight p j = Some (jb, t, s, c)"
    and c': "ca_request c' = ca_request c" "ca_read_timeout c' = ca_read_timeout c"
    and s': "po_threads s' = (po_threads s)[ta_thread t := Forwarding c']"
    and fits: "case pg of
        Loaded \<Rightarrow> False
      | InFlight \<Rightarrow> ca_stage c' \<noteq> Cancelled
      | Replied r \<Rightarrow> (\<exists>res. ca_stage c' = Returned res \<and> r = reply_of res)
          \<or> (ca_stage c' = Cancelled \<and> r = Inl (Timeout (ta_total t)) \<and> ta_started t + ta_total t \<le> pr_now p)
      | Gone \<Rightarrow> ca_stage c' = Cancelled"
  shows "jobs_ok X (put_job j (jb\<lparr>jo_progress := pg\<rparr>) (put_pool (jo_node jb) (ta_upstream t) s' p))"
proof -
  note fl = flightD [OF assms(2)]
  let ?a = "jo_node jb" and ?n = "ta_upstream t" and ?k = "ta_thread t"
  let ?p = "put_pool ?a ?n s' p" and ?jb = "jb\<lparr>jo_progress := pg\<rparr>"
  have mine: "job_ok X p jb" using assms(1) fl(1,2) nth_mem by (force simp: jobs_ok_def)
  then have node: "?a < length (pr_heap p)" by (simp add: job_ok_def)
  have others: "job_ok X ?p (pr_jobs p ! i)" if "i < length (pr_jobs p)" "i \<noteq> j" for i
  proof (rule job_ok_pool [OF _ node fl(5), where k = ?k])
    show "job_ok X p (pr_jobs p ! i)" using assms(1) that(1) by (simp add: jobs_ok_def)
    show "owner (pr_jobs p ! i) \<noteq> Some (?a, ?n, ?k)"
      using owner_other [OF _ assms(2) that] assms(1) by (simp add: jobs_ok_def)
  qed (simp_all add: s')
  have "job_ok X ?p ?jb"
  proof -
    have "framed p ?p" using node fl(5) by (simp add: framed_put_pool)
    moreover have "task_ok X p jb t" using mine fl(4) by (simp add: job_ok_def)
    moreover have "thread_at ?p ?a ?n ?k = Some (Forwarding c')"
      using fl(6) by (simp add: thread_at_put_pool [OF node node] s')
    ultimately have "task_ok X ?p ?jb t"
      using fl(8) c' fits node unfolding task_ok_def framed_def by (cases pg) auto
    with mine fl(4) show ?thesis by (simp add: job_ok_def)
  qed
  with others have "job_ok X ?p ((pr_jobs p)[j := ?jb] ! i)" if "i < length (pr_jobs p)" for i
    using that by (cases "i = j") simp_all
  then have "\<forall>jb'\<in>set ((pr_jobs p)[j := ?jb]). job_ok X ?p jb'" by (auto simp: in_set_conv_nth)
  moreover have "owner ?jb = owner (pr_jobs p ! j)" using fl(2) by (simp add: owner_def)
  then have "owner ((pr_jobs p)[j := ?jb] ! i) = owner (pr_jobs p ! i)" for i
    using fl(1) by (cases "i = j") simp_all
  then have "owners_ok ((pr_jobs p)[j := ?jb]) = owners_ok (pr_jobs p)" by (intro owners_ok_same) simp_all
  ultimately show ?thesis using assms(1) by (simp add: jobs_ok_def)
qed

lemma jobs_ok_pool:
  assumes "jobs_ok X p" "a < length (pr_heap p)" "no_pools (pr_heap p ! a) name = Some s"
    and "length (po_threads s) \<le> length (po_threads s')"
    and "\<And>i. i < length (po_threads s) \<Longrightarrow> i \<noteq> k \<Longrightarrow> po_threads s' ! i = po_threads s ! i"
    and "\<forall>c. thread_at p a name k \<noteq> Some (Forwarding c)"
  shows "jobs_ok X (put_pool a name s' p)"
proof -
  have "job_ok X (put_pool a name s' p) jb" if "jb \<in> set (pr_jobs p)" for jb
  proof (rule job_ok_pool [OF _ assms(2-5)])
    show ok: "job_ok X p jb" using assms(1) that by (simp add: jobs_ok_def)
    show "owner jb \<noteq> Some (a, name, k)"
      using ok assms(6) by (auto simp: owner_def job_ok_def task_ok_def)
  qed
  with assms(1) show ?thesis by (simp add: jobs_ok_def)
qed

text \<open>Changing a request that has no call yet.\<close>

lemma jobs_ok_put_job:
  assumes "jobs_ok X p" "j < length (pr_jobs p)" "job_ok X p jb"
    and "\<And>i. i < length (pr_jobs p) \<Longrightarrow> i \<noteq> j \<Longrightarrow> owner jb \<noteq> None \<Longrightarrow> owner (pr_jobs p ! i) \<noteq> owner jb"
  shows "jobs_ok X (put_job j jb p)"
proof -
  have "owners_ok ((pr_jobs p)[j := jb])"
    using assms(1,2,4) unfolding jobs_ok_def owners_ok_def by (simp add: nth_list_update) metis
  with assms(1,3) show ?thesis by (auto simp: jobs_ok_def dest!: set_update_subset_insert [THEN subsetD])
qed

lemma jobs_ok_frame:
  assumes "jobs_ok X p" "framed p p'" "pr_jobs p' = pr_jobs p"
    and "\<And>a name k. a < length (pr_heap p) \<Longrightarrow> thread_at p' a name k = thread_at p a name k"
  shows "jobs_ok X p'"
proof -
  have "job_ok X p' jb" if "jb \<in> set (pr_jobs p)" for jb
  proof (rule job_ok_frame [OF _ assms(2)])
    show ok: "job_ok X p jb" using assms(1) that by (simp add: jobs_ok_def)
    then show "thread_at p' (jo_node jb) (ta_upstream t) (ta_thread t)
        = thread_at p (jo_node jb) (ta_upstream t) (ta_thread t)" for t
      by (simp add: assms(4) job_ok_def)
  qed
  with assms(1,3) show ?thesis by (simp add: jobs_ok_def)
qed

section \<open>Lemmas: the process\<close>

lemma job_node: "jobs_ok X p \<Longrightarrow> j < length (pr_jobs p) \<Longrightarrow> jo_node (pr_jobs p ! j) < length (pr_heap p)"
  by (simp add: jobs_ok_def job_ok_def)

lemma flight_node: "jobs_ok X p \<Longrightarrow> flight p j = Some (jb, t, s, c) \<Longrightarrow> jo_node jb < length (pr_heap p)"
  using job_node [of X p j] flightD(1,2) [of p j jb t s c] by simp

lemma heap_ok_put_job [simp]: "heap_ok X (put_job j jb p) = heap_ok X p"
  by (simp add: heap_ok_def)

lemma heap_ok_store:
  assumes "heap_ok X p" "order_ok p" "pr_reload p = Some (cfg, w, j)" "\<forall>i. rw_clk w j i \<le> pr_now p"
    and "dispatch_from_config X (rw_tls w) (rw_clk w j) cfg = Some d" "\<forall>doc\<in>set (pr_loaded p). addrs_fit doc"
  shows "heap_ok X (p\<lparr>pr_heap := pr_heap p @ [node_of (pr_now p) d], pr_docs := pr_docs p @ [length (pr_loaded p) - 1],
           pr_cells := (pr_cells p)[j := length (pr_heap p)], pr_reload := Some (cfg, w, Suc j)\<rparr>)"
    (is "heap_ok X ?p")
proof -
  have last: "pr_loaded p ! (length (pr_loaded p) - 1) = cfg" and "cfg \<in> set (pr_loaded p)"
    using assms(1-3) by (auto simp: order_ok_def cells_ok_def heap_ok_def last_conv_nth)
  then have "node_ok X (pr_now p) cfg (node_of (pr_now p) d)"
    using node_ok_new [OF assms(5)] assms(4,6) by auto
  moreover have "doc_of ?p a = (if a = length (pr_heap p) then cfg else doc_of p a)"
    if "a \<le> length (pr_heap p)" for a
    using that assms(1) last by (simp add: doc_of_def heap_ok_def nth_append)
  ultimately show ?thesis
    using assms(1)
    by (auto simp: heap_ok_def nth_append less_Suc_eq dest!: set_update_subset_insert [THEN subsetD])
qed

lemma heap_ok_step:
  assumes "heap_ok X p" "jobs_ok X p" "order_ok p" "process_step X from_str path p p'"
    and "\<forall>doc\<in>set (pr_loaded p'). addrs_fit doc"
  shows "heap_ok X p'"
  using assms(4)
proof cases
  case (time_passes d)
  have "node_ok X (pr_now p + d) (doc_of p a) (node_tick d (pr_heap p ! a))" if "a < length (pr_heap p)" for a
    using assms(1) that by (auto simp: heap_ok_def intro: node_ok_tick)
  with assms(1) time_passes show ?thesis by (simp add: heap_ok_def doc_of_def)
next
  case (dispatched j jb route s)
  then have "jo_node jb < length (pr_heap p)" using job_node [OF assms(2), of j] by simp
  from heap_ok_pool [OF assms(1) this dispatched(6) pool_step.arrive] show ?thesis
    unfolding dispatched(1) by simp
next
  case (forwarded j jb t s c answer u' c')
  from heap_ok_pool [OF assms(1) flight_node [OF assms(2) forwarded(2)] flightD(5) [OF forwarded(2)]
      flight_call [OF forwarded(2-4)]]
  show ?thesis unfolding forwarded(1) by simp
next
  case (timed_out j jb t s c)
  from heap_ok_pool [OF assms(1) flight_node [OF assms(2) timed_out(2)] flightD(5) [OF timed_out(2)]
      flight_drop [OF timed_out(2,3)]]
  show ?thesis unfolding timed_out(1) by (simp add: drop_call_def)
next
  case (disconnected j jb t s c)
  from heap_ok_pool [OF assms(1) flight_node [OF assms(2) disconnected(2)] flightD(5) [OF disconnected(2)]
      flight_drop [OF disconnected(2,3)]]
  show ?thesis unfolding disconnected(1) by (simp add: drop_call_def)
next
  case (probe_spawned uc s i)
  have "0 < length (pr_heap p)" using assms(1) by (simp add: heap_ok_def)
  from heap_ok_pool [OF assms(1) this probe_spawned(4) pool_step.probe_task [OF probe_spawned(5)]]
  show ?thesis unfolding probe_spawned(1) by simp
next
  case (probed a name s s')
  from heap_ok_pool [OF assms(1) probed(2,3)] probe_move_pool [OF probed(4), of X] show ?thesis
    unfolding probed(1) by simp
next
  case (sighup_loaded w cfg)
  have "doc_of p' a = doc_of p a" if "a < length (pr_heap p)" for a
    using assms(1) that sighup_loaded(1) by (auto simp: doc_of_def heap_ok_def nth_append)
  with assms(1) sighup_loaded(1) show ?thesis by (auto simp: heap_ok_def less_Suc_eq)
next
  case (store_cell cfg w j d)
  show ?thesis unfolding store_cell(1)
    by (rule heap_ok_store [OF assms(1,3) store_cell(2,4,5)]) (use assms(5) store_cell(1) in simp)
qed (use assms(1) in \<open>auto simp: heap_ok_def doc_of_def\<close>)

lemma owners_ok_snoc: "owners_ok jbs \<Longrightarrow> owner jb = None \<Longrightarrow> owners_ok (jbs @ [jb])"
  unfolding owners_ok_def by (simp add: nth_append less_Suc_eq) metis

lemma job_ok_put_jobs [simp]: "job_ok X (p\<lparr>pr_jobs := jbs\<rparr>) jb = job_ok X p jb"
  by (cases p) (simp only: job_ok_def untasked_ok_def task_ok_def thread_at_def process.simps)

lemma put_job_same: "pr_jobs p ! j = jb \<Longrightarrow> put_job j jb p = p"
  by (auto simp: put_job_def)

lemma job_progress_same: "jo_progress jb = pg \<Longrightarrow> jb\<lparr>jo_progress := pg\<rparr> = jb"
  by (cases jb) simp

lemma thread_at_beyond: "no_pools (pr_heap p ! a) name = Some s \<Longrightarrow> thread_at p a name (length (po_threads s)) = None"
  by (simp add: thread_at_def)

lemma jobs_ok_dispatched:
  assumes "jobs_ok X p" "j < length (pr_jobs p)" "pr_jobs p ! j = jb" "jo_progress jb = Loaded"
    and "find_route X (no_routes (pr_heap p ! jo_node jb)) (jo_request jb) = Some route"
    and "no_pools (pr_heap p ! jo_node jb) (r_upstream route) = Some s"
    and "t = \<lparr>ta_upstream = r_upstream route, ta_thread = length (po_threads s),
              ta_total = r_total_timeout route, ta_started = pr_now p\<rparr>"
    and "s' = s\<lparr>po_threads := po_threads s
           @ [Forwarding (call_new (po_upstream s) (jo_request jb) (r_read_timeout route))]\<rparr>"
  shows "jobs_ok X (put_job j (jb\<lparr>jo_task := Some t, jo_progress := InFlight\<rparr>)
           (put_pool (jo_node jb) (r_upstream route) s' p))"
proof -
  let ?a = "jo_node jb" and ?n = "r_upstream route" and ?k = "length (po_threads s)"
  let ?p = "put_pool ?a ?n s' p" and ?jb = "jb\<lparr>jo_task := Some t, jo_progress := InFlight\<rparr>"
  have node: "?a < length (pr_heap p)" using job_node [OF assms(1,2)] assms(3) by simp
  have ok: "jobs_ok X ?p"
    by (rule jobs_ok_pool [OF assms(1) node assms(6), where k = ?k])
      (simp_all add: assms(6,8) nth_append thread_at_beyond)
  have "job_ok X p jb" using assms(1-3) by (auto simp: jobs_ok_def)
  moreover have "task_ok X ?p ?jb t"
    using node assms(5) unfolding task_ok_def
    by (intro exI [of _ route]
        exI [of _ "call_new (po_upstream s) (jo_request jb) (r_read_timeout route)"])
      (simp add: assms(7,8) put_pool_heap thread_at_put_pool call_new_def)
  ultimately have mine: "job_ok X ?p ?jb" by (simp add: job_ok_def)
  have fresh: "owner (pr_jobs p ! i) \<noteq> owner ?jb" if "i < length (pr_jobs p)" for i
  proof
    assume "owner (pr_jobs p ! i) = owner ?jb"
    moreover have "job_ok X p (pr_jobs p ! i)" using assms(1) that by (simp add: jobs_ok_def)
    ultimately have "thread_at p ?a ?n ?k \<noteq> None"
      using assms(7) by (auto simp: owner_def job_ok_def task_ok_def)
    with assms(6) show False by (simp add: thread_at_beyond)
  qed
  show ?thesis by (rule jobs_ok_put_job [OF ok _ mine]) (use assms(2) fresh in simp_all)
qed

lemma jobs_ok_answered:
  assumes "jobs_ok X p" "j < length (pr_jobs p)" "pr_jobs p ! j = jb" "jo_progress jb = Loaded"
    and "untasked_ok X p (jb\<lparr>jo_progress := Replied r\<rparr>)"
  shows "jobs_ok X (put_job j (jb\<lparr>jo_progress := Replied r\<rparr>) p)"
proof -
  have jb: "job_ok X p jb" using assms(1-3) by (auto simp: jobs_ok_def)
  then have "jo_task jb = None" using assms(4) by (auto simp: job_ok_def task_ok_def split: option.splits)
  with jb assms(5) have "job_ok X p (jb\<lparr>jo_progress := Replied r\<rparr>)" "owner (jb\<lparr>jo_progress := Replied r\<rparr>) = None"
    by (simp_all add: job_ok_def owner_def)
  then show ?thesis by (intro jobs_ok_put_job [OF assms(1,2)]) simp_all
qed

lemma jobs_ok_forwarded:
  assumes "jobs_ok X p" "flight p j = Some (jb, t, s, c)" "\<not> ended (ca_stage c)"
    and "call_step X now answer (po_upstream s) c = Some (u', c')"
  shows "jobs_ok X (put_pool (jo_node jb) (ta_upstream t)
           (s\<lparr>po_upstream := u', po_threads := (po_threads s)[ta_thread t := Forwarding c']\<rparr>) p)"
    (is "jobs_ok X ?p")
proof -
  have "put_job j (jb\<lparr>jo_progress := InFlight\<rparr>) ?p = ?p"
    using flightD(2,3) [OF assms(2)] by (simp add: job_progress_same put_job_same)
  with jobs_ok_flight [OF assms(1,2), of c'
      "s\<lparr>po_upstream := u', po_threads := (po_threads s)[ta_thread t := Forwarding c']\<rparr>" InFlight]
    call_step_keeps [OF assms(4,3)]
  show ?thesis by simp
qed

lemma jobs_ok_finished:
  assumes "jobs_ok X p" "flight p j = Some (jb, t, s, c)" "ca_stage c = Returned res"
  shows "jobs_ok X (put_job j (jb\<lparr>jo_progress := Replied (reply_of res)\<rparr>) p)"
proof -
  let ?s = "s\<lparr>po_threads := (po_threads s)[ta_thread t := Forwarding c]\<rparr>"
  have "?s = s" using flightD(7) [OF assms(2)] by (metis list_update_id pool_sys.surjective pool_sys.update_convs(3))
  then have "put_pool (jo_node jb) (ta_upstream t) ?s p = p"
    using flightD(5) [OF assms(2)] by (simp add: put_pool_def map_upd_triv)
  with jobs_ok_flight [OF assms(1,2), of c ?s "Replied (reply_of res)"] assms(3) show ?thesis by simp
qed

lemma jobs_ok_step:
  assumes "heap_ok X p" "jobs_ok X p" "process_step X from_str path p p'"
  shows "jobs_ok X p'"
  using assms(3)
proof cases
  case (time_passes d)
  show ?thesis
    by (rule jobs_ok_frame [OF assms(2)])
      (auto simp: time_passes(1) framed_def thread_at_def node_tick_def split: option.split)
next
  case (load_full c req)
  let ?jb = "\<lparr>jo_cell = c, jo_node = pr_cells p ! c, jo_request = req, jo_task = None, jo_progress = Loaded\<rparr>"
  have "job_ok X p ?jb" using assms(1) load_full(2) by (simp add: job_ok_def untasked_ok_def heap_ok_def)
  moreover have "owners_ok (pr_jobs p @ [?jb])"
    using assms(2) by (intro owners_ok_snoc) (simp_all add: jobs_ok_def owner_def)
  ultimately show ?thesis using assms(2) unfolding load_full(1) by (simp add: jobs_ok_def)
next
  case (no_route j jb)
  then show ?thesis using jobs_ok_answered [OF assms(2) no_route(2-4)] by (simp add: untasked_ok_def)
next
  case (not_registered j jb route)
  then show ?thesis using jobs_ok_answered [OF assms(2) not_registered(2-4)] by (simp add: untasked_ok_def)
next
  case (dispatched j jb route s)
  show ?thesis unfolding dispatched(1) by (rule jobs_ok_dispatched [OF assms(2) dispatched(2-6)]) simp_all
next
  case (forwarded j jb t s c answer u' c')
  show ?thesis unfolding forwarded(1) by (rule jobs_ok_forwarded [OF assms(2) forwarded(2-4)])
next
  case (finished j jb t s c res)
  show ?thesis unfolding finished(1) by (rule jobs_ok_finished [OF assms(2) finished(2,3)])
next
  case (timed_out j jb t s c)
  with jobs_ok_flight [OF assms(2) timed_out(2), of "c\<lparr>ca_stage := Cancelled\<rparr>" "drop_call (ta_thread t) c s"]
  show ?thesis by (simp add: drop_call_def)
next
  case (disconnected j jb t s c)
  with jobs_ok_flight [OF assms(2) disconnected(2), of "c\<lparr>ca_stage := Cancelled\<rparr>" "drop_call (ta_thread t) c s" Gone]
  show ?thesis by (simp add: drop_call_def)
next
  case (probe_spawned uc s i)
  have "0 < length (pr_heap p)" using assms(1) by (simp add: heap_ok_def)
  then show ?thesis unfolding probe_spawned(1)
    by (rule jobs_ok_pool [OF assms(2) _ probe_spawned(4), where k = "length (po_threads s)"])
      (simp_all add: nth_append probe_spawned(4) thread_at_beyond)
next
  case (probed a name s s')
  obtain k i pc where k: "k < length (po_threads s)" "po_threads s ! k = ProbeTask i pc"
    "length (po_threads s') = length (po_threads s)" "\<forall>j. j \<noteq> k \<longrightarrow> po_threads s' ! j = po_threads s ! j"
    using probe_move_threads [OF probed(4)] by blast
  show ?thesis unfolding probed(1)
    by (rule jobs_ok_pool [OF assms(2) probed(2,3), where k = k]) (use k probed(3) in \<open>auto simp: thread_at_def\<close>)
next
  case (store_cell cfg w j d)
  show ?thesis
    by (rule jobs_ok_frame [OF assms(2)]) (auto simp: store_cell(1) framed_def thread_at_def nth_append)
qed (use assms(2) in \<open>auto intro!: jobs_ok_frame [OF assms(2)] simp: framed_def thread_at_def\<close>)

text \<open>The order of the documents.\<close>

lemma order_ok_same:
  assumes "pr_reload p' = pr_reload p" "pr_cells p' = pr_cells p" "pr_docs p' = pr_docs p"
    "pr_loaded p' = pr_loaded p" "map jo_cell (pr_jobs p') = map jo_cell (pr_jobs p)"
    "map jo_node (pr_jobs p') = map jo_node (pr_jobs p)"
  shows "order_ok p' = order_ok p"
proof -
  have len: "length (pr_jobs p') = length (pr_jobs p)" using assms(5) by (metis length_map)
  have "jo_cell (pr_jobs p' ! i) = jo_cell (pr_jobs p ! i)" "jo_node (pr_jobs p' ! i) = jo_node (pr_jobs p ! i)"
    if "i < length (pr_jobs p)" for i
    using that assms(5,6) len by (metis nth_map)+
  then show ?thesis
    unfolding order_ok_def cells_ok_def all_set_conv_all_nth len assms(1-4) by simp
qed

lemma order_ok_put_job:
  assumes "jo_cell jb = jo_cell (pr_jobs p ! j)" "jo_node jb = jo_node (pr_jobs p ! j)"
  shows "order_ok (put_job j jb p) = order_ok p"
proof -
  have "map f ((pr_jobs p)[j := jb]) = map f (pr_jobs p)" if "f jb = f (pr_jobs p ! j)" for f :: "_ \<Rightarrow> nat"
    using that by (metis list_update_id map_update)
  with assms show ?thesis by (intro order_ok_same) simp_all
qed

lemma order_ok_put_pool [simp]: "order_ok (put_pool a name s p) = order_ok p"
  by (rule order_ok_same) simp_all

lemma order_ok_store:
  assumes "heap_ok X p" "jobs_ok X p" "order_ok p" "pr_reload p = Some (cfg, w, j)" "j < length (pr_cells p)"
  shows "order_ok (p\<lparr>pr_heap := pr_heap p @ [n], pr_docs := pr_docs p @ [length (pr_loaded p) - 1],
           pr_cells := (pr_cells p)[j := length (pr_heap p)], pr_reload := Some (cfg, w, Suc j)\<rparr>)"
proof -
  let ?m = "length (pr_loaded p) - 1" and ?h = "length (pr_heap p)"
  let ?docs = "pr_docs p @ [?m]" and ?cells = "(pr_cells p)[j := ?h]"
  have len: "length (pr_docs p) = ?h" using assms(1) by (simp add: heap_ok_def)
  have old: "?docs ! a = pr_docs p ! a" "pr_docs p ! a \<le> ?m" if "a < ?h" for a
  proof -
    show "?docs ! a = pr_docs p ! a" using that len by (simp add: nth_append)
    have "pr_docs p ! a < length (pr_loaded p)" using assms(1) that len by (simp add: heap_ok_def)
    then show "pr_docs p ! a \<le> ?m" by linarith
  qed
  have cell: "?docs ! (?cells ! i) = (if i = j then ?m else pr_docs p ! (pr_cells p ! i))"
    if "i < length (pr_cells p)" for i
    using that assms(1) old(1) by (auto simp: heap_ok_def nth_append len)
  have node: "jo_node jb < ?h" "jo_cell jb < length (pr_cells p)" if "jb \<in> set (pr_jobs p)" for jb
    using assms(2) that by (simp_all add: jobs_ok_def job_ok_def)
  have "?docs ! jo_node jb \<le> ?docs ! (?cells ! jo_cell jb)" if "jb \<in> set (pr_jobs p)" for jb
    unfolding cell [OF node(2) [OF that]] old(1) [OF node(1) [OF that]]
    using assms(3) that old(2) [OF node(1) [OF that]] by (simp add: order_ok_def)
  moreover have "?docs ! (?cells ! i) = ?m" if "i < Suc j" for i
  proof -
    have "i < length (pr_cells p)" using that assms(5) by linarith
    from cell [OF this] that assms(3,4) show ?thesis by (simp add: order_ok_def cells_ok_def)
  qed
  ultimately show ?thesis
    using assms(3-5) old(1) [OF node(1) [OF nth_mem]] by (simp add: order_ok_def cells_ok_def)
qed

lemma order_ok_step:
  assumes "heap_ok X p" "jobs_ok X p" "order_ok p" "process_step X from_str path p p'"
  shows "order_ok p'"
  using assms(4)
proof cases
  case (time_passes d)
  have "order_ok p' = order_ok p" unfolding time_passes(1) by (rule order_ok_same) simp_all
  with assms(3) show ?thesis by simp
next
  case (load_full c req)
  have "pr_docs p ! jo_node (pr_jobs p ! i) \<le> pr_docs p ! (pr_cells p ! jo_cell (pr_jobs p ! i))"
    if "i < length (pr_jobs p)" for i
    using assms(3) that by (simp add: order_ok_def)
  moreover have "cells_ok p' = cells_ok p"
    unfolding load_full(1) by (cases p) (simp only: cells_ok_def process.simps)
  ultimately show ?thesis using assms(3) load_full(1) by (auto simp: order_ok_def nth_append less_Suc_eq)
next
  case (dispatched j jb route s)
  with assms(3) show ?thesis by (simp add: order_ok_put_job)
next
  case (forwarded j jb t s c answer u' c')
  with assms(3) show ?thesis by simp
next
  case (sighup_loaded w cfg)
  with assms(3) show ?thesis by (simp add: order_ok_def cells_ok_def)
next
  case (store_cell cfg w j d)
  show ?thesis unfolding store_cell(1) by (rule order_ok_store [OF assms(1-3) store_cell(2,3)])
next
  case (reloaded cfg w j)
  with assms(3) show ?thesis by (auto simp: order_ok_def cells_ok_def in_set_conv_nth)
qed (use assms(3) in \<open>simp_all add: order_ok_put_job flightD(2)\<close>)

lemma process_loaded:
  fixes p :: "('re, 'hm, 'b, ('cert, 'key, 'roots) connector, ('cert, 'key, 'roots) reload_world) process"
  assumes "process_step X from_str path p p'"
  shows "\<exists>new. pr_loaded p' = pr_loaded p @ new
    \<and> (\<forall>doc\<in>set new. \<exists>w :: ('cert, 'key, 'roots) reload_world. loads from_str path w = Some doc)"
  using assms by cases auto

lemma process_inv_step:
  fixes p :: "('re, 'hm, 'b, ('cert, 'key, 'roots) connector, ('cert, 'key, 'roots) reload_world) process"
  assumes "process_inv X p" "process_step X from_str path p p'"
  shows "process_inv X p'"
proof -
  obtain new where new: "pr_loaded p' = pr_loaded p @ new"
    "\<forall>doc\<in>set new. \<exists>w :: ('cert, 'key, 'roots) reload_world. loads from_str path w = Some doc"
    using process_loaded [OF assms(2)] by blast
  have "doc_ok doc" if "doc \<in> set new" for doc
    using that new(2) load_config_valid by (fastforce simp: doc_ok_def loads_iff)
  then show ?thesis
    using assms(1) new(1) heap_ok_step [OF _ _ _ assms(2)] jobs_ok_step [OF _ _ assms(2)] order_ok_step [OF _ _ _ assms(2)]
    by (auto simp: process_inv_def)
qed

lemma process_started_inv:
  assumes "process_started X cfg p"
  shows "process_inv X p"
proof -
  obtain Y clk n b now where b: "build_dispatch_bundle X Y clk cfg n = Some b" "\<forall>i j. clk i j \<le> now"
    and p: "p = process_init b cfg now" and doc: "doc_ok cfg"
    using assms by (auto simp: process_started_def)
  let ?ds = "db_primary b # db_http_workers b"
  obtain ds where ds: "build_dispatches X Y clk cfg 1 n = Some ds" "db_http_workers b = ds"
    and primary: "dispatch_from_config X Y (clk 0) cfg = Some (db_primary b)"
    using b(1) by (auto simp: build_dispatch_bundle_def split: option.splits)
  have "\<exists>i. dispatch_from_config X Y (clk i) cfg = Some d" if "d \<in> set ?ds" for d
    using that primary build_dispatches_nth [OF ds(1)] ds(2) by (auto simp: in_set_conv_nth)
  then have "node_ok X now cfg (node_of now d)" if "addrs_fit cfg" "d \<in> set ?ds" for d
    using that node_ok_new [OF _ that(1)] b(2) by blast
  then have "\<forall>a<length ?ds. node_ok X now cfg (node_of now (?ds ! a))" if "addrs_fit cfg"
    using that nth_mem by blast
  with doc show ?thesis
    unfolding process_inv_def heap_ok_def jobs_ok_def owners_ok_def order_ok_def cells_ok_def doc_of_def p
      process_init_def Let_def
    by (auto simp del: list.map nth_Cons_Suc upt_Suc list.size) simp_all
qed

interpretation whole: inductive_invariant "process_started X cfg" "process_step X from_str path" "process_inv X"
  by unfold_locales (blast intro: process_started_inv process_inv_step)+

section \<open>Lemmas: probes\<close>

text \<open>Probe tasks run on the dispatcher the process started with, and on no other.\<close>

definition probes_ok where
  "probes_ok p \<longleftrightarrow>
     pr_heap p \<noteq> [] \<and>
     (\<forall>a<length (pr_heap p). 0 < a \<longrightarrow>
        (\<forall>name s. no_pools (pr_heap p ! a) name = Some s \<longrightarrow> (\<forall>t\<in>set (po_threads s). \<exists>c. t = Forwarding c)))"

lemma probes_ok_pool:
  assumes "probes_ok p" "no_pools (pr_heap p ! a) name = Some s" "a < length (pr_heap p)"
    and "a = 0 \<or> (\<forall>t\<in>set (po_threads s'). t \<in> set (po_threads s) \<or> (\<exists>c. t = Forwarding c))"
  shows "probes_ok (put_pool a name s' p)"
  using assms unfolding probes_ok_def by (fastforce simp: put_pool_heap split: if_splits)

lemma probes_ok_flight:
  assumes "probes_ok p" "flight p j = Some (jb, t, s, c)" "po_threads s' = (po_threads s)[ta_thread t := Forwarding c']"
  shows "probes_ok (put_pool (jo_node jb) (ta_upstream t) s' p)"
proof (cases "jo_node jb < length (pr_heap p)")
  case True
  show ?thesis
    by (rule probes_ok_pool [OF assms(1) flightD(5) [OF assms(2)] True])
      (auto simp: assms(3) dest!: set_update_subset_insert [THEN subsetD])
next
  case False
  with assms(1) show ?thesis by (simp add: put_pool_beyond)
qed

lemma probes_ok_put_job [simp]: "probes_ok (put_job j jb p) = probes_ok p"
  by (simp add: probes_ok_def)

lemma probes_ok_step:
  assumes "probes_ok p" "process_step X from_str path p p'"
  shows "probes_ok p'"
  using assms(2)
proof cases
  case (time_passes d)
  with assms(1) show ?thesis by (fastforce simp: probes_ok_def node_tick_def)
next
  case (dispatched j jb route s)
  show ?thesis
  proof (cases "jo_node jb < length (pr_heap p)")
    case True
    with probes_ok_pool [OF assms(1) dispatched(6)] show ?thesis unfolding dispatched(1) by simp
  next
    case False
    with assms(1) show ?thesis unfolding dispatched(1) by (simp add: put_pool_beyond)
  qed
next
  case (forwarded j jb t s c answer u' c')
  with probes_ok_flight [OF assms(1) forwarded(2)] show ?thesis by simp
next
  case (timed_out j jb t s c)
  with probes_ok_flight [OF assms(1) timed_out(2)] show ?thesis by (simp add: drop_call_def)
next
  case (disconnected j jb t s c)
  with probes_ok_flight [OF assms(1) disconnected(2)] show ?thesis by (simp add: drop_call_def)
next
  case (probe_spawned uc s i)
  with probes_ok_pool [OF assms(1) probe_spawned(4)] assms(1) show ?thesis by (simp add: probes_ok_def)
next
  case (probed a name s s')
  obtain k i pc where k: "k < length (po_threads s)" "po_threads s ! k = ProbeTask i pc"
    using probe_move_threads [OF probed(4)] by blast
  have "a = 0"
  proof (rule ccontr)
    assume "a \<noteq> 0"
    then obtain c where "po_threads s ! k = Forwarding c"
      using assms(1) probed(2,3) nth_mem [OF k(1)] unfolding probes_ok_def by blast
    with k(2) show False by simp
  qed
  with probes_ok_pool [OF assms(1) probed(3,2)] show ?thesis unfolding probed(1) by blast
next
  case (store_cell cfg w j d)
  with assms(1) show ?thesis
    by (auto simp: probes_ok_def nth_append less_Suc_eq node_of_def)
qed (use assms(1) in \<open>simp_all add: probes_ok_def\<close>)

lemma process_started_probes_ok: "process_started X cfg p \<Longrightarrow> probes_ok p"
  by (auto simp: process_started_def probes_ok_def process_init_def node_of_def Let_def nth_Cons split: nat.splits)

interpretation probing: inductive_invariant "process_started X cfg" "process_step X from_str path" probes_ok
  by unfold_locales (blast intro: process_started_probes_ok probes_ok_step)+

end
