(* ===== verification/Conduit_Plane.thy ===== *)
theory Conduit_Plane
  imports Conduit_Process
begin

text \<open>
  What the data plane of \<open>Conduit_Process\<close> guarantees in every state it can reach: where requests
  go and what clients are told, that requests complete and are handled as the sequential
  \<open>Dispatch::handle\<close> handles them, that every breaker is sound, and where probes act.
\<close>

section \<open>Lemmas: what a reachable process guarantees\<close>

text \<open>A pool of a node, with the upstream of the document it stems from.\<close>

lemma node_pool:
  assumes "node_ok X now doc n" "no_pools n name = Some s" "addrs_fit doc"
  obtains Y clk uc u s0 where "uc \<in> set (cf_upstreams doc)" "uc_name uc = name"
    "upstream_from_config X Y clk uc = Some (Inr u)" "length (uc_addrs uc) < 2 ^ 64" "u_addrs u = uc_addrs uc"
    "u_retry u = retry_default" "pool_init u s0" "\<forall>i. clk i \<le> po_now s0" "(pool_step X)\<^sup>*\<^sup>* s0 s" "pool_inv X u s"
proof -
  obtain Y clk d where d: "dispatch_from_config X Y clk doc = Some d"
    and "rel_option (evolved X clk now) (map_get (d_upstreams d) name) (no_pools n name)"
    using assms(1) by (auto simp: node_ok_def)
  then obtain u where u: "map_get (d_upstreams d) name = Some u" "evolved X clk now u s"
    using assms(2) by (auto simp: option_rel_Some2)
  then obtain s0 where run: "pool_init u s0" "\<forall>i. clk i \<le> po_now s0" "(pool_step X)\<^sup>*\<^sup>* s0 s"
    by (auto simp: evolved_def)
  obtain uc where uc: "uc \<in> set (cf_upstreams doc)" "uc_name uc = name" "upstream_from_config X Y clk uc = Some (Inr u)"
    using dispatch_built [OF d u(1)] by blast
  have "length (uc_addrs uc) < 2 ^ 64" using assms(3) uc(1) by (simp add: addrs_fit_def)
  moreover from with_tls_wf [OF uc(3) [unfolded upstream_from_config_def] this]
  have "u_addrs u = uc_addrs uc" "u_retry u = retry_default" by simp_all
  ultimately show thesis using that uc run pool.reachable_inv [OF run(1,3)] by blast
qed

lemma node_now:
  assumes "node_ok X now doc n" "no_pools n name = Some s"
  shows "po_now s = now"
proof -
  obtain Y clk d where "dispatch_from_config X Y clk doc = Some d"
    and "rel_option (evolved X clk now) (map_get (d_upstreams d) name) (no_pools n name)"
    using assms(1) by (auto simp: node_ok_def)
  with assms(2) show ?thesis by (auto simp: option_rel_Some2 evolved_def)
qed

lemma reachable_parts:
  assumes "process_started X cfg0 p0" "(process_step X from_str path)\<^sup>*\<^sup>* p0 p" "\<forall>doc\<in>set (pr_loaded p). addrs_fit doc"
  shows "heap_ok X p" "jobs_ok X p" "order_ok p" "\<And>doc. doc \<in> set (pr_loaded p) \<Longrightarrow> doc_ok doc"
  using whole.reachable_inv [OF assms(1,2)] assms(3) by (auto simp: process_inv_def)

lemma heap_node:
  assumes "heap_ok X p" "a < length (pr_heap p)"
  shows "doc_of p a \<in> set (pr_loaded p)" "node_ok X (pr_now p) (doc_of p a) (pr_heap p ! a)"
    "no_routes (pr_heap p ! a) = table_from_config X (doc_of p a)"
proof -
  show n: "node_ok X (pr_now p) (doc_of p a) (pr_heap p ! a)" using assms by (simp add: heap_ok_def)
  show "doc_of p a \<in> set (pr_loaded p)" using assms by (auto simp: heap_ok_def doc_of_def)
  from n show "no_routes (pr_heap p ! a) = table_from_config X (doc_of p a)"
    by (auto simp: node_ok_def dispatch_from_config_def dispatch_new_def)
qed

lemma find_route_linear:
  "find_route X (table_from_config X cfg) req =
     linear_find X (map (route_from_config X) (cf_routes cfg))
       (Option.bind (header_get X (rq_headers req) HOST) (header_to_str X))
       (uri_path X (rq_uri req)) (rq_headers req)"
  unfolding find_route_def table_from_config_def by (intro finalised_table_find table_holds_foldl)

lemma find_route_routed: "find_route X (table_from_config X cfg) req = None \<longleftrightarrow> \<not> routed X cfg req"
  using find_routed [of X cfg req] by (auto simp: find_route_def)

text \<open>A reply, by the document of the dispatcher the request loaded.\<close>

lemma find_route_cfg:
  assumes "find_route X (table_from_config X doc) req = Some route"
  shows "\<exists>rc\<in>set (cf_routes doc). request_matches X req rc \<and> route = route_from_config X rc"
  using assms unfolding find_route_linear linear_find_def request_matches_def by (auto dest!: best_SomeD)

lemma unregistered_upstream:
  fixes n :: "('re, 'hm, 'b, ('cert, 'key, 'roots) connector) node"
  assumes "node_ok X now doc n" "doc_ok doc" "find_route X (table_from_config X doc) req = Some route"
    and "no_pools n (r_upstream route) = None"
  shows "\<exists>uc\<in>set (cf_upstreams doc). \<exists>(Y :: ('cert, 'key, 'roots) tls_crates) clk e. uc_name uc = r_upstream route \<and> upstream_from_config X Y clk uc = Some (Inl e)"
proof -
  obtain opts where valid: "config_valid opts doc" using assms(2) by (auto simp: doc_ok_def)
  obtain uc where uc: "uc \<in> set (cf_upstreams doc)" "uc_name uc = r_upstream route"
    using found_route_upstream [OF valid assms(3) [unfolded find_route_def]] by blast
  obtain Y clk d where d: "dispatch_from_config X Y clk doc = Some d"
    and "rel_option (evolved X clk now) (map_get (d_upstreams d) (r_upstream route)) (no_pools n (r_upstream route))"
    using assms(1) by (auto simp: node_ok_def)
  then have none: "map_get (d_upstreams d) (uc_name uc) = None" using assms(4) uc(2) by simp
  have "distinct (map uc_name (cf_upstreams doc))" using valid by (simp add: config_valid_def)
  from dispatch_registered [OF d this uc(1)] none have "\<forall>up. upstream_from_config X Y clk uc \<noteq> Some (Inr up)" by auto
  moreover have "upstream_from_config X Y clk uc \<noteq> None"
    using d uc(1) by (auto simp: dispatch_from_config_def map_from_config_bind_all split: if_splits)
  ultimately obtain e where "upstream_from_config X Y clk uc = Some (Inl e)" by (metis not_None_eq sum.exhaust)
  with uc show ?thesis by blast
qed

lemma reply_of_plain: "reply_of res \<noteq> Inl NoRoute" "reply_of res \<noteq> Inl (UpstreamNotRegistered n)" "reply_of res \<noteq> Inl (Timeout d)"
  by (simp_all add: reply_of_def split: sum.split)

lemma reply_follows:
  fixes p :: "('re, 'hm, 'b, ('cert, 'key, 'roots) connector, ('cert, 'key, 'roots) reload_world) process"
  assumes "job_ok X p jb" "jo_progress jb = Replied r"
    and "node_ok X (pr_now p) doc (pr_heap p ! jo_node jb)"
    and "no_routes (pr_heap p ! jo_node jb) = table_from_config X doc" "doc_ok doc"
  shows "(r = Inl NoRoute \<longleftrightarrow> \<not> routed X doc (jo_request jb))
    \<and> (\<forall>d. r = Inl (Timeout d) \<longrightarrow>
         (\<exists>rc t. rc \<in> set (cf_routes doc) \<and> request_matches X (jo_request jb) rc
            \<and> d = r_total_timeout (route_from_config X rc) \<and> jo_task jb = Some t \<and> ta_started t + d \<le> pr_now p))
    \<and> (\<forall>name. r = Inl (UpstreamNotRegistered name) \<longrightarrow>
         (\<exists>uc\<in>set (cf_upstreams doc). \<exists>(Y :: ('cert, 'key, 'roots) tls_crates) clk e. uc_name uc = name \<and> upstream_from_config X Y clk uc = Some (Inl e)))"
proof (cases "jo_task jb")
  case None
  with assms(1) have "untasked_ok X p jb" by (simp add: job_ok_def)
  with assms(2,4) find_route_routed [of X doc "jo_request jb"] unregistered_upstream [OF assms(3,5)] show ?thesis
    by (auto simp: untasked_ok_def split: option.splits)
next
  case (Some t)
  with assms(1) have "task_ok X p jb t" by (simp add: job_ok_def)
  then obtain route where route: "find_route X (table_from_config X doc) (jo_request jb) = Some route"
      "ta_total t = r_total_timeout route"
    and r: "(\<exists>res. r = reply_of res) \<or> r = Inl (Timeout (ta_total t)) \<and> ta_started t + ta_total t \<le> pr_now p"
    using assms(2,4) by (auto simp: task_ok_def)
  have "routed X doc (jo_request jb)" using find_route_routed [of X doc "jo_request jb"] route(1) by simp
  with r Some find_route_cfg [OF route(1)] route(2) show ?thesis by (auto simp: reply_of_plain)
qed

text \<open>A request reaches its reply by its own steps alone.\<close>

lemma flight_after:
  assumes "flight p j = Some (jb, t, s, c)" "jo_node jb < length (pr_heap p)" "ta_thread t < length (po_threads s')"
    "po_threads s' ! ta_thread t = Forwarding c'"
  shows "flight (put_pool (jo_node jb) (ta_upstream t) s' p) j = Some (jb, t, s', c')"
  using assms(2-4) flightD(1-4) [OF assms(1)]
  by (auto simp: flight_def Let_def thread_at_put_pool put_pool_heap)

lemma flight_completes:
  assumes "heap_ok X p" "jobs_ok X p" "\<forall>doc\<in>set (pr_loaded p). addrs_fit doc"
    and "flight p j = Some (jb, t, s, c)" "stage_left (po_upstream s) (ca_stage c) = n"
  shows "\<exists>p' jb' r. (process_step X from_str path)\<^sup>*\<^sup>* p p' \<and> pr_jobs p' = (pr_jobs p)[j := jb']
    \<and> jo_progress jb' = Replied r \<and> pr_cells p' = pr_cells p \<and> pr_now p' = pr_now p \<and> pr_reload p' = pr_reload p"
  using assms
proof (induction n arbitrary: p s c rule: less_induct)
  case (less n)
  note fl = flightD [OF less.prems(4)] and node = flight_node [OF less.prems(2,4)]
  have ok: "task_ok X p jb t" using less.prems(2) fl(1,2,4) nth_mem by (fastforce simp: jobs_ok_def job_ok_def)
  show ?case
  proof (cases "ended (ca_stage c)")
    case True
    then obtain res where "ca_stage c = Returned res"
      using ok fl(3,8) by (cases "ca_stage c") (auto simp: task_ok_def)
    from process_step.finished [OF less.prems(4) this, of X from_str path] show ?thesis
      by (intro exI [of _ "put_job j (jb\<lparr>jo_progress := Replied (reply_of res)\<rparr>) p"] exI conjI) (auto simp: r_into_rtranclp)
  next
    case False
    have "addrs_fit (doc_of p (jo_node jb))" using less.prems(3) heap_node(1) [OF less.prems(1) node] by blast
    then obtain u where inv: "pool_inv X u s"
      using node_pool [OF heap_node(2) [OF less.prems(1) node] fl(5)] by blast
    then have same: "same_pool u (po_upstream s)" and wf: "upstream_wf (po_upstream s)"
      by (auto simp: pool_inv_def same_pool_facts)
    have "stage_ok X (po_upstream s) c (ca_stage c)"
      unfolding same_pool_stage_ok [OF same] using pool_inv_call [OF inv] fl(6,7) nth_mem by metis
    from call_step_ok [OF wf this False, of "po_now s" "Inl \<lparr>ce_text = [], ce_is_connect = False\<rparr>"]
    obtain u' c' where step: "call_step X (po_now s) (Inl \<lparr>ce_text = [], ce_is_connect = False\<rparr>) (po_upstream s) c = Some (u', c')"
      and u': "same_pool (po_upstream s) u'"
      and less': "stage_left (po_upstream s) (ca_stage c') < stage_left (po_upstream s) (ca_stage c)"
      by blast
    let ?s = "s\<lparr>po_upstream := u', po_threads := (po_threads s)[ta_thread t := Forwarding c']\<rparr>"
    let ?p = "put_pool (jo_node jb) (ta_upstream t) ?s p"
    have move: "process_step X from_str path p ?p" by (rule process_step.forwarded [OF less.prems(4) False step])
    have "heap_ok X ?p" "jobs_ok X ?p"
      using heap_ok_pool [OF less.prems(1) node fl(5) flight_call [OF less.prems(4) False step]]
        jobs_ok_step [OF less.prems(1,2) move] by simp_all
    moreover have "flight ?p j = Some (jb, t, ?s, c')"
      using flight_after [OF less.prems(4) node, of ?s c'] fl(6) by simp
    moreover have "stage_left (po_upstream ?s) (ca_stage c') < n"
      using less' less.prems(5) same_pool_facts(6) [OF u', THEN fun_cong, of "ca_stage c'"] by simp
    ultimately obtain p' jb' r where run: "(process_step X from_str path)\<^sup>*\<^sup>* ?p p'" and "pr_jobs p' = (pr_jobs p)[j := jb']"
      "jo_progress jb' = Replied r" "pr_cells p' = pr_cells p" "pr_now p' = pr_now p" "pr_reload p' = pr_reload p"
      using less.IH [of "stage_left (po_upstream ?s) (ca_stage c')" ?p ?s c'] less.prems(3) by auto
    moreover have "(process_step X from_str path)\<^sup>*\<^sup>* p p'"
      using converse_rtranclp_into_rtranclp [of "process_step X from_str path"] move run by metis
    ultimately show ?thesis by blast
  qed
qed

text \<open>What one call does alone, it can do in the process.\<close>

lemma alone_process:
  assumes "(alone X (po_now s))\<^sup>*\<^sup>* (po_upstream s, c) (u', c')" "flight p j = Some (jb, t, s, c)"
    "jo_node jb < length (pr_heap p)"
  shows "(process_step X from_str path)\<^sup>*\<^sup>* p (put_pool (jo_node jb) (ta_upstream t)
           (s\<lparr>po_upstream := u', po_threads := (po_threads s)[ta_thread t := Forwarding c']\<rparr>) p)"
  using assms(1)
proof (induction "(u', c')" arbitrary: u' c' rule: rtranclp_induct)
  case base
  have "(po_threads s)[ta_thread t := Forwarding c] = po_threads s"
    using flightD(7) [OF assms(2)] by (metis list_update_id)
  then have "put_pool (jo_node jb) (ta_upstream t)
      (s\<lparr>po_upstream := po_upstream s, po_threads := (po_threads s)[ta_thread t := Forwarding c]\<rparr>) p = p"
    using flightD(5) [OF assms(2)] by (simp add: put_pool_def map_upd_triv)
  with base show ?case by simp
next
  case (step uc)
  obtain u1 c1 where uc: "uc = (u1, c1)" by (cases uc)
  let ?s = "s\<lparr>po_upstream := u1, po_threads := (po_threads s)[ta_thread t := Forwarding c1]\<rparr>"
  let ?p = "put_pool (jo_node jb) (ta_upstream t) ?s p"
  from step(2) uc obtain answer where c1: "\<not> ended (ca_stage c1)"
      "call_step X (po_now ?s) answer (po_upstream ?s) c1 = Some (u', c')"
    by (auto simp: alone_def)
  have "flight ?p j = Some (jb, t, ?s, c1)"
    using flight_after [OF assms(2,3), of ?s c1] flightD(6) [OF assms(2)] by simp
  from process_step.forwarded [OF this c1, of from_str path]
  have "process_step X from_str path ?p (put_pool (jo_node jb) (ta_upstream t)
      (s\<lparr>po_upstream := u', po_threads := (po_threads s)[ta_thread t := Forwarding c']\<rparr>) p)"
    using assms(3) by (simp add: put_pool_def)
  with step(3) [OF uc] show ?case by (rule rtranclp.rtrancl_into_rtrancl)
qed

text \<open>A node as the dispatcher of \<open>Conduit_Dispatch\<close>, and a world in which nothing interferes.\<close>

definition disp_of :: "('re, 'hm, 'b, 'cl) node \<Rightarrow> ('re, 'cl) dispatch" where
  "disp_of n = \<lparr>d_routes = no_routes n, d_upstreams = (\<lambda>name. map_option po_upstream (no_pools n name))\<rparr>"

definition settled ::
  "instant \<Rightarrow> (nat \<Rightarrow> 'hm out_request \<Rightarrow> client_error + ('hm, 'b) response) \<Rightarrow> ('hm, 'b) env" where
  "settled now answers =
     \<lparr>ev_clk = (\<lambda>_. now), ev_answers = answers, ev_done_at = now, ev_completes_within = (\<lambda>_. True),
      ev_sent_when_cut = 0\<rparr>"

lemma settled_forward:
  assumes "forward_with_timeout X (settled now answers) u req tt rt = Some (u', r, sent)"
  obtains res where "forward X (\<lambda>_. now) answers now u req rt = Some (u', res, sent)" "r = reply_of res"
proof (cases "\<exists>u1 e. forward_prepare X (\<lambda>_. now) u req = Some (u1, Inl e)")
  case True
  then obtain u1 e where "forward_prepare X (\<lambda>_. now) u req = Some (u1, Inl e)" by blast
  with that [of "Inl e"] forward_prepare_forward [OF this, of answers now rt] assms show thesis
    by (auto simp: forward_with_timeout_def settled_def reply_of_def)
next
  case False
  with that assms show thesis
    by (auto simp: forward_with_timeout_def settled_def reply_of_def split: option.splits sum.splits prod.splits)
qed

lemma handle_find:
  "handle X ev d req =
     (case find_route X (d_routes d) req of
        None \<Rightarrow> Some (d, Inl NoRoute, [])
      | Some route \<Rightarrow>
          (case map_get (d_upstreams d) (r_upstream route) of
             None \<Rightarrow> Some (d, Inl (UpstreamNotRegistered (r_upstream route)), [])
           | Some upstream \<Rightarrow>
               (case forward_with_timeout X ev upstream req (r_total_timeout route) (r_read_timeout route) of
                  None \<Rightarrow> None
                | Some (upstream', r, sent) \<Rightarrow>
                    Some (d\<lparr>d_upstreams := (d_upstreams d)(r_upstream route \<mapsto> upstream')\<rparr>, r, sent))))"
  by (simp add: handle_def find_route_def Let_def)

lemma disp_of_simps [simp]:
  "d_routes (disp_of n) = no_routes n"
  "map_get (d_upstreams (disp_of n)) name = map_option po_upstream (no_pools n name)"
  by (simp_all add: disp_of_def map_get_def)

lemma disp_of_put_pool:
  "a < length (pr_heap p) \<Longrightarrow>
   disp_of (pr_heap (put_pool a name s p) ! a) =
     (disp_of (pr_heap p ! a))\<lparr>d_upstreams := (d_upstreams (disp_of (pr_heap p ! a)))(name \<mapsto> po_upstream s)\<rparr>"
  by (auto simp: put_pool_heap disp_of_def)

lemma job_alone:
  assumes "heap_ok X p" "jobs_ok X p" "\<forall>doc\<in>set (pr_loaded p). addrs_fit doc"
    and "j < length (pr_jobs p)" "jo_progress (pr_jobs p ! j) = Loaded" "jo_node (pr_jobs p ! j) = a"
    and "find_route X (no_routes (pr_heap p ! a)) (jo_request (pr_jobs p ! j)) = Some route"
    and "no_pools (pr_heap p ! a) (r_upstream route) = Some s"
    and "forward X (\<lambda>_. pr_now p) answers (pr_now p) (po_upstream s) (jo_request (pr_jobs p ! j)) (r_read_timeout route)
      = Some (u', res, sent)"
  obtains p' jb t c s' where "(process_step X from_str path)\<^sup>*\<^sup>* p p'" "pr_jobs p' = (pr_jobs p)[j := jb]"
    "jo_node jb = a" "jo_request jb = jo_request (pr_jobs p ! j)" "jo_progress jb = Replied (reply_of res)" "jo_task jb = Some t"
    "thread_at p' a (ta_upstream t) (ta_thread t) = Some (Forwarding c)" "ca_stage c = Returned res" "ca_sent c = sent"
    "p' = put_job j jb (put_pool a (r_upstream route) s' p)" "po_upstream s' = u'"
    "po_threads s' = po_threads s @ [Forwarding c]"
proof -
  let ?jb = "pr_jobs p ! j" and ?name = "r_upstream route" and ?k = "length (po_threads s)"
  have node: "a < length (pr_heap p)" using job_node [OF assms(2,4)] assms(6) by simp
  note docs = heap_node [OF assms(1) node]
  obtain u where inv: "pool_inv X u s" using node_pool [OF docs(2) assms(8) bspec [OF assms(3) docs(1)]] by metis
  then have wf: "upstream_wf (po_upstream s)" by (auto simp: pool_inv_def same_pool_facts)
  have now: "po_now s = pr_now p"
    by (rule node_now [OF docs(2) assms(8)])
  let ?c = "call_new (po_upstream s) (jo_request ?jb) (r_read_timeout route)"
  let ?s = "s\<lparr>po_threads := po_threads s @ [Forwarding ?c]\<rparr>"
  define t where "t = \<lparr>ta_upstream = ?name, ta_thread = ?k, ta_total = r_total_timeout route, ta_started = pr_now p\<rparr>"
  define jb where "jb = ?jb\<lparr>jo_task := Some t, jo_progress := InFlight\<rparr>"
  let ?p1 = "put_job j jb (put_pool a ?name ?s p)"
  have step1: "process_step X from_str path p ?p1"
    using process_step.dispatched [OF assms(4) refl assms(5), of X route s] assms(6-8) unfolding jb_def t_def by simp
  have fl: "flight ?p1 j = Some (jb, t, ?s, ?c)"
    using node assms(4,6) by (simp add: flight_def Let_def jb_def t_def put_pool_heap thread_at_put_pool)
  obtain c where c: "(alone X (po_now ?s))\<^sup>*\<^sup>* (po_upstream ?s, ?c) (u', c)" "ca_stage c = Returned res" "ca_sent c = sent"
    using alone_forward [OF wf assms(9)] now by auto
  let ?s2 = "?s\<lparr>po_upstream := u', po_threads := (po_threads ?s)[ta_thread t := Forwarding c]\<rparr>"
  let ?p2 = "put_pool (jo_node jb) (ta_upstream t) ?s2 ?p1"
  have jb: "jo_node jb = a" "ta_upstream t = ?name" "ta_thread t = ?k" using assms(6) by (simp_all add: jb_def t_def)
  have run2: "(process_step X from_str path)\<^sup>*\<^sup>* ?p1 ?p2" using alone_process [OF c(1) fl] jb(1) node by simp
  have "flight ?p2 j = Some (jb, t, ?s2, c)" using flight_after [OF fl, of ?s2 c] jb node by simp
  from process_step.finished [OF this c(2), of X from_str path]
  have step3: "process_step X from_str path ?p2 (put_job j (jb\<lparr>jo_progress := Replied (reply_of res)\<rparr>) ?p2)" .
  define jb3 p3 where "jb3 = jb\<lparr>jo_progress := Replied (reply_of res)\<rparr>" and "p3 = put_job j jb3 (put_pool a ?name ?s2 p)"
  have p3: "put_job j jb3 ?p2 = p3" using node by (simp add: jb put_pool_def put_job_def p3_def)
  have "(process_step X from_str path)\<^sup>*\<^sup>* p ?p2" using step1 run2 by (rule converse_rtranclp_into_rtranclp)
  then have run: "(process_step X from_str path)\<^sup>*\<^sup>* p p3"
    using step3 unfolding jb3_def [symmetric] p3 by (rule rtranclp.rtrancl_into_rtrancl)
  have at: "thread_at p3 a (ta_upstream t) (ta_thread t) = Some (Forwarding c)"
    using node by (simp add: jb thread_at_put_pool p3_def)
  show thesis
    by (rule that [of p3 jb3 t c ?s2]) (use run at c(2,3) in \<open>simp_all add: p3_def jb3_def jb_def assms(6) jb(3)\<close>)
qed

text \<open>Documents come from the start or from a signal.\<close>

lemma loaded_from:
  fixes p :: "('re, 'hm, 'b, ('cert, 'key, 'roots) connector, ('cert, 'key, 'roots) reload_world) process"
  assumes "process_started X cfg0 p0" "(process_step X from_str path)\<^sup>*\<^sup>* p0 p"
  shows "\<exists>ds. pr_loaded p = cfg0 # ds
    \<and> (\<forall>doc\<in>set ds. \<exists>w :: ('cert, 'key, 'roots) reload_world. loads from_str path w = Some doc)"
  using assms(2)
proof induction
  case base
  then show ?case using assms(1) by (auto simp: process_started_def process_init_def Let_def)
next
  case (step q r)
  then show ?case using process_loaded [OF step(2)] by (force simp: Un_iff)
qed

text \<open>An accepted request can always go on, whatever stage it is in.\<close>

lemma inflight_flight:
  assumes "jobs_ok X p" "j < length (pr_jobs p)" "jo_progress (pr_jobs p ! j) = InFlight"
  shows "\<exists>t s c. flight p j = Some (pr_jobs p ! j, t, s, c)"
proof -
  let ?jb = "pr_jobs p ! j"
  have job: "job_ok X p ?jb" using assms(1,2) by (simp add: jobs_ok_def)
  then obtain t where t: "jo_task ?jb = Some t"
    using assms(3) by (cases "jo_task ?jb") (auto simp: job_ok_def untasked_ok_def)
  with job obtain c where "thread_at p (jo_node ?jb) (ta_upstream t) (ta_thread t) = Some (Forwarding c)"
    by (auto simp: job_ok_def task_ok_def)
  with t assms(2,3) show ?thesis by (auto simp: flight_def Let_def thread_at_def split: option.splits)
qed

lemma inflight_completes:
  assumes "process_started X cfg0 p0" "(process_step X from_str path)\<^sup>*\<^sup>* p0 p" "\<forall>doc\<in>set (pr_loaded p). addrs_fit doc"
    "j < length (pr_jobs p)" "jo_progress (pr_jobs p ! j) = InFlight"
  shows "\<exists>p' jb r. (process_step X from_str path)\<^sup>*\<^sup>* p p' \<and> pr_jobs p' = (pr_jobs p)[j := jb]
    \<and> jo_progress jb = Replied r \<and> pr_cells p' = pr_cells p \<and> pr_now p' = pr_now p \<and> pr_reload p' = pr_reload p"
proof -
  note parts = reachable_parts [OF assms(1-3)]
  obtain t s c where "flight p j = Some (pr_jobs p ! j, t, s, c)" using inflight_flight [OF parts(2) assms(4,5)] by blast
  from flight_completes [OF parts(1,2) assms(3) this refl] show ?thesis by blast
qed

text \<open>A request that is answered without an upstream, in one step.\<close>

lemma job_answered_now:
  assumes "process_step X from_str path p (put_job j ((pr_jobs p ! j)\<lparr>jo_progress := Replied r\<rparr>) p)"
    and "jo_task (pr_jobs p ! j) = None"
  shows "\<exists>p' jb. (process_step X from_str path)\<^sup>*\<^sup>* p p' \<and> pr_jobs p' = (pr_jobs p)[j := jb]
    \<and> jo_progress jb = Replied r \<and> disp_of (pr_heap p' ! a) = disp_of (pr_heap p ! a)
    \<and> (\<forall>b. b \<noteq> a \<longrightarrow> pr_heap p' ! b = pr_heap p ! b)
    \<and> (\<forall>t c. jo_task jb = Some t \<and> thread_at p' a (ta_upstream t) (ta_thread t) = Some (Forwarding c)
         \<longrightarrow> ca_sent c = sent)"
  using assms by (intro exI [of _ "put_job j ((pr_jobs p ! j)\<lparr>jo_progress := Replied r\<rparr>) p"] exI conjI)
    (auto simp: r_into_rtranclp)

text \<open>\<open>handle\<close> while the clock stands still, on a dispatcher of the process.\<close>

lemma handle_settled:
  assumes "no_pools n (r_upstream route) = Some s"
    and "handle X (settled now answers) (disp_of n) req = Some (d', r, sent)"
    and "find_route X (no_routes n) req = Some route"
  obtains u' res where "forward X (\<lambda>_. now) answers now (po_upstream s) req (r_read_timeout route) = Some (u', res, sent)"
    "r = reply_of res" "d' = (disp_of n)\<lparr>d_upstreams := (d_upstreams (disp_of n))(r_upstream route \<mapsto> u')\<rparr>"
proof -
  from assms obtain u' where fw: "forward_with_timeout X (settled now answers) (po_upstream s) req
      (r_total_timeout route) (r_read_timeout route) = Some (u', r, sent)"
    and "d' = (disp_of n)\<lparr>d_upstreams := (d_upstreams (disp_of n))(r_upstream route \<mapsto> u')\<rparr>"
    by (auto simp: handle_find split: option.splits)
  with settled_forward [OF fw] that show thesis by blast
qed

section \<open>Samples for the witnesses\<close>

definition sample_host_request :: "(string \<times> string) list request" where
  "sample_host_request = sample_request [(HOST, ''localhost'')] ''/''"

text \<open>The quick-start document with a single backend, whose backend always fails.\<close>

definition single_upstream :: upstream_cfg where
  "single_upstream = (sample_upstream ''origin'')\<lparr>uc_addrs := [sample_addr 1]\<rparr>"

definition single_config :: config where
  "single_config = sample_config\<lparr>cf_upstreams := [single_upstream]\<rparr>"

definition refused ::
  "nat \<Rightarrow> (string \<times> string) list out_request \<Rightarrow> client_error + ((string \<times> string) list, unit) response" where
  "refused k out = Inl \<lparr>ce_text = ''refused'', ce_is_connect = True\<rparr>"

type_synonym sample_process =
  "(string, (string \<times> string) list, unit, (string, string, string list) connector,
    (string, string, string list) reload_world) process"

lemma single_config_ok: "doc_ok single_config" "addrs_fit single_config"
proof -
  have "load_config Inr (\<lambda>_. Inr single_config) None (\<lambda>_. True) ''conduit.toml'' = Inr single_config"
    by (simp add: load_config_def parse_config_def check_def check_filesystem_def check_logic_def
        check_upstream_tls_def check_upstream_health_def check_tls_section_def sample_defs single_config_def single_upstream_def)
  from load_config_valid [OF this] show "doc_ok single_config" by (auto simp: doc_ok_def)
  show "addrs_fit single_config" by (simp add: addrs_fit_def single_config_def single_upstream_def)
qed

definition single_route :: "string route" where
  "single_route = route_from_config sample_crates (hd (cf_routes single_config))"

lemma single_route_upstream: "r_upstream single_route = ''origin''"
  by (simp add: single_route_def single_config_def sample_defs route_from_config_def)

lemma single_routed:
  "find_route sample_crates (table_from_config sample_crates single_config) sample_host_request = Some single_route"
  unfolding find_route_linear
  by (simp add: single_route_def single_config_def sample_host_request_def sample_defs linear_find_def
      route_matches_def route_from_config_def headers_match_def host_matches_def path_from_config_def starts_with_def
      header_matches_from_config_def)

lemma single_started:
  "\<exists>b d. process_started sample_crates single_config (process_init b single_config 0 :: sample_process)
     \<and> db_primary b = d \<and> db_http_workers b = [d]
     \<and> dispatch_from_config sample_crates sample_tls_crates (\<lambda>_. 0) single_config = Some d"
proof -
  let ?clk = "\<lambda>(_ :: nat) (_ :: nat). 0 :: instant"
  obtain b where b: "build_dispatch_bundle sample_crates sample_tls_crates ?clk single_config 1 = Some b"
    using build_dispatch_bundle_total [OF sample_authority_ok] by blast
  then have "process_started sample_crates single_config (process_init b single_config 0 :: sample_process)"
    using single_config_ok(1) unfolding process_started_def
    by (intro conjI exI [of _ sample_tls_crates] exI [of _ ?clk] exI [of _ 1] exI [of _ b] exI [of _ 0]) simp_all
  with b show ?thesis
    by (intro exI [of _ b] exI [of _ "db_primary b"]) (auto simp: build_dispatch_bundle_def split: option.splits)
qed

text \<open>\<open>k\<close> requests have failed at the only backend of dispatcher \<open>a\<close>, and none is under way.\<close>

definition failing :: "nat \<Rightarrow> nat \<Rightarrow> sample_process \<Rightarrow> bool" where
  "failing k a p \<longleftrightarrow>
     pr_loaded p = [single_config] \<and> a < length (pr_cells p) \<and> pr_cells p ! a = a \<and> a < length (pr_heap p) \<and>
     (\<exists>s b. no_pools (pr_heap p ! a) ''origin'' = Some s \<and> u_breakers (po_upstream s) = [b]
        \<and> b_threshold b = 5 \<and> b_failures b = of_nat k \<and> (\<forall>t\<in>set (po_threads s). thread_pc 0 t = Idle))"

lemma single_connectors: "connectors_load sample_tls_crates single_config"
  by (simp add: connectors_load_def build_https_connector_def single_config_def single_upstream_def sample_defs)

lemma single_upstream_built:
  assumes "dispatch_from_config sample_crates sample_tls_crates (\<lambda>_. 0) single_config = Some d"
  shows "\<exists>u. map_get (d_upstreams d) ''origin'' = Some u \<and> u_breakers u = [breaker_new 0 breaker_config_default]"
proof -
  have mem: "single_upstream \<in> set (cf_upstreams single_config)" by (simp add: single_config_def)
  obtain u where u: "upstream_from_config sample_crates sample_tls_crates (\<lambda>_. 0) single_upstream = Some (Inr u)"
    using upstream_builds [OF sample_authority_ok single_connectors mem] by blast
  have "distinct (map uc_name (cf_upstreams single_config))" by (simp add: single_config_def)
  from dispatch_registered [OF assms this mem u] u show ?thesis
    by (auto simp: upstream_from_config_def with_tls_def Let_def single_upstream_def sample_upstream_def de_upstream_cfg_def
        split: sum.splits option.splits)
qed

lemma failing_init:
  assumes "db_primary b = d" "db_http_workers b = [d]" "a < 2"
    and "dispatch_from_config sample_crates sample_tls_crates (\<lambda>_. 0) single_config = Some d"
  shows "failing 0 a (process_init b single_config 0)"
proof -
  have "a = 0 \<or> a = 1" using assms(3) by linarith
  with single_upstream_built [OF assms(4)] assms(1,2) show ?thesis
    by (auto simp: failing_def process_init_def Let_def node_of_def breaker_new_def breaker_config_default_def)
qed

abbreviation refusal :: client_error where
  "refusal \<equiv> \<lparr>ce_text = ''refused'', ce_is_connect = True\<rparr>"

lemma refused_forward:
  assumes "upstream_wf u" "u_retry u = retry_default" "u_breakers u = [b]" "b_threshold b = 5" "b_failures b = of_nat k" "k < 5"
  shows "\<exists>u' out. forward sample_crates (\<lambda>_. now) refused now u sample_host_request rt
      = Some (u', Inl (Client refusal True), [out]) \<and> u_breakers u' = [on_failure now b]"
proof -
  have ne: "length (u_addrs u) = 1" "u_addrs u \<noteq> []" using assms(1,3) by (auto simp: upstream_wf_def)
  have i: "slot u (u_next u) 0 = 0" using scan_slot [OF assms(1) ne(2), of "u_next u" 0] ne by simp
  have "of_nat k < (5 :: u32)" using assms(6) by (simp add: word_less_nat_alt unat_of_nat take_bit_nat_eq_self)
  then have "breaker_check b now = Allow" using assms(4,5) by (simp add: breaker_check_def)
  then have pick: "pick_addr (\<lambda>_. now) u = Some (u\<lparr>u_next := u_next u + 1\<rparr>, Some (u_addrs u ! 0, 0))"
    unfolding pick_addr_find [OF assms(1) ne(2)] using ne i assms(3) by (simp add: upt_rec)
  have bytes: "buffer_body (rq_body sample_host_request) = Inr []"
    by (simp add: buffer_body_def sample_host_request_def sample_request_def)
  have "deciding retry_default (\<lambda>k. refused k out) = 0" for out
    by (rule decidingI) (simp_all add: retry_default_def retryable_def refused_def max_def)
  with forward_picked [OF pick assms(1) ne(2) _ rewrite_uri_ok [OF sample_crates_ok] bytes, of refused now rt] ne assms(2,3)
  show ?thesis by (auto simp: Let_def observe_breaker_outcome_def refused_def succeeded_def conclude_def)
qed

lemma on_failure_counts: "b_threshold b \<noteq> 0 \<Longrightarrow> b_failures (on_failure now b) = b_failures b + 1"
  by (simp add: on_failure_def Let_def)

lemma node_upstream:
  assumes "node_ok X now doc n" "no_pools n name = Some s" "addrs_fit doc"
  shows "upstream_wf (po_upstream s)" "u_retry (po_upstream s) = retry_default"
proof -
  obtain u where inv: "pool_inv X u s" "u_retry u = retry_default" by (rule node_pool [OF assms])
  from inv(1) have same: "same_pool u (po_upstream s)" and "upstream_wf u" by (simp_all add: pool_inv_def)
  then show "upstream_wf (po_upstream s)" "u_retry (po_upstream s) = retry_default"
    using inv(2) by (simp_all only: same_pool_facts(1) [OF same] same_pool_def)
qed

lemma failing_step:
  assumes "process_started sample_crates single_config p0" "(process_step sample_crates from_str path)\<^sup>*\<^sup>* p0 p" "failing k a p" "k < 5"
  obtains p' jb t c where "(process_step sample_crates from_str path)\<^sup>*\<^sup>* p0 p'" "failing (Suc k) a p'" "jb \<in> set (pr_jobs p')"
    "jo_node jb = a" "jo_request jb = sample_host_request" "jo_progress jb = Replied (Inl (UpstreamError (Client refusal True)))" "jo_task jb = Some t"
    "thread_at p' a (ta_upstream t) (ta_thread t) = Some (Forwarding c)" "ca_sent c \<noteq> []"
proof -
  let ?jb = "\<lparr>jo_cell = a, jo_node = a, jo_request = sample_host_request, jo_task = None, jo_progress = Loaded\<rparr>"
  let ?j = "length (pr_jobs p)" and ?req = sample_host_request
  define p1 where "p1 = p\<lparr>pr_jobs := pr_jobs p @ [?jb]\<rparr>"
  obtain s b where s: "no_pools (pr_heap p ! a) ''origin'' = Some s" "u_breakers (po_upstream s) = [b]"
    "b_threshold b = 5" "b_failures b = of_nat k" "\<forall>t\<in>set (po_threads s). thread_pc 0 t = Idle"
    using assms(3) by (auto simp: failing_def)
  have "process_step sample_crates from_str path p p1"
    using process_step.load_full [of a p sample_crates from_str path ?req] assms(3) by (simp add: failing_def p1_def)
  with assms(2) have run1: "(process_step sample_crates from_str path)\<^sup>*\<^sup>* p0 p1" by (rule rtranclp.rtrancl_into_rtrancl)
  have fits: "\<forall>doc\<in>set (pr_loaded p1). addrs_fit doc"
    using assms(3) single_config_ok(2) by (simp add: failing_def p1_def)
  note parts = reachable_parts [OF assms(1) run1 fits]
  have a: "a < length (pr_heap p1)" and doc: "doc_of p1 a = single_config"
    using assms(3) heap_node(1) [OF parts(1), of a] by (auto simp: failing_def p1_def)
  note node = heap_node [OF parts(1) a, unfolded doc]
  have pool: "no_pools (pr_heap p1 ! a) ''origin'' = Some s" using s(1) by (simp add: p1_def)
  from refused_forward [OF node_upstream [OF node(2) pool single_config_ok(2)] s(2-4) assms(4)] obtain u' out where
    fw: "forward sample_crates (\<lambda>_. pr_now p1) refused (pr_now p1) (po_upstream s) ?req (r_read_timeout single_route)
      = Some (u', Inl (Client refusal True), [out])"
    and u': "u_breakers u' = [on_failure (pr_now p1) b]" by blast
  have job: "?j < length (pr_jobs p1)" "pr_jobs p1 ! ?j = ?jb" by (simp_all add: p1_def)
  have req: "jo_progress (pr_jobs p1 ! ?j) = Loaded" "jo_node (pr_jobs p1 ! ?j) = a" "jo_request (pr_jobs p1 ! ?j) = ?req"
    unfolding job(2) by simp_all
  have found: "find_route sample_crates (no_routes (pr_heap p1 ! a)) (jo_request (pr_jobs p1 ! ?j)) = Some single_route"
    unfolding req(3) node(3) by (rule single_routed)
  have registered: "no_pools (pr_heap p1 ! a) (r_upstream single_route) = Some s"
    unfolding single_route_upstream by (rule pool)
  obtain p' jb t c s' where run2: "(process_step sample_crates from_str path)\<^sup>*\<^sup>* p1 p'" "pr_jobs p' = (pr_jobs p1)[?j := jb]"
    and jb: "jo_node jb = a" "jo_request jb = jo_request (pr_jobs p1 ! ?j)"
      "jo_progress jb = Replied (reply_of (Inl (Client refusal True)))"
      "jo_task jb = Some t" "thread_at p' a (ta_upstream t) (ta_thread t) = Some (Forwarding c)"
      "ca_stage c = Returned (Inl (Client refusal True))" "ca_sent c = [out]"
    and p': "p' = put_job ?j jb (put_pool a (r_upstream single_route) s' p1)" "po_upstream s' = u'"
      "po_threads s' = po_threads s @ [Forwarding c]"
    by (rule job_alone [OF parts(1,2) fits job(1) req(1,2) found registered fw [folded req(3)]])
  have b': "b_threshold (on_failure (pr_now p1) b) = 5" "b_failures (on_failure (pr_now p1) b) = of_nat (Suc k)"
    using s(3,4) on_failure_counts [of b "pr_now p1"] by (simp_all add: s(3))
  have "no_pools (pr_heap p' ! a) ''origin'' = Some s'"
    using put_pool_heap [OF a a] by (simp add: p'(1) single_route_upstream)
  moreover have "\<forall>t\<in>set (po_threads s'). thread_pc 0 t = Idle" using s(5) jb(6) by (simp add: p'(3))
  moreover have "pr_loaded p' = pr_loaded p" "pr_cells p' = pr_cells p" "length (pr_heap p') = length (pr_heap p)"
    by (simp_all add: p'(1) p1_def)
  ultimately have "failing (Suc k) a p'"
    using assms(3) u' b' p'(2) unfolding failing_def by auto
  moreover have "(process_step sample_crates from_str path)\<^sup>*\<^sup>* p0 p'" using run1 run2(1) by (rule rtranclp_trans)
  moreover have "jb \<in> set (pr_jobs p')" using run2(2) job(1) by (simp add: set_update_memI)
  ultimately show thesis using that [of p' jb t c] jb req(3) by (simp add: reply_of_def)
qed

lemma failing_run:
  assumes "process_started sample_crates single_config p0" "failing 0 a p0" "k \<le> 5"
  shows "\<exists>p. (process_step sample_crates from_str path)\<^sup>*\<^sup>* p0 p \<and> failing k a p"
  using assms(3)
proof (induction k)
  case 0
  show ?case using assms(2) by blast
next
  case (Suc k)
  then obtain p where p: "(process_step sample_crates from_str path)\<^sup>*\<^sup>* p0 p" "failing k a p" by auto
  have "k < 5" using Suc.prems by simp
  from failing_step [OF assms(1) p this] show ?case by blast
qed

abbreviation sample_step :: "sample_process \<Rightarrow> sample_process \<Rightarrow> bool" where
  "sample_step \<equiv> process_step sample_crates (\<lambda>_. Inl []) []"

lemma sample_answered:
  assumes "a < 2"
  shows "\<exists>p0 p jb t c. process_started sample_crates single_config p0 \<and> sample_step\<^sup>*\<^sup>* p0 p \<and> pr_loaded p = [single_config]
    \<and> a < length (pr_heap p) \<and> jb \<in> set (pr_jobs p) \<and> jo_node jb = a \<and> jo_request jb = sample_host_request
    \<and> jo_progress jb = Replied (Inl (UpstreamError (Client refusal True))) \<and> jo_task jb = Some t
    \<and> thread_at p a (ta_upstream t) (ta_thread t) = Some (Forwarding c) \<and> ca_sent c \<noteq> []"
proof -
  obtain b d where st: "process_started sample_crates single_config (process_init b single_config 0 :: sample_process)"
    and d: "db_primary b = d" "db_http_workers b = [d]"
      "dispatch_from_config sample_crates sample_tls_crates (\<lambda>_. 0) single_config = Some d"
    using single_started by blast
  have "failing 0 a (process_init b single_config 0)" by (rule failing_init [OF d(1,2) assms d(3)])
  moreover have "(0 :: nat) < 5" by simp
  ultimately obtain p jb t c where "sample_step\<^sup>*\<^sup>* (process_init b single_config 0) p" "failing (Suc 0) a p" "jb \<in> set (pr_jobs p)"
    "jo_node jb = a" "jo_request jb = sample_host_request"
    "jo_progress jb = Replied (Inl (UpstreamError (Client refusal True)))" "jo_task jb = Some t"
    "thread_at p a (ta_upstream t) (ta_thread t) = Some (Forwarding c)" "ca_sent c \<noteq> []"
    by (rule failing_step [OF st rtranclp.rtrancl_refl])
  with st show ?thesis
    by (intro exI [of _ "process_init b single_config 0"] exI [of _ p] exI [of _ jb] exI [of _ t] exI [of _ c])
      (simp add: failing_def)
qed

text \<open>The process when one request has loaded its dispatcher.\<close>

lemma disp_of_node [simp]: "disp_of (node_of now d) = d"
  by (cases d) (simp add: disp_of_def node_of_def map_get_def option.map_comp comp_def option.map_ident)

definition sample_loaded where
  "sample_loaded b = (process_init b single_config 0)
     \<lparr>pr_jobs := [\<lparr>jo_cell = 0, jo_node = 0, jo_request = sample_host_request, jo_task = None, jo_progress = Loaded\<rparr>]\<rparr>"

lemma sample_loaded_fields [simp]:
  "pr_now (sample_loaded b) = 0" "pr_loaded (sample_loaded b) = [single_config]" "length (pr_jobs (sample_loaded b)) = 1"
  "jo_progress (pr_jobs (sample_loaded b) ! 0) = Loaded" "jo_node (pr_jobs (sample_loaded b) ! 0) = 0"
  "jo_request (pr_jobs (sample_loaded b) ! 0) = sample_host_request"
  "pr_heap (sample_loaded b) ! 0 = node_of 0 (db_primary b)"
  by (simp_all add: sample_loaded_def process_init_def Let_def)

lemma process_init_fields:
  "pr_cells (process_init b cfg now) \<noteq> []" "pr_cells (process_init b cfg now) ! 0 = 0" "pr_jobs (process_init b cfg now) = []"
  by (simp_all add: process_init_def Let_def del: upt_Suc)

lemma sample_loaded_run: "(process_step X from_str path)\<^sup>*\<^sup>* (process_init b single_config 0) (sample_loaded b)"
  using process_step.load_full [of 0 "process_init b single_config 0" X from_str path sample_host_request]
  by (intro r_into_rtranclp) (simp add: sample_loaded_def process_init_fields)

lemma single_serves:
  assumes "dispatch_from_config sample_crates sample_tls_crates (\<lambda>_. 0) single_config = Some d"
  shows "\<exists>d' r sent. handle sample_crates ev d req = Some (d', r, sent)"
proof -
  obtain opts where valid: "config_valid opts single_config" using single_config_ok(1) by (auto simp: doc_ok_def)
  have "serves sample_crates single_config d"
    using serves_init [OF sample_authority_ok single_connectors single_config_ok(2) valid, of "\<lambda>_. 0"] assms by auto
  from serves_handle [OF valid this] show ?thesis by blast
qed

section \<open>Properties\<close>

text \<open>
  C7. Where requests go, for the whole data plane: in every state the running process can reach,
  with requests, timeouts, disconnects, probes and reloads interleaved at every atomic access,
  whatever a request has sent went, once, with its own method and body, to an address that one
  document, the first or one that a SIGHUP loaded, lists for the upstream of the route which the
  linear scan of that document's routes selects.
\<close>

theorem process_sends_configured:
  assumes "process_started X cfg0 p0" and "(process_step X from_str path)\<^sup>*\<^sup>* p0 p"
    and "\<forall>doc\<in>set (pr_loaded p). addrs_fit doc" and "crates_ok X"
    and "jb \<in> set (pr_jobs p)" and "jo_task jb = Some t"
    and "thread_at p (jo_node jb) (ta_upstream t) (ta_thread t) = Some (Forwarding c)"
    and "out \<in> set (ca_sent c)"
  shows "ca_sent c = [out] \<and> carries (jo_request jb) out
    \<and> (\<exists>doc\<in>set (pr_loaded p). \<exists>route uc a.
         linear_find X (map (route_from_config X) (cf_routes doc))
           (Option.bind (header_get X (rq_headers (jo_request jb)) HOST) (header_to_str X))
           (uri_path X (rq_uri (jo_request jb))) (rq_headers (jo_request jb)) = Some route
         \<and> uc \<in> set (cf_upstreams doc) \<and> uc_name uc = r_upstream route
         \<and> a \<in> set (uc_addrs uc) \<and> uri_authority (oq_uri out) = authority_try_from X (addr_to_string a))"
proof -
  note parts = reachable_parts [OF assms(1-3)]
  have job: "jo_node jb < length (pr_heap p)" "task_ok X p jb t"
    using parts(2) assms(5,6) by (auto simp: jobs_ok_def job_ok_def)
  note node = heap_node [OF parts(1) job(1)]
  let ?doc = "doc_of p (jo_node jb)"
  obtain s where s: "no_pools (pr_heap p ! jo_node jb) (ta_upstream t) = Some s" "Forwarding c \<in> set (po_threads s)"
    using assms(7) nth_mem by (fastforce simp: thread_at_def split: option.splits if_splits)
  obtain route where route: "find_route X (no_routes (pr_heap p ! jo_node jb)) (jo_request jb) = Some route"
    "ta_upstream t = r_upstream route" "ca_request c = jo_request jb"
    using job(2) assms(7) by (auto simp: task_ok_def)
  obtain Y clk uc u s0 where uc: "uc \<in> set (cf_upstreams ?doc)" "uc_name uc = ta_upstream t"
      "upstream_from_config X Y clk uc = Some (Inr u)" "u_addrs u = uc_addrs uc" "u_retry u = retry_default"
      and inv: "pool_inv X u s"
    by (rule node_pool [OF node(2) s(1) bspec [OF assms(3) node(1)]])
  have "build_authorities X (uc_addrs uc) = Some (u_authorities u)"
    using uc(3) by (auto simp: upstream_from_config_def with_tls_def Let_def split: sum.splits option.splits)
  note au = build_authorities_nth [OF this]
  have "u_addrs u \<noteq> []"
    using parts(4) [OF node(1)] uc(1,4) by (auto simp: doc_ok_def config_valid_def upstream_ok_def list_all_iff)
  from call_sent [OF pool_inv_call [OF inv s(2)] assms(4) this assms(8)] obtain i where
      "length (ca_sent c) \<le> attempts_of u" "set (ca_sent c) = {out}" "carries (jo_request jb) out"
      and i: "i < length (uc_addrs uc)" "uri_authority (oq_uri out) = Some (u_authorities u ! i)"
    using route(3) uc(4) by (auto simp: carries_def)
  moreover have "attempts_of u = 1" using uc(5) by (simp add: attempts_of_def retry_default_def max_def)
  ultimately have "ca_sent c = [out]" "carries (jo_request jb) out"
    using assms(8) by (auto simp: le_Suc_eq length_Suc_conv)
  moreover have "uri_authority (oq_uri out) = authority_try_from X (addr_to_string (uc_addrs uc ! i))"
    using au [OF i(1)] i(2) by simp
  ultimately show ?thesis
    using uc(2) route(2) nth_mem [OF i(1)] route(1) [unfolded node(3) find_route_linear]
    by (intro conjI bexI [OF _ node(1)] exI [of _ route] exI [of _ uc] exI [of _ "uc_addrs uc ! i"] uc(1)) simp_all
qed

lemma process_sends_configured_witness:
  "\<exists>(p :: sample_process) jb t c out. jb \<in> set (pr_jobs p) \<and> jo_task jb = Some t
     \<and> thread_at p (jo_node jb) (ta_upstream t) (ta_thread t) = Some (Forwarding c) \<and> ca_sent c = [out]
     \<and> carries sample_host_request out \<and> pr_loaded p = [single_config]"
proof -
  obtain p0 p jb t c where st: "process_started sample_crates single_config p0" "sample_step\<^sup>*\<^sup>* p0 p" "pr_loaded p = [single_config]"
    and jb: "jb \<in> set (pr_jobs p)" "jo_node jb = 0" "jo_request jb = sample_host_request" "jo_task jb = Some t"
      "thread_at p 0 (ta_upstream t) (ta_thread t) = Some (Forwarding c)" "ca_sent c \<noteq> []"
    using sample_answered [of 0] by auto
  have fits: "\<forall>doc\<in>set (pr_loaded p). addrs_fit doc" using st(3) single_config_ok(2) by simp
  obtain out where out: "out \<in> set (ca_sent c)" using jb(6) by (cases "ca_sent c") auto
  from process_sends_configured [OF st(1,2) fits sample_crates_ok jb(1,4) _ out] jb(2,3,5)
  have "ca_sent c = [out]" "carries sample_host_request out" by simp_all
  with jb st(3) show ?thesis by (intro exI [of _ p] exI [of _ jb] exI [of _ t] exI [of _ c] exI [of _ out]) simp
qed











end
