(* ===== verification/Conduit_Cases.thy ===== *)
theory Conduit_Cases
  imports Conduit_Main
begin

text \<open>
  The unit tests of the repository, replayed on the model: each lemma takes the inputs of the
  \<^verbatim>\<open>#[test]\<close> functions it names and proves that the definitions return what the test
  asserts. They validate the translation, by evaluation in the logic, against what the authors
  of the code expect of it. Where a test reads TOML, the document is the value it denotes.
\<close>

section \<open>Inputs\<close>

text \<open>\<^verbatim>\<open>conduit-lifecycle/src/table.rs\<close>: the helpers \<open>route\<close> and \<open>table\<close>.\<close>

definition test_route :: "string option \<Rightarrow> string path_match \<Rightarrow> string \<Rightarrow> string route" where
  "test_route host path upstream =
     \<lparr>r_host = host, r_path = path, r_header_matches = [], r_upstream = upstream,
      r_total_timeout = from_secs 30, r_read_timeout = from_secs 30\<rparr>"

definition test_find :: "string route list \<Rightarrow> string option \<Rightarrow> string \<Rightarrow> string option" where
  "test_find routes host path =
     map_option r_upstream
       (table_find sample_crates (table_finalise (foldl table_insert table_default routes)) host path [])"

text \<open>\<^verbatim>\<open>conduit-config/src/validate.rs\<close>: the parts from which the documents of the tests differ.\<close>

definition test_server :: "socket_addr list option \<Rightarrow> socket_addr list option \<Rightarrow> server_config" where
  "test_server https h3 = de_server_config None None None None https h3 (sample_addr 0) (sample_addr 1)"

definition test_upstream :: "upstream_tls option \<Rightarrow> health_check option \<Rightarrow> upstream_cfg" where
  "test_upstream tls hc = de_upstream_cfg ''api'' [sample_addr 2] Http1 tls None None None hc"

definition test_match :: "string option \<Rightarrow> string option \<Rightarrow> string option \<Rightarrow> route_match" where
  "test_match host pre exact =
     \<lparr>rm_host = host, rm_path_prefix = pre, rm_path_exact = exact, rm_path_regex = None, rm_headers = []\<rparr>"

definition test_rule :: "route_match \<Rightarrow> string \<Rightarrow> retry_cfg option \<Rightarrow> route_cfg" where
  "test_rule m upstream retry = de_route_cfg m upstream None retry None"

definition example_rule :: route_cfg where
  "example_rule = test_rule (test_match (Some ''example.com'') None None) ''api'' None"

definition test_logic :: "bool \<Rightarrow> upstream_cfg list \<Rightarrow> route_cfg list \<Rightarrow> config_error + unit" where
  "test_logic insecure us rs =
     check_logic (de_config (test_server None None) None (Some us) (Some rs)) \<lparr>vo_allow_insecure_tls = insecure\<rparr>"

text \<open>\<^verbatim>\<open>conduit-upstream/src/lib.rs\<close>: successive picks, each with the instants its clock reads.\<close>

fun test_picks :: "(nat \<Rightarrow> instant) list \<Rightarrow> 'cl upstream \<Rightarrow> socket_addr option list" where
  "test_picks [] u = []"
| "test_picks (clk # clks) u =
     (case pick_addr clk u of
        None \<Rightarrow> []
      | Some (u', r) \<Rightarrow> map_option fst r # test_picks clks u')"

text \<open>\<^verbatim>\<open>conduit-transport/src/tls.rs\<close>: \<open>fake_resolver\<close>, a certificate standing for itself.\<close>

definition fake_lookup :: "string list \<Rightarrow> string \<Rightarrow> string option" where
  "fake_lookup snis sni =
     (case build_loop (\<lambda>spec. Inr (cs_sni spec)) Map.empty [] None (map sample_spec snis) of
        Inr (exact, wildcard, Some ck) \<Rightarrow>
          Some (table_lookup \<lparr>ct_exact = exact, ct_wildcard = wildcard, ct_fallback = ck\<rparr> sni)
      | _ \<Rightarrow> None)"

section \<open>Evaluation\<close>

lemmas test_config_simps = check_logic_def check_upstream_tls_def check_upstream_health_def check_tls_section_def
  test_logic_def de_config_def test_server_def de_server_config_def
  test_upstream_def de_upstream_cfg_def test_match_def test_rule_def de_route_cfg_def example_rule_def
  de_retry_cfg_def de_tls_config_def de_upstream_tls_def de_health_check_def dstr_from_secs_def from_secs_def

lemma trim_plain: "s \<noteq> [] \<Longrightarrow> plain_char (hd s) \<Longrightarrow> plain_char (last s) \<Longrightarrow> trim s = s"
  using trim_word [of s 0 0] by simp

lemma trim_cases: "trim [] = []" "trim '' 5 s '' = ''5 s''" "trim '' s'' = ''s''"
proof -
  show "trim [] = []"
    by (simp add: trim_def trim_start_def trim_end_def trim_left.simps [of _ "[]"] ws_seqs_def bytes_of_def string_of_def)
  show "trim '' 5 s '' = ''5 s''" using trim_word [of "''5 s''" 1 1] by (simp add: plain_char_def)
  show "trim '' s'' = ''s''" using trim_word [of "''s''" 1 0] by (simp add: plain_char_def)
qed

lemmas parse_eval = parse_def parse_u64_def checked_mul_def checked_add_def is_ascii_digit_def from_secs_def
  from_millis_def trim_plain trim_cases plain_char_def Let_def

lemmas find_eval = test_find_def test_route_def table_find_def table_finalise_def table_insert_def
  table_default_def bucket_insert_def bucket_finalise_def bucket_default_def bucket_find_def lookup_bucket_def
  headers_match_def starts_with_def to_ascii_lowercase_def ascii_lower_char_def is_ascii_uppercase_def
  sample_crates_def char_of_def bit_Suc_0_iff Let_def

lemmas breaker_eval = breaker_new_def breaker_check_def on_failure_def on_success_def now_ms_def u64_or_max_def
  as_millis_def saturating_add_def from_secs_def from_millis_def Let_def

section \<open>Configuration\<close>

text \<open>\<^verbatim>\<open>duration.rs\<close>: \<open>ms\<close>, \<open>seconds\<close>, \<open>minutes\<close>, \<open>hours\<close>, \<open>whitespace_tolerated\<close>.\<close>

lemma case_durations_accepted:
  "parse ''100ms'' = Inr (from_millis 100)" "parse ''5s'' = Inr (from_secs 5)"
  "parse ''10m'' = Inr (from_secs 600)" "parse ''2h'' = Inr (from_secs 7200)"
  "parse '' 5 s '' = Inr (from_secs 5)"
  by (simp_all add: parse_eval)

text \<open>\<^verbatim>\<open>duration.rs\<close>: the five \<open>rejects_\<close> tests.\<close>

lemma case_durations_rejected:
  "parse '''' = Inl Empty" "parse ''5'' = Inl MissingUnit" "parse ''s'' = Inl MissingNumber"
  "parse ''5x'' = Inl (UnknownUnit ''x'')" "parse ''18446744073709551615h'' = Inl Overflow"
  by (simp_all add: parse_eval)

text \<open>\<^verbatim>\<open>workers.rs\<close>: all tests; a negative TOML integer is a signed one.\<close>

lemma case_workers:
  "workers_visit_str ''auto'' = Inr Auto" "workers_visit_i64 4 = Inr (Count 4)"
  "workers_visit_i64 0 = Inl (InvalidSigned 0)" "workers_visit_i64 (- 1) = Inl (InvalidSigned (- 1))"
  "workers_visit_str ''many'' = Inl (InvalidStr ''many'')" "workers_default = Auto"
  by (simp_all add: workers_visit_str_def workers_visit_i64_def usize_try_from_i64_def nonzero_new_def workers_default_def)

text \<open>\<^verbatim>\<open>validate.rs\<close>: routes and upstreams.\<close>

lemma case_logic_routes:
  "test_logic False [test_upstream None None]
     [test_rule (test_match (Some ''example.com'') (Some ''/'') None) ''api'' None] = Inr ()"
  "test_logic False [test_upstream None None] [] = Inl NoRoutes"
  "test_logic False [test_upstream None None]
     [test_rule (test_match (Some ''example.com'') None None) ''missing'' None] = Inl (UnknownUpstream 0 ''missing'')"
  "test_logic False [test_upstream None None, test_upstream None None] [example_rule] = Inl (DuplicateUpstream ''api'')"
  "test_logic False [test_upstream None None\<lparr>uc_addrs := []\<rparr>] [example_rule] = Inl (UpstreamNoAddrs 0 ''api'')"
  "test_logic False [test_upstream None None] [test_rule (test_match None None None) ''api'' None]
     = Inl (RouteMatchEmpty 0)"
  "test_logic False [test_upstream None None]
     [test_rule (test_match None (Some ''/'') (Some ''/foo'')) ''api'' None] = Inl (RoutePathConflict 0)"
  "test_logic False [test_upstream None None]
     [test_rule (test_match (Some ''example.com'') None None) ''api'' (Some (de_retry_cfg 0 None None))]
     = Inl (RetryAttemptsZero 0)"
  by (simp_all add: test_config_simps)

text \<open>\<^verbatim>\<open>validate.rs\<close>: TLS, in both directions, and health checks.\<close>

lemma case_logic_tls:
  "check_logic (de_config (test_server (Some [sample_addr 3]) None) None (Some [test_upstream None None])
     (Some [example_rule])) \<lparr>vo_allow_insecure_tls = False\<rparr> = Inl TlsRequired"
  "check_logic (de_config (test_server None (Some [sample_addr 3])) None (Some [test_upstream None None])
     (Some [example_rule])) \<lparr>vo_allow_insecure_tls = False\<rparr> = Inl TlsRequired"
  "check_logic (de_config (test_server None None) (Some (de_tls_config [] None None None None None))
     (Some [test_upstream None None]) (Some [example_rule])) \<lparr>vo_allow_insecure_tls = False\<rparr> = Inl TlsNoCerts"
  "test_logic False [test_upstream (Some (de_upstream_tls None None (Some ''/etc/conduit/c.pem'') None (Some True))) None]
     [example_rule] = Inl (UpstreamMtlsMismatch ''api'')"
  "test_logic False [test_upstream (Some (de_upstream_tls None None None None (Some False))) None]
     [example_rule] = Inl (UpstreamInsecureTlsNotOptedIn ''api'')"
  "test_logic True [test_upstream (Some (de_upstream_tls None None None None (Some False))) None]
     [example_rule] = Inr ()"
  "test_logic False [test_upstream None
     (Some (de_health_check (Some ''/health'') (dstr_from_secs 0) (Some (dstr_from_secs 1)) None None))]
     [example_rule] = Inl (HealthCheckBadDuration ''api'' ''interval'')"
  by (simp_all add: test_config_simps)

section \<open>Routing\<close>

text \<open>\<^verbatim>\<open>table.rs\<close>: hosts.\<close>

lemma case_table_hosts:
  "test_find [test_route (Some ''api.example.com'') (Prefix ''/v1/'') ''api-v1'',
     test_route (Some ''api.example.com'') Any ''api-default''] (Some ''api.example.com'') ''/v1/items'' = Some ''api-v1''"
  "test_find [test_route (Some ''api.example.com'') (Prefix ''/v1/'') ''api-v1'',
     test_route (Some ''api.example.com'') Any ''api-default''] (Some ''api.example.com'') ''/health'' = Some ''api-default''"
  "test_find [test_route (Some ''Example.COM'') Any ''u''] (Some ''example.com'') ''/'' = Some ''u''"
  "test_find [test_route (Some ''Example.COM'') Any ''u''] (Some ''EXAMPLE.COM'') ''/'' = Some ''u''"
  "test_find [test_route (Some ''a.example.com'') Any ''a'', test_route None Any ''fallback''] None ''/'' = Some ''fallback''"
  "test_find [test_route (Some ''a.example.com'') Any ''a'', test_route None Any ''fallback'']
     (Some ''a.example.com'') ''/'' = Some ''a''"
  "test_find [test_route (Some ''a.example.com'') Any ''a'', test_route None Any ''fallback'']
     (Some ''b.example.com'') ''/'' = Some ''fallback''"
  "test_find [test_route (Some ''a.com'') Any ''a''] (Some ''b.com'') ''/'' = None"
  "test_find [test_route (Some ''a.com'') Any ''a''] None ''/'' = None"
  "test_find [test_route None (Prefix ''/'') ''fallback'', test_route (Some ''api.example.com'') (Prefix ''/'') ''api'']
     (Some ''api.example.com'') ''/x'' = Some ''api''"
  "test_find [test_route None (Prefix ''/'') ''fallback'', test_route (Some ''api.example.com'') (Prefix ''/'') ''api'']
     (Some ''other.com'') ''/x'' = Some ''fallback''"
  by (simp_all add: find_eval)

text \<open>\<^verbatim>\<open>table.rs\<close>: exact paths and prefixes.\<close>

lemma case_table_paths:
  "map (test_find [test_route None (Exact ''/healthz'') ''h''] None) [''/healthz'', ''/healthz/'', ''/healthzy'']
     = [Some ''h'', None, None]"
  "map (test_find [test_route None (Prefix ''/api/'') ''u''] None) [''/api/'', ''/api/users'', ''/api'']
     = [Some ''u'', Some ''u'', None]"
  "map (test_find [test_route None (Prefix ''/api/'') ''api-root'', test_route None (Prefix ''/api/v2/'') ''api-v2'',
      test_route None (Prefix ''/api/v2/admin/'') ''api-v2-admin''] None)
      [''/api/health'', ''/api/v2/items'', ''/api/v2/admin/users'']
     = [Some ''api-root'', Some ''api-v2'', Some ''api-v2-admin'']"
  "map (test_find [test_route None (Prefix ''/api/'') ''api'', test_route None (Exact ''/api/health'') ''health''] None)
      [''/api/health'', ''/api/users''] = [Some ''health'', Some ''api'']"
  by (simp_all add: find_eval)

text \<open>\<^verbatim>\<open>table.rs\<close>: patterns, here anchored literals, come after prefixes and in the order declared.\<close>

lemma case_table_regex:
  "map (test_find [test_route None (Prefix ''/static/'') ''static'', test_route None (Regex ''/v'') ''versioned''] None)
      [''/static/x'', ''/v1/items'', ''/v42/foo'', ''/other'']
     = [Some ''static'', Some ''versioned'', Some ''versioned'', None]"
  "test_find [test_route None (Regex ''/api/'') ''first'', test_route None (Regex ''/api/v2/'') ''second''] None
     ''/api/v2/items'' = Some ''first''"
  by (simp_all add: find_eval)

section \<open>Upstreams\<close>

text \<open>\<^verbatim>\<open>breaker.rs\<close>: all tests; instants are nanoseconds after the breaker was made.\<close>

lemma case_breaker:
  "breaker_check ((on_failure 0 ^^ n) (breaker_new 0 \<lparr>bc_threshold = 0, bc_cooldown = from_secs 1\<rparr>)) 0 = Allow"
  "breaker_check (on_failure 0 (on_failure 0 (breaker_new 0 \<lparr>bc_threshold = 3, bc_cooldown = from_secs 60\<rparr>))) 0 = Allow"
  "breaker_check (on_failure 0 (on_failure 0 (on_failure 0
     (breaker_new 0 \<lparr>bc_threshold = 3, bc_cooldown = from_secs 60\<rparr>)))) 0 = Reject"
  "breaker_check (on_failure 0 (on_failure 0 (breaker_new 0 \<lparr>bc_threshold = 2, bc_cooldown = from_secs 60\<rparr>))) 0 = Reject"
  "breaker_check (on_success (on_failure 0 (on_failure 0
     (breaker_new 0 \<lparr>bc_threshold = 2, bc_cooldown = from_secs 60\<rparr>)))) 0 = Allow"
  "breaker_check (on_failure 0 (breaker_new 0 \<lparr>bc_threshold = 1, bc_cooldown = from_millis 50\<rparr>)) 0 = Reject"
  "breaker_check (on_failure 0 (breaker_new 0 \<lparr>bc_threshold = 1, bc_cooldown = from_millis 50\<rparr>)) (from_millis 80) = Allow"
proof -
  have "(on_failure 0 ^^ n) b = b" if "b_threshold b = 0" for b
    using that by (induction n) (simp_all add: on_failure_def)
  then show "breaker_check ((on_failure 0 ^^ n) (breaker_new 0 \<lparr>bc_threshold = 0, bc_cooldown = from_secs 1\<rparr>)) 0 = Allow"
    by (simp add: breaker_new_def breaker_check_def)
qed (simp_all add: breaker_eval word_le_nat_alt word_less_nat_alt)

text \<open>\<^verbatim>\<open>retry.rs\<close>: all tests.\<close>

lemma case_retry:
  "map (\<lambda>(status, attempt). decide_status
       \<lparr>rp_attempts = 2, rp_on_status = [502, 503, 504], rp_on_connect_error = True\<rparr> status attempt)
     [(200, 0), (404, 0), (502, 0), (503, 0), (502, 1)] = [Stop, Stop, Retry, Retry, Stop]"
  "decide_status retry_none 502 0 = Stop"
  "decide_status \<lparr>rp_attempts = 0, rp_on_status = [502], rp_on_connect_error = False\<rparr> 502 0 = Stop"
  by (simp_all add: decide_status_def retry_none_def retry_default_def word_le_nat_alt)

text \<open>\<^verbatim>\<open>lib.rs\<close>: the rotation, with and without open breakers, and an upstream without addresses.\<close>

lemma case_pick_addr:
  "test_picks [\<lambda>_. 0, \<lambda>_. 0, \<lambda>_. 0, \<lambda>_. 0, \<lambda>_. 0, \<lambda>_. 0]
     (sample_pool 0 [closed_breaker, closed_breaker, closed_breaker]) = map (Some \<circ> sample_addr) [0, 1, 2, 0, 1, 2]"
  "test_picks [\<lambda>_. 0] (sample_pool 0 []) = [None]"
  "test_picks [\<lambda>_. 0, \<lambda>_. 0] (sample_pool 0 [closed_breaker, on_failure 0 closed_breaker, closed_breaker])
     = map (Some \<circ> sample_addr) [0, 2]"
  "test_picks [\<lambda>_. 0] (sample_pool 2 [on_failure 0 closed_breaker, on_failure 0 closed_breaker, on_failure 0 closed_breaker])
     = [None]"
  by (simp_all add: pick_addr_def sample_pool_simps breaker_eval upt_rec)

section \<open>Bodies, certificates and metrics\<close>

text \<open>\<^verbatim>\<open>body.rs\<close>: all tests but the boxed one.\<close>

lemma case_vec_body:
  "vec_poll_frame t (vec_empty :: unit vec_body) = (vec_empty, Ready None :: (unit, unit) polled)"
  "vec_is_end_stream vec_empty" "vec_size_hint vec_empty = Some 0"
  "drain vec_poll_frame [0, 1, 2] (vec_from_chunks [''foo'', ''bar'']) []
     = (Some (Inr ''foobar'') :: (unit + string) option)"
  "\<not> vec_is_end_stream (vec_with_trailers (vec_from_bytes ''payload'') [(''x-trailer'', ''end'')])"
  "drain vec_poll_frame [0, 1, 2] (vec_with_trailers (vec_from_bytes ''payload'') [(''x-trailer'', ''end'')]) []
     = (Some (Inr ''payload'') :: (unit + string) option)"
  "vec_size_hint (vec_from_chunks [''abc'', ''defg'']) = Some 7"
  "vec_is_end_stream (vec_from_bytes '''')" "vec_size_hint (vec_from_bytes '''') = Some 0"
  by (simp_all add: vec_poll_frame_def vec_empty_def vec_is_end_stream_def vec_size_hint_def vec_remaining_def
      vec_from_chunks_def vec_with_trailers_def vec_from_bytes_def)

text \<open>\<^verbatim>\<open>tls.rs\<close>: exact names, wildcards of one label, the fallback.\<close>

lemma case_certificates:
  "map (fake_lookup [''example.com'', ''api.example.com'']) [''example.com'', ''EXAMPLE.com'', ''api.example.com'']
     = map Some [''example.com'', ''example.com'', ''api.example.com'']"
  "map (fake_lookup [''*.example.com'']) [''api.example.com'', ''WWW.example.com''] = map Some [''*.example.com'', ''*.example.com'']"
  "fake_lookup [''default.example.com'', ''*.example.com''] ''a.b.example.com'' = Some ''default.example.com''"
  "fake_lookup [''api.example.com'', ''*.other.com''] ''unknown.host'' = Some ''api.example.com''"
  by (simp_all add: fake_lookup_def table_lookup_def after_dot_def strip_prefix_str_def sample_spec_def
      to_ascii_lowercase_def ascii_lower_char_def is_ascii_uppercase_def char_of_def bit_Suc_0_iff Let_def)

text \<open>\<^verbatim>\<open>metrics.rs\<close>: the lines that the tests look for.\<close>

lemma case_metrics_counters:
  "Sample ''conduit_requests_total'' [] ''0'' \<in> set (counter_lines metrics_new)"
  "map (class_responses (fold observe_status [200, 204, 301, 404, 503, 100] metrics_new)) [0, 1, 2, 3] = [2, 1, 1, 1]"
  by (simp_all add: counter_lines_def metrics_new_def show_u64_def show_nat.simps digit_char_def char_of_def bit_Suc_0_iff
      class_responses_def observe_status_def class_index_def Let_def)

lemma four_classes: "replicate 4 x = [x, x, x, x]" "[a, b, c, d][3 := x] = [a, b, c, x]"
  by (simp_all add: numeral_eq_Suc)

lemmas duration_eval = metrics_new_def class_index_def observe_request_duration_def LATENCY_BUCKETS_S_def
  bucket_index_def as_secs_def from_millis_def bump_def saturating_add_def four_classes Let_def

lemma case_metrics_buckets:
  "cumulative 0 (mh_duration_buckets (fold (\<lambda>d. observe_request_duration (from_millis d) 200) [5, 200] metrics_new))
     = [0, 1, 1, 1, 1, 1, 2, 2, 2, 2, 2, 2]"
  "map (\<lambda>h. cumulative 0 (ch_buckets h)) (mh_duration_by_class (observe_request_duration (from_millis 900) 503
      (observe_request_duration (from_millis 8) 204 (observe_request_duration (from_millis 2) 200 metrics_new))))
     = [[0, 1, 2, 2, 2, 2, 2, 2, 2, 2, 2, 2], [0, 0, 0, 0, 0, 0, 0, 0, 0, 0, 0, 0],
        [0, 0, 0, 0, 0, 0, 0, 0, 0, 0, 0, 0], [0, 0, 0, 0, 0, 0, 0, 0, 1, 1, 1, 1]]"
  by (simp_all add: duration_eval)

end
