(* ===== verification/Spec2Isabelle.thy ===== *)
theory Spec2Isabelle
  imports Conduit_Report Conduit_Scrape Conduit_Plane Conduit_Cases
begin

text \<open>
  Conduit is a reverse proxy: it accepts HTTP/1.1, HTTP/2 and HTTP/3 connections, routes each
  request by host, path and headers to a named upstream, forwards it to one of the upstream's
  backends and streams the response back. This library models the program crate by crate from
  the sources under \<^verbatim>\<open>src/crates\<close> and proves what makes the parts, and the whole, correct.

  \<^bold>\<open>The parts and their theories\<close>, in the order of their imports:

  \<^item> \<open>Conduit_Prelude\<close>: machine integers (\<open>u8\<close> to \<open>u64\<close>, \<open>usize\<close> of 64 bits), checked and saturating
    arithmetic, durations as exact nanoseconds, Rust string operations, generic lemmas, and the
    locales \<open>inductive_invariant\<close> and \<open>simulation\<close> for step relations.
  \<^item> \<open>Conduit_Duration\<close> (\<^verbatim>\<open>conduit-config\<close>: \<^verbatim>\<open>duration.rs\<close>, \<^verbatim>\<open>workers.rs\<close>), \<open>Conduit_Config\<close> (\<^verbatim>\<open>schema.rs\<close>,
    \<^verbatim>\<open>error.rs\<close>) and \<open>Conduit_Validate\<close> (\<^verbatim>\<open>validate.rs\<close>, \<^verbatim>\<open>lib.rs\<close>): the document, its grammar of
    durations, its defaults and its validation.
  \<^item> \<open>Conduit_Http\<close>: requests, responses, URIs and the third-party types the code calls.
  \<^item> \<open>Conduit_Routing\<close> (\<^verbatim>\<open>conduit-lifecycle/table.rs\<close>, \<open>Route\<close>, \<open>HostBucket\<close>, \<open>RouteTable\<close>).
  \<^item> \<open>Conduit_Breaker\<close>, \<open>Conduit_Pool\<close>, \<open>Conduit_Forward\<close>, \<open>Conduit_Timed\<close>, \<open>Conduit_Health\<close>
    (\<^verbatim>\<open>conduit-upstream\<close>: \<^verbatim>\<open>breaker.rs\<close>, \<^verbatim>\<open>retry.rs\<close> and \<^verbatim>\<open>lib.rs\<close>, \<^verbatim>\<open>timed.rs\<close>, \<^verbatim>\<open>health.rs\<close>).
  \<^item> \<open>Conduit_Body\<close> (\<^verbatim>\<open>conduit-proto\<close>: \<^verbatim>\<open>body.rs\<close>, \<^verbatim>\<open>cancel.rs\<close>).
  \<^item> \<open>Conduit_Dispatch\<close> (\<^verbatim>\<open>conduit-lifecycle/table.rs\<close>, \<open>UpstreamMap\<close> and \<open>Dispatch\<close>).
  \<^item> \<open>Conduit_Shared\<close>: \<open>forward\<close> again, as the single atomic accesses and awaits of any number of
    requests and probe tasks over one shared upstream.
  \<^item> \<open>Conduit_Metrics\<close> and \<open>Conduit_Admin\<close> (\<^verbatim>\<open>conduit-control\<close>: \<^verbatim>\<open>metrics.rs\<close>, \<^verbatim>\<open>admin.rs\<close>), and
    \<open>Conduit_Scrape\<close>: the single counter updates of requests between the single loads of a scrape.
  \<^item> \<open>Conduit_Tls\<close> (\<^verbatim>\<open>conduit-transport/tls.rs\<close>) and \<open>Conduit_Conn\<close> (\<^verbatim>\<open>conduit-h1\<close>, \<^verbatim>\<open>conduit-h2\<close>,
    \<^verbatim>\<open>conduit-h3\<close> and the listener threads of the binary).
  \<^item> \<open>Conduit_Serve\<close> and \<open>Conduit_Monoio\<close> (\<^verbatim>\<open>conduit-io\<close>: \<^verbatim>\<open>bind.rs\<close>, \<^verbatim>\<open>tokio_worker.rs\<close> and
    \<^verbatim>\<open>monoio_worker.rs\<close>): binding, accept loops, drain, report.
  \<^item> \<open>Conduit_Proxy\<close>, \<open>Conduit_Main\<close>, \<open>Conduit_Exit\<close>, \<open>Conduit_Report\<close>, \<open>Conduit_Live\<close>
    (\<^verbatim>\<open>conduit/main.rs\<close> and \<^verbatim>\<open>log.rs\<close>): one proxied request; what the threads are given, hot reload and the
    shutdown protocol; startup and exit code; what a failed start prints and the logging set-up;
    requests and reloads at the same time.
  \<^item> \<open>Conduit_Process\<close> and \<open>Conduit_Plane\<close>: the data plane of the whole process as single atomic
    accesses: the cells of the listeners, the dispatchers loaded from them, the pools of every
    dispatcher with their calls and probe tasks, and the reload thread; then what its reachable
    states guarantee.
  \<^item> \<open>Conduit_Cases\<close>: the unit tests of the crates replayed on the definitions, as a check of the
    translation.
  \<^item> \<open>Conduit_Service\<close> and this theory: what it means to serve a document, and the properties that
    span the components.

  \<^bold>\<open>How code is rendered.\<close> A struct is a record and an enum a datatype with the source's names,
  shortened where they clash; an operation is a function that returns the updated state. A
  \<open>Result\<close> is a sum (\<open>Inl\<close> the error); where the code can panic, or a task can wait for ever, the
  result is in an option whose \<open>None\<close> says so. Atomic counters are words of their width and wrap
  as \<open>fetch_add\<close> does. Clocks and timers are arguments: the instants successive readings return.
  Where threads or tasks interleave, there is a step relation: the single atomic accesses of a
  breaker (\<open>breaker_step\<close>), those of the calls and probes over a pool (\<open>pool_step\<close>), counter updates and
  loads (\<open>scrape_step\<close>), the tasks of a worker between awaits (\<open>worker_step\<close>, \<open>uring_step\<close>), the
  threads of the process at shutdown (\<open>proc_step\<close>), dispatcher cells under load and reload
  (\<open>live_step\<close>), and all of the data plane at once (\<open>process_step\<close>). Loops are structural recursion, recursion with a measure, or, where they end only
  when a flag is set, \<open>partial_function (option)\<close>; that they end is then a theorem. No fuel is used
  except for the sequence of polls or instants an asynchronous reader is given.

  \<^bold>\<open>Third-party code\<close> (\<open>http\<close>, \<open>regex\<close>, \<open>hyper\<close>, \<open>rustls\<close>, \<open>quinn\<close>, \<open>toml\<close>, sockets, the file system)
  is an argument of the definitions: the records \<open>crates\<close>, \<open>tls_crates\<close>, \<open>sign_crates\<close>, \<open>net\<close> and
  plain function arguments. What a theorem needs of them is a named hypothesis, such as
  \<open>crates_ok\<close> (a header that was set is found, a URI with all its parts is accepted) or
  \<open>authority_ok\<close> (a socket address renders as an authority), with instances in the witnesses.

  \<^bold>\<open>Interfaces\<close> are locales, each interpreted on the model: \<open>backend_gate\<close> (what a pool needs of a
  breaker), \<open>body_stream\<close> with \<open>timed_inner\<close> and \<open>proxied_body\<close> (bodies that are polled, and the
  wrappers around them), \<open>registry\<close> (the upstream map), \<open>hot_swap\<close> (the certificate cell),
  \<open>inductive_invariant\<close> (breaker, pool, counters, worker, shutdown, data plane, probes) and \<open>simulation\<close> (the \<open>monoio\<close>
  worker as a \<open>tokio\<close> worker, each backend of a shared pool as an interleaved breaker).

  \<^bold>\<open>What is shown.\<close> Configuration: the duration parser accepts exactly its grammar and inverts
  printing; validation accepts exactly the valid documents and its errors describe real faults.
  Routing: the indexed table is the linear scan. Upstreams: a breaker rejects exactly when its
  history says so, under any interleaving it is never left tripped without a deadline; the
  rotation finds a usable backend whenever there is one; a forwarded request is what the
  sources promise, bounded, and recorded at one breaker in the right direction; the read timeout
  is a per-frame deadline. Many requests over one upstream: no call waits for another inside the
  proxy, every backend's breaker stays sound, the rotation stays fair, and a call that is not
  disturbed is the sequential \<open>forward\<close>. Metrics: rendered histograms count what they say, a scrape
  among running requests is well formed for the global histogram and off by at most the requests
  in between for a class, and the counters at rest are those of the requests in any order. TLS: the certificate
  is the one the reference selects. Serving: what a worker's counts mean, that shutdown is never
  stuck, that the two backends agree. Process: exit codes, hot reload, a clean exit, and that
  the exit needs a SIGHUP. End to end: an accepted document is served, the client sees only the
  documented statuses, an HTTP/3 body reaches the backend byte for byte. The data plane, however requests, probes and
  reloads interleave: a request is sent only to addresses that one document configures for the
  upstream its route names; each reply follows one document, and documents never go back along a
  cell; a request that is not disturbed is the sequential \<open>handle\<close>; every breaker of every
  dispatcher stays sound; every request can complete without help from another; and probe
  tasks touch the first dispatcher only, so that after a reload no probe serves a live one.

  \<^bold>\<open>Bounds.\<close> Statements about counters assume fewer than \<open>2 ^ 64\<close> events (\<open>2 ^ 32\<close> for a breaker's
  failures); beyond that the code wraps, and \<open>failure_counter_wraps\<close> and
  \<open>pick_addr_wrap_skips_backend\<close> show what then happens. \<open>addrs_fit\<close> says that an upstream has
  fewer than \<open>2 ^ 64\<close> addresses.

  \<^bold>\<open>Not modelled.\<close> \<open>clap\<close>'s parsing of the command line, the log lines, \<open>Debug\<close>
  implementations and the re-exports of the crate roots. The third-party crates above. Metrics
  record seconds as \<open>f64\<close>; the model compares exact rationals, with the same answers (see
  \<open>Conduit_Metrics\<close>). The atomics take effect in one global order: reorderings that \<open>Relaxed\<close> allows
  a weakly ordered machine between different cells are outside the model. The data
  plane and the counters interleave in separate theories (\<open>Conduit_Process\<close>, \<open>Conduit_Scrape\<close>):
  requests write the counters, and nothing that answers a request reads them.
  Tests, benches and fuzz targets are not part of the program; \<open>Conduit_Cases\<close> takes the inputs and
  the answers of the unit tests only.
\<close>

section \<open>Properties\<close>

text \<open>
  C1. A document that \<open>load\<close> accepts can be served: if the TLS files of its upstreams load, the
  dispatcher is built, and for every sequence of requests, whatever the upstreams and the
  timers do, every request gets an answer; it is never that a route's upstream is unknown, and
  it is \<open>NoRoute\<close> exactly when no configured route matches.
\<close>

theorem accepted_config_serves:
  assumes "load_config rd from_str env is_file path = Inr cfg" and "authority_ok X"
    and "connectors_load Y cfg" and "addrs_fit cfg"
  shows "\<exists>d. dispatch_from_config X Y clk cfg = Some d \<and>
    (\<forall>reqs. \<exists>d' rs. handle_seq X d reqs = Some (d', rs)
       \<and> list_all2 (\<lambda>(ev, req) r. answer_ok X cfg req r) reqs rs)"
proof -
  note valid = load_config_valid [OF assms(1)]
  obtain d where d: "dispatch_from_config X Y clk cfg = Some d" "serves X cfg d"
    using serves_init [OF assms(2-4) valid] by blast
  then show ?thesis using serves_handle_seq [OF valid d(2)] by blast
qed

theorem accepted_config_serves_witness:
  "\<exists>d. dispatch_from_config sample_crates sample_tls_crates (\<lambda>_. 0) sample_config = Some d \<and>
     (\<exists>d' r. handle_seq sample_crates d [(sample_env True, sample_request [] ''/'')] = Some (d', [r])
        \<and> answer_ok sample_crates sample_config (sample_request [] ''/'') r)"
proof -
  obtain d where d: "dispatch_from_config sample_crates sample_tls_crates (\<lambda>_. 0) sample_config = Some d"
    "\<forall>reqs. \<exists>d' rs. handle_seq sample_crates d (reqs :: (((string \<times> string) list, unit) env \<times> _) list)
       = Some (d', rs) \<and> list_all2 (\<lambda>(ev, req) r. answer_ok sample_crates sample_config req r) reqs rs"
    using accepted_config_serves [OF sample_serves_inputs(1) sample_authority_ok
        sample_serves_inputs(2) sample_config_fits, of "\<lambda>_. 0"] by blast
  from d(2) [rule_format, of "[(sample_env True, sample_request [] ''/'')]"] d(1)
  show ?thesis by (auto simp: list_all2_Cons1)
qed



text \<open>
  C19. An HTTP/3 exchange, from the client to the backend and back: take a dispatcher that serves
  a valid document and a request stream that is served to its end by the handler of the HTTP/3
  listener. Then every request the exchange sent to a backend carries the client's method and,
  as its body, exactly the bytes the client sent, however they were cut into chunks; the status
  that went out is the one the metrics record; and if the backend answered, the head is the
  backend's and the data frames concatenate to what reading the backend's body to its end under
  the read timeout returns.
\<close>

theorem h3_end_to_end:
  assumes "config_valid opts cfg" and "serves X cfg d"
    and "drive_request (proxy_poll_frame fired poll) st (h3_handler X ev elapsed d m) ts = Some (out, Inr ())"
  shows "\<exists>parts chunks rest d' r sent. hs_resolve st = Inr parts
    \<and> hs_recv st = map (\<lambda>c. Inr (Some c)) chunks @ Inr None # rest
    \<and> handle X ev d (parts\<lparr>rq_body := full_body (concat (concat chunks))\<rparr>) = Some (d', r, sent)
    \<and> (\<forall>o'\<in>set sent. oq_method o' = rq_method parts \<and> oq_bytes o' = concat (concat chunks))
    \<and> map_option fst (ho_head out) = Some (status_for_metrics r) \<and> ho_finished out
    \<and> (\<forall>resp. r = Inr resp \<longrightarrow> ho_head out = Some (rs_status resp, rs_headers resp)
         \<and> drain (timed_poll_frame fired poll) ts (rs_body resp) [] = Some (Inr (concat (ho_data out))))"
proof -
  let ?h = "h3_handler X ev elapsed d m"
  from h3_exchange_complete [OF assms(3)] obtain parts chunks rest where st: "hs_resolve st = Inr parts"
      "hs_recv st = map (\<lambda>c. Inr (Some c)) chunks @ Inr None # rest"
    and fin: "ho_finished out"
    and head: "ho_head out = Some (rs_status (?h (parts\<lparr>rq_body := full_body (concat (concat chunks))\<rparr>)),
        rs_headers (?h (parts\<lparr>rq_body := full_body (concat (concat chunks))\<rparr>)))"
    and data: "drain (proxy_poll_frame fired poll) ts
        (rs_body (?h (parts\<lparr>rq_body := full_body (concat (concat chunks))\<rparr>))) [] = Some (Inr (concat (ho_data out)))"
    by (auto simp: Let_def)
  let ?req = "parts\<lparr>rq_body := full_body (concat (concat chunks))\<rparr>"
  obtain d' r sent where h: "handle X ev d ?req = Some (d', r, sent)"
    using serves_handle [OF assms(1,2)] by blast
  have sent: "\<forall>o'\<in>set sent. oq_method o' = rq_method parts \<and> oq_bytes o' = concat (concat chunks)"
    using handle_carries [OF assms(2) h] by (auto simp: carries_def buffer_full_body)
  note resp = h3_handler_response [OF h, of elapsed m]
  have "\<forall>resp. r = Inr resp \<longrightarrow> ho_head out = Some (rs_status resp, rs_headers resp)
      \<and> drain (timed_poll_frame fired poll) ts (rs_body resp) [] = Some (Inr (concat (ho_data out)))"
    using resp head data by (auto simp: drain_upstream)
  with st fin head h sent resp show ?thesis by auto
qed

theorem h3_end_to_end_witness:
  "\<exists>d out. dispatch_from_config sample_crates sample_tls_crates (\<lambda>_. 0) sample_config = Some d
     \<and> drive_request (proxy_poll_frame (\<lambda>d n. True) (\<lambda>t s. (s, Pending :: ((string \<times> string) list, unit) polled)))
         sample_stream (h3_handler sample_crates (sample_env True) 5 d metrics_new) [0, 1, 2] = Some (out, Inr ())
     \<and> map_option fst (ho_head out) = Some 404"
proof -
  let ?poll = "proxy_poll_frame (\<lambda>d n. True) (\<lambda>t s. (s, Pending :: ((string \<times> string) list, unit) polled))"
  note valid = load_config_valid [OF sample_serves_inputs(1)]
  obtain d where d: "dispatch_from_config sample_crates sample_tls_crates (\<lambda>_. 0) sample_config = Some d"
    "serves sample_crates sample_config d"
    using serves_init [OF sample_authority_ok sample_serves_inputs(2) sample_config_fits valid] by blast
  let ?h = "h3_handler sample_crates (sample_env True) 5 d metrics_new"
  have unrouted: "\<not> routed sample_crates sample_config (sample_request [] ''/''\<lparr>rq_body := b\<rparr>)" for b
    by (simp add: routed_def request_matches_def route_matches_def host_matches_def
        route_from_config_def sample_defs)
  have none: "handle sample_crates (sample_env True) d (sample_request [] ''/''\<lparr>rq_body := b\<rparr>) = Some (d', r, sent)
      \<Longrightarrow> r = Inl NoRoute" for b d' r sent
    using serves_handle [OF valid d(2), of "sample_env True" "sample_request [] ''/''\<lparr>rq_body := b\<rparr>"] unrouted
    by (auto simp: answer_ok_def)
  have "?h (sample_request [] ''/''\<lparr>rq_body := b\<rparr>) = error_response sample_crates 404 (''conduit: no route matched'' @ nl)" for b
  proof -
    obtain d' r sent where hd: "handle sample_crates (sample_env True) d (sample_request [] ''/''\<lparr>rq_body := b\<rparr>) = Some (d', r, sent)"
      using serves_handle [OF valid d(2)] by blast
    with none [OF hd] show ?thesis by (simp add: h3_handler_def proxy_one_def respond_def Let_def)
  qed
  then obtain out where run: "drive_request ?poll sample_stream ?h [0, 1, 2] = Some (out, Inr ())"
    by (simp add: drive_request_def sample_stream_def error_response_def proxy_poll_frame_def
        vec_from_bytes_def vec_poll_frame_def Let_def)
  from h3_end_to_end [OF valid d(2) run] obtain parts chunks d' r sent where
    parts: "hs_resolve sample_stream = Inr parts"
    and h: "handle sample_crates (sample_env True) d (parts\<lparr>rq_body := full_body (concat (concat chunks))\<rparr>) = Some (d', r, sent)"
    and head: "map_option fst (ho_head out) = Some (status_for_metrics r)"
    by blast
  from parts have "parts = sample_request [] ''/''" by (simp add: sample_stream_def)
  from none [OF h [unfolded this]] head have "map_option fst (ho_head out) = Some 404"
    by (simp add: status_for_metrics_def)
  with d(1) run show ?thesis by blast
qed

text \<open>
  Reloads keep the proxy in service: take live dispatchers that serve a valid document and
  any sequence of SIGHUPs whose documents, when they load, have loadable TLS files. Afterwards
  there is one document, the old one or one that was reloaded, such that every dispatcher
  answers every request according to it.
\<close>

theorem reloads_keep_serving:
  assumes "authority_ok X" and "config_valid opts cfg0"
    and "\<forall>d\<in>set (lv_dispatches lv). serves X cfg0 d"
    and "\<forall>w\<in>set ws. \<forall>cfg. loads from_str path w = Some cfg \<longrightarrow>
           connectors_load (rw_tls w) cfg \<and> addrs_fit cfg"
  shows "\<exists>lv' cfg. reload_loop X S from_str path ws lv = Some lv'
    \<and> (cfg = cfg0 \<or> (\<exists>w\<in>set ws. loads from_str path w = Some cfg))
    \<and> (\<forall>d\<in>set (lv_dispatches lv'). \<forall>ev req. \<exists>d' r sent.
         handle X ev d req = Some (d', r, sent) \<and> answer_ok X cfg req r)"
proof -
  obtain lv' where lv': "reload_loop X S from_str path ws lv = Some lv'"
      "case effective from_str path ws of None \<Rightarrow> lv' = lv
       | Some w \<Rightarrow> (\<exists>cfg. loads from_str path w = Some cfg \<and> built_by X cfg w (lv_dispatches lv'))"
    using reload_loop_cases [OF assms(1), of S from_str path ws lv] by blast
  show ?thesis
  proof (cases "effective from_str path ws")
    case None
    with lv' assms(3) have "serves X cfg0 d" if "d \<in> set (lv_dispatches lv')" for d
      using that by simp
    from serves_handle [OF assms(2) this]
    have "\<forall>d\<in>set (lv_dispatches lv'). \<forall>ev req. \<exists>d' r sent.
        handle X ev d req = Some (d', r, sent) \<and> answer_ok X cfg0 req r" by blast
    with lv'(1) show ?thesis by blast
  next
    case (Some w)
    then have w: "w \<in> set ws"
      unfolding effective_def by (metis find_SomeD set_rev set_takeWhileD)
    from Some lv'(2) obtain cfg where cfg: "loads from_str path w = Some cfg"
      "built_by X cfg w (lv_dispatches lv')" by auto
    then have valid: "config_valid \<lparr>vo_allow_insecure_tls = (rw_env w = Some ''1'')\<rparr> cfg"
      by (auto simp: loads_def split: sum.splits intro: load_config_valid)
    have "serves X cfg d" if "d \<in> set (lv_dispatches lv')" for d
    proof -
      from that obtain j where "dispatch_from_config X (rw_tls w) (rw_clk w j) cfg = Some d"
        using cfg(2) by (auto simp: built_by_def in_set_conv_nth)
      with w cfg(1) assms(4) show ?thesis
        using serves_init [OF assms(1) _ _ valid, of "rw_tls w" "rw_clk w j"] by auto
    qed
    from serves_handle [OF valid this]
    have "\<forall>d\<in>set (lv_dispatches lv'). \<forall>ev req. \<exists>d' r sent.
        handle X ev d req = Some (d', r, sent) \<and> answer_ok X cfg req r" by blast
    with lv'(1) w cfg(1) show ?thesis by blast
  qed
qed

theorem reloads_keep_serving_witness:
  "\<exists>d lv'. dispatch_from_config sample_crates sample_tls_crates (\<lambda>_. 0) sample_config = Some d
     \<and> reload_loop sample_crates sample_sign_crates (\<lambda>_. Inr sample_config) ''conduit.toml''
         [sample_world (Inl ''gone''), sample_world (Inr ''ok'')]
         \<lparr>lv_dispatches = [d], lv_resolver = None\<rparr> = Some lv'
     \<and> (\<forall>d\<in>set (lv_dispatches lv'). \<forall>ev req. \<exists>d' r sent.
          handle sample_crates (ev :: ((string \<times> string) list, unit) env) d req = Some (d', r, sent)
          \<and> answer_ok sample_crates sample_config req r)"
proof -
  note valid = load_config_valid [OF sample_serves_inputs(1)]
  obtain d where d: "dispatch_from_config sample_crates sample_tls_crates (\<lambda>_. 0) sample_config = Some d"
    "serves sample_crates sample_config d"
    using serves_init [OF sample_authority_ok sample_serves_inputs(2) sample_config_fits valid] by blast
  have only: "cfg = sample_config" "rw_tls w = sample_tls_crates"
    if "w \<in> set [sample_world (Inl ''gone''), sample_world (Inr ''ok'')]"
      "loads (\<lambda>_. Inr sample_config) ''conduit.toml'' w = Some cfg" for w cfg
    using that by (auto simp: loads_def load_config_def parse_config_def sample_world_def split: sum.splits)
  have "\<forall>d\<in>set (lv_dispatches \<lparr>lv_dispatches = [d], lv_resolver = None\<rparr>). serves sample_crates sample_config d"
    using d(2) by simp
  moreover have "\<forall>w\<in>set [sample_world (Inl ''gone''), sample_world (Inr ''ok'')]. \<forall>cfg.
      loads (\<lambda>_. Inr sample_config) ''conduit.toml'' w = Some cfg \<longrightarrow>
      connectors_load (rw_tls w) cfg \<and> addrs_fit cfg"
    using only sample_serves_inputs(2) sample_config_fits by metis
  ultimately obtain lv' cfg where
    "reload_loop sample_crates sample_sign_crates (\<lambda>_. Inr sample_config) ''conduit.toml''
       [sample_world (Inl ''gone''), sample_world (Inr ''ok'')]
       \<lparr>lv_dispatches = [d], lv_resolver = None\<rparr> = Some lv'"
    "cfg = sample_config \<or> (\<exists>w\<in>set [sample_world (Inl ''gone''), sample_world (Inr ''ok'')].
        loads (\<lambda>_. Inr sample_config) ''conduit.toml'' w = Some cfg)"
    "\<forall>d\<in>set (lv_dispatches lv'). \<forall>ev req. \<exists>d' r sent.
        handle sample_crates (ev :: ((string \<times> string) list, unit) env) d req = Some (d', r, sent)
        \<and> answer_ok sample_crates cfg req r"
    using reloads_keep_serving [OF sample_authority_ok valid,
        where ws = "[sample_world (Inl ''gone''), sample_world (Inr ''ok'')]"
          and from_str = "\<lambda>_. Inr sample_config" and path = "''conduit.toml''" and S = sample_sign_crates
          and lv = "\<lparr>lv_dispatches = [d], lv_resolver = None\<rparr>"]
    by blast
  with d(1) only(1) show ?thesis by blast
qed

end
